(* ===== verification/Prelude.thy ===== *)
theory Prelude
  imports Main "HOL-Library.Word" "HOL-Library.AList" "HOL-Library.Monad_Syntax"
begin

unbundle bit_operations_syntax

text \<open>
  What the component theories share: the machine integers of the Go code, Go strings (byte
  strings, read as ASCII where the code folds case), Go maps as association lists with distinct
  keys, the big-endian integer encoding of \<^verbatim>\<open>encoding/binary\<close>, and the lemmas about them that
  the component proofs use. Nothing here is specific to RouteDNS.
\<close>

section \<open>Machine integers\<close>

type_synonym u8 = "8 word"
type_synonym u16 = "16 word"
type_synonym u32 = "32 word"
type_synonym u64 = "64 word"

text \<open>\<^verbatim>\<open>math.MaxUint32\<close> and \<^verbatim>\<open>math.MaxUint16\<close>.\<close>

abbreviation MaxUint32 :: u32 where
  "MaxUint32 \<equiv> - 1"

lemma le_MaxUint32 [simp]: "(x :: u32) \<le> MaxUint32"
  by simp

lemma not_MaxUint32_less [simp]: "\<not> MaxUint32 < (x :: u32)"
  by (simp add: not_less)

lemma less_MaxUint32_iff: "(x :: u32) < MaxUint32 \<longleftrightarrow> x \<noteq> MaxUint32"
  by (simp add: order_less_le)

section \<open>Collections of facts\<close>

text \<open>
  \<open>go_string\<close> collects the equations that evaluate the string functions of the Go standard
  library, \<open>go_net\<close> those of package \<^verbatim>\<open>net\<close>, \<open>dns_data\<close> the accessors of DNS messages.
\<close>

named_theorems go_string "equations of Go string functions"
named_theorems go_net "equations of package net"
named_theorems dns_data "accessors of DNS messages"

section \<open>Go strings\<close>

text \<open>
  A Go string is a byte string: \<open>string\<close> is a list of 8-bit characters. \<^verbatim>\<open>strings.ToLower\<close> and
  \<^verbatim>\<open>strings.ToUpper\<close> are modelled on ASCII letters, which is all they change in a domain name in
  presentation format (other octets are escaped there).
\<close>

definition is_upper :: "char \<Rightarrow> bool" where
  "is_upper c \<longleftrightarrow> (65::nat) \<le> of_char c \<and> of_char c \<le> (90::nat)"

definition is_lower :: "char \<Rightarrow> bool" where
  "is_lower c \<longleftrightarrow> (97::nat) \<le> of_char c \<and> of_char c \<le> (122::nat)"

definition lower_char :: "char \<Rightarrow> char" where
  "lower_char c = (if is_upper c then char_of (of_char c + (32::nat)) else c)"

definition upper_char :: "char \<Rightarrow> char" where
  "upper_char c = (if is_lower c then char_of (of_char c - (32::nat)) else c)"

definition ToLower :: "string \<Rightarrow> string" where
  "ToLower s = map lower_char s"

definition ToUpper :: "string \<Rightarrow> string" where
  "ToUpper s = map upper_char s"

text \<open>\<^verbatim>\<open>strings.EqualFold\<close> on ASCII.\<close>

definition EqualFold :: "string \<Rightarrow> string \<Rightarrow> bool" where
  "EqualFold s t \<longleftrightarrow> ToLower s = ToLower t"

lemma is_upper_not_lower [simp]: "is_upper c \<Longrightarrow> \<not> is_lower c"
  by (simp add: is_upper_def is_lower_def)

lemma not_upper_lower_char [simp]: "\<not> is_upper (lower_char c)"
  by (auto simp: lower_char_def is_upper_def)

lemma lower_char_idem [simp]: "lower_char (lower_char c) = lower_char c"
  by (subst lower_char_def) simp

lemma lower_char_dot [simp]: "lower_char c = CHR ''.'' \<longleftrightarrow> c = CHR ''.''"
proof -
  have "char_of (of_char c + (32::nat)) \<noteq> CHR ''.''" if "is_upper c"
  proof
    assume "char_of (of_char c + (32::nat)) = CHR ''.''"
    then have "of_char (char_of (of_char c + (32::nat))) = (46::nat)" by simp
    with that show False by (simp add: is_upper_def)
  qed
  moreover have "\<not> is_upper (CHR ''.'')" by (simp add: is_upper_def)
  ultimately show ?thesis by (auto simp: lower_char_def)
qed

lemma ToLower_idem [simp]: "ToLower (ToLower s) = ToLower s"
  by (simp add: ToLower_def)

lemma length_ToLower [simp]: "length (ToLower s) = length s"
  by (simp add: ToLower_def)

lemma ToLower_append [go_string]: "ToLower (s @ t) = ToLower s @ ToLower t"
  by (simp add: ToLower_def)

lemma EqualFold_refl [simp]: "EqualFold s s"
  by (simp add: EqualFold_def)

lemma EqualFold_sym: "EqualFold s t \<Longrightarrow> EqualFold t s"
  by (simp add: EqualFold_def)

lemma EqualFold_trans: "EqualFold s t \<Longrightarrow> EqualFold t u \<Longrightarrow> EqualFold s u"
  by (simp add: EqualFold_def)

text \<open>\<^verbatim>\<open>strings.HasPrefix\<close>, \<^verbatim>\<open>strings.HasSuffix\<close>, \<^verbatim>\<open>strings.TrimSuffix\<close>, \<^verbatim>\<open>strings.TrimSpace\<close>.\<close>

definition HasPrefix :: "string \<Rightarrow> string \<Rightarrow> bool" where
  "HasPrefix s p \<longleftrightarrow> take (length p) s = p"

definition HasSuffix :: "string \<Rightarrow> string \<Rightarrow> bool" where
  "HasSuffix s p \<longleftrightarrow> length p \<le> length s \<and> drop (length s - length p) s = p"

definition TrimSuffix :: "string \<Rightarrow> string \<Rightarrow> string" where
  "TrimSuffix s p = (if HasSuffix s p then take (length s - length p) s else s)"

definition is_space :: "char \<Rightarrow> bool" where
  "is_space c \<longleftrightarrow> c \<in> {CHR '' '', CHR 0x09, CHR 0x0A, CHR 0x0B, CHR 0x0C, CHR 0x0D}"

definition TrimSpace :: "string \<Rightarrow> string" where
  "TrimSpace s = rev (dropWhile is_space (rev (dropWhile is_space s)))"

lemma HasSuffix_append [simp]: "HasSuffix (s @ p) p"
  by (simp add: HasSuffix_def)

lemma TrimSuffix_append [simp]: "TrimSuffix (s @ p) p = s"
  by (simp add: TrimSuffix_def)

text \<open>
  \<^verbatim>\<open>strings.Split(s, sep)\<close> for a separator of one byte, and \<^verbatim>\<open>strings.Join(elems, sep)\<close>. The two
  are inverse on fragments without the separator.
\<close>

fun Split :: "char \<Rightarrow> string \<Rightarrow> string list" where
  "Split d [] = [[]]"
| "Split d (c # cs) =
     (if c = d then [] # Split d cs
      else (case Split d cs of [] \<Rightarrow> [[c]] | f # fs \<Rightarrow> (c # f) # fs))"

fun Join :: "string list \<Rightarrow> string \<Rightarrow> string" where
  "Join [] sep = []"
| "Join [s] sep = s"
| "Join (s # t # ts) sep = s @ sep @ Join (t # ts) sep"

lemma Split_not_Nil [simp]: "Split d s \<noteq> []"
  by (induction s) (auto split: list.splits)

lemma Join_Cons: "ss \<noteq> [] \<Longrightarrow> Join (s # ss) sep = s @ sep @ Join ss sep"
  by (cases ss) simp_all

lemma Join_Split [simp]: "Join (Split d s) [d] = s"
proof (induction s)
  case Nil
  show ?case by simp
next
  case (Cons c s)
  obtain f fs where f: "Split d s = f # fs" by (cases "Split d s") auto
  with Cons have s: "Join (f # fs) [d] = s" by simp
  show ?case
  proof (cases fs)
    case Nil
    with s f show ?thesis by auto
  next
    case (Cons g gs)
    with s f show ?thesis by auto
  qed
qed

lemma Split_append: "d \<notin> set s \<Longrightarrow> Split d (s @ d # t) = s # Split d t"
  by (induction s) auto

lemma Split_single: "d \<notin> set s \<Longrightarrow> Split d s = [s]"
  by (induction s) auto

lemma Split_Join:
  "ss \<noteq> [] \<Longrightarrow> (\<And>s. s \<in> set ss \<Longrightarrow> d \<notin> set s) \<Longrightarrow> Split d (Join ss [d]) = ss"
proof (induction ss)
  case Nil
  then show ?case by simp
next
  case (Cons s ss)
  then show ?case
    by (cases ss) (auto simp: Split_single Split_append Join_Cons)
qed

section \<open>Go maps\<close>

text \<open>
  A Go map is an association list with distinct keys: \<open>map_of m k\<close> is \<^verbatim>\<open>m[k]\<close>,
  \<open>AList.update k v m\<close> is \<^verbatim>\<open>m[k] = v\<close>, \<open>AList.delete k m\<close> is \<^verbatim>\<open>delete(m, k)\<close> and \<open>length m\<close> is
  \<^verbatim>\<open>len(m)\<close>. The order of the list carries no meaning.
\<close>

type_synonym ('k, 'v) gomap = "('k \<times> 'v) list"

abbreviation gomap_ok :: "('k, 'v) gomap \<Rightarrow> bool" where
  "gomap_ok m \<equiv> distinct (map fst m)"

lemma gomap_ok_update [simp]: "gomap_ok m \<Longrightarrow> gomap_ok (AList.update k v m)"
  by (rule distinct_update)

lemma gomap_ok_delete [simp]: "gomap_ok m \<Longrightarrow> gomap_ok (AList.delete k m)"
  by (rule distinct_delete)

lemma card_dom_gomap: "gomap_ok m \<Longrightarrow> card (dom (map_of m)) = length m"
  by (metis dom_map_of_conv_image_fst distinct_card length_map list.set_map)

lemma length_update_new: "map_of m k = None \<Longrightarrow> length (AList.update k v m) = Suc (length m)"
  by (induction m) (auto split: if_splits)

lemma length_update_old: "map_of m k \<noteq> None \<Longrightarrow> length (AList.update k v m) = length m"
  by (induction m) (auto split: if_splits)

lemma length_delete_old:
  "gomap_ok m \<Longrightarrow> map_of m k \<noteq> None \<Longrightarrow> length m = Suc (length (AList.delete k m))"
proof (induction m)
  case Nil
  then show ?case by simp
next
  case (Cons p m)
  show ?case
  proof (cases "fst p = k")
    case True
    with Cons.prems(1) have "AList.delete k m = m"
      by (auto simp: AList.delete_eq filter_id_conv rev_image_eqI)
    with True show ?thesis by (cases p) (simp add: AList.delete_eq)
  next
    case False
    with Cons show ?thesis by (cases p) (simp add: AList.delete_eq)
  qed
qed

section \<open>Big-endian integers\<close>

text \<open>
  \<^verbatim>\<open>binary.BigEndian.PutUint16\<close>, \<^verbatim>\<open>PutUint32\<close> and \<^verbatim>\<open>PutUint64\<close> write the bytes of a word, most
  significant first; \<^verbatim>\<open>Uint16\<close>, \<^verbatim>\<open>Uint32\<close> and \<^verbatim>\<open>Uint64\<close> read them back.
\<close>

primrec put_be :: "nat \<Rightarrow> 'a::len word \<Rightarrow> u8 list" where
  "put_be 0 v = []"
| "put_be (Suc k) v = ucast (drop_bit (8 * k) v) # put_be k v"

definition get_be :: "u8 list \<Rightarrow> 'a::len word" where
  "get_be bs = foldl (\<lambda>acc b. push_bit 8 acc OR ucast b) 0 bs"

abbreviation PutUint16 :: "u16 \<Rightarrow> u8 list" where "PutUint16 \<equiv> put_be 2"
abbreviation PutUint32 :: "u32 \<Rightarrow> u8 list" where "PutUint32 \<equiv> put_be 4"
abbreviation PutUint64 :: "u64 \<Rightarrow> u8 list" where "PutUint64 \<equiv> put_be 8"

lemma length_put_be [simp]: "length (put_be k v) = k"
  by (induction k) simp_all

lemma get_be_put_be_acc:
  "foldl (\<lambda>acc b. push_bit 8 acc OR ucast b) (a :: 'a::len word) (put_be k v) =
     push_bit (8 * k) a OR take_bit (8 * k) v"
proof (induction k arbitrary: a)
  case 0
  show ?case by simp
next
  case (Suc k)
  have "push_bit (8 * k) (push_bit 8 a OR ucast (ucast (drop_bit (8 * k) v) :: u8)) OR take_bit (8 * k) v
      = push_bit (8 * Suc k) a OR take_bit (8 * Suc k) v"
    by (rule bit_word_eqI) (auto simp: bit_simps not_less le_diff_conv2 less_diff_conv2 add.commute)
  then show ?case by (simp add: Suc)
qed

lemma get_be_put_be: "LENGTH('a) \<le> 8 * k \<Longrightarrow> get_be (put_be k v) = (v :: 'a::len word)"
  by (simp add: get_be_def get_be_put_be_acc take_bit_word_eq_self)

lemma Uint16_PutUint16 [simp]: "get_be (PutUint16 v) = v"
  by (rule get_be_put_be) simp

lemma Uint32_PutUint32 [simp]: "get_be (PutUint32 v) = v"
  by (rule get_be_put_be) simp

lemma Uint64_PutUint64 [simp]: "get_be (PutUint64 v) = v"
  by (rule get_be_put_be) simp

section \<open>Bytes and strings\<close>

text \<open>The conversions \<^verbatim>\<open>[]byte(s)\<close> and \<^verbatim>\<open>string(b)\<close>.\<close>

definition bytes_of :: "string \<Rightarrow> u8 list" where
  "bytes_of s = map (\<lambda>c. word_of_nat (of_char c)) s"

definition string_of :: "u8 list \<Rightarrow> string" where
  "string_of b = map (\<lambda>w. char_of (unat w)) b"

lemma length_bytes_of [simp]: "length (bytes_of s) = length s"
  by (simp add: bytes_of_def)

lemma string_of_bytes_of [simp]: "string_of (bytes_of s) = s"
  by (simp add: string_of_def bytes_of_def comp_def unat_of_nat)

lemma bytes_of_string_of [simp]: "bytes_of (string_of b) = b"
proof -
  have "unat w mod 256 = unat w" for w :: u8
    using unsigned_less [of w, where ?'a = nat] by simp
  then show ?thesis
    by (simp add: string_of_def bytes_of_def comp_def map_idI)
qed

lemma bytes_of_inj [simp]: "bytes_of s = bytes_of t \<longleftrightarrow> s = t"
  by (metis string_of_bytes_of)

section \<open>Data refinement\<close>

text \<open>
  A component whose operations may fail (a panic, a loop that does not end) runs a sequence of
  operations and collects their outputs; so does its specification, which cannot fail. The locale
  \<open>data_refinement\<close> is the contract of an implementation that simulates its specification.
\<close>

primrec run_ops :: "('op \<Rightarrow> 'c \<Rightarrow> ('o \<times> 'c) option) \<Rightarrow> 'op list \<Rightarrow> 'c \<Rightarrow> ('o list \<times> 'c) option" where
  "run_ops step [] c = Some ([], c)"
| "run_ops step (x # xs) c =
     (case step x c of
        None \<Rightarrow> None
      | Some (out, c') \<Rightarrow> map_option (\<lambda>(outs, c''). (out # outs, c'')) (run_ops step xs c'))"

primrec run_spec :: "('op \<Rightarrow> 'a \<Rightarrow> 'o \<times> 'a) \<Rightarrow> 'op list \<Rightarrow> 'a \<Rightarrow> 'o list \<times> 'a" where
  "run_spec step [] a = ([], a)"
| "run_spec step (x # xs) a =
     (let (out, a') = step x a; (outs, a'') = run_spec step xs a' in (out # outs, a''))"

lemma run_spec_append:
  "run_spec step (xs @ ys) a =
     (fst (run_spec step xs a) @ fst (run_spec step ys (snd (run_spec step xs a))),
      snd (run_spec step ys (snd (run_spec step xs a))))"
  by (induction xs arbitrary: a) (simp_all add: case_prod_beta Let_def)

lemma run_spec_invariant:
  "(\<And>x a. P a \<Longrightarrow> P (snd (step x a))) \<Longrightarrow> P a \<Longrightarrow> P (snd (run_spec step xs a))"
proof (induction xs arbitrary: a)
  case (Cons x xs)
  from Cons.IH [OF Cons.prems(1)] Cons.prems show ?case by (simp add: case_prod_beta Let_def)
qed simp

locale data_refinement =
  fixes step :: "'op \<Rightarrow> 'c \<Rightarrow> ('o \<times> 'c) option"
    and spec_step :: "'op \<Rightarrow> 'a \<Rightarrow> 'o \<times> 'a"
    and holds :: "'c \<Rightarrow> 'a \<Rightarrow> bool"
  assumes simulates: "holds c a \<Longrightarrow>
    \<exists>c'. step x c = Some (fst (spec_step x a), c') \<and> holds c' (snd (spec_step x a))"
begin

lemma run_simulates:
  "holds c a \<Longrightarrow> \<exists>c'. run_ops step xs c = Some (fst (run_spec spec_step xs a), c') \<and>
     holds c' (snd (run_spec spec_step xs a))"
proof (induction xs arbitrary: c a)
  case (Cons x xs)
  from simulates [OF Cons.prems, of x] obtain c1
    where "step x c = Some (fst (spec_step x a), c1)" "holds c1 (snd (spec_step x a))" by blast
  moreover from Cons.IH [OF this(2)] obtain c2
    where "run_ops step xs c1 = Some (fst (run_spec spec_step xs (snd (spec_step x a))), c2)"
      "holds c2 (snd (run_spec spec_step xs (snd (spec_step x a))))" by blast
  ultimately show ?case by (auto simp: case_prod_beta Let_def)
qed simp

end

text \<open>The contract of an interleaving of goroutines: every step keeps an invariant of the shared state.\<close>

locale step_invariant =
  fixes step :: "'s \<Rightarrow> 's \<Rightarrow> bool"
    and inv :: "'s \<Rightarrow> bool"
  assumes step_inv: "step s s' \<Longrightarrow> inv s \<Longrightarrow> inv s'"
begin

lemma steps_inv: "step\<^sup>*\<^sup>* s s' \<Longrightarrow> inv s \<Longrightarrow> inv s'"
  by (induction rule: rtranclp_induct) (auto intro: step_inv)

end

end
