(* ===== verification/Net.thy ===== *)
theory Net
  imports Prelude
begin

text \<open>
  The part of Go's package \<^verbatim>\<open>net\<close> that the repository uses: IP addresses as byte slices, their
  4-byte and 16-byte forms, CIDR masks, network membership and the printed form. A nil slice is
  the empty list. The bit view of an address (\<open>ip_bits\<close>) ties masks to prefixes: two addresses
  agree under a mask of \<open>n\<close> ones exactly when their first \<open>n\<close> bits agree.
\<close>

section \<open>Addresses\<close>

type_synonym IP = "u8 list"

definition v4InV6Prefix :: "u8 list" where
  "v4InV6Prefix = replicate 10 0 @ [255, 255]"

definition To4 :: "IP \<Rightarrow> IP" where
  "To4 ip =
     (if length ip = 4 then ip
      else if length ip = 16 \<and> take 12 ip = v4InV6Prefix then drop 12 ip
      else [])"

definition To16 :: "IP \<Rightarrow> IP" where
  "To16 ip =
     (if length ip = 4 then v4InV6Prefix @ ip else if length ip = 16 then ip else [])"

lemma length_v4InV6Prefix [simp]: "length v4InV6Prefix = 12"
  by (simp add: v4InV6Prefix_def)

lemma To4_Nil [simp]: "To4 [] = []"
  by (simp add: To4_def)

lemma To4_of_4 [simp]: "length ip = 4 \<Longrightarrow> To4 ip = ip"
  by (simp add: To4_def)

lemma length_To4: "To4 ip = [] \<or> length (To4 ip) = 4"
  by (auto simp: To4_def)

lemma To4_eq_Nil_length: "To4 ip \<noteq> [] \<longleftrightarrow> length (To4 ip) = 4"
  using length_To4 [of ip] by auto

lemma To4_idem [simp]: "To4 (To4 ip) = To4 ip"
  using length_To4 [of ip] by auto

lemma To4_To16 [simp]: "length ip = 4 \<Longrightarrow> To4 (To16 ip) = ip"
  by (simp add: To16_def To4_def)

section \<open>Masks\<close>

text \<open>The byte of a mask with \<open>n\<close> leading ones left: \<^verbatim>\<open>^byte(0xff >> n)\<close>.\<close>

definition mask_byte :: "nat \<Rightarrow> u8" where
  "mask_byte n = (if 8 \<le> n then 255 else NOT (drop_bit n 255))"

primrec mask_bytes :: "nat \<Rightarrow> nat \<Rightarrow> u8 list" where
  "mask_bytes 0 n = []"
| "mask_bytes (Suc l) n = mask_byte n # mask_bytes l (n - 8)"

definition CIDRMask :: "int \<Rightarrow> int \<Rightarrow> u8 list" where
  "CIDRMask ones sz =
     (if (sz \<noteq> 32 \<and> sz \<noteq> 128) \<or> ones < 0 \<or> sz < ones then []
      else mask_bytes (nat (sz div 8)) (nat ones))"

definition Mask :: "IP \<Rightarrow> u8 list \<Rightarrow> IP" where
  "Mask ip m =
     (let m' = (if length m = 16 \<and> length ip = 4 \<and> take 12 m = replicate 12 255
                then drop 12 m else m);
          ip' = (if length m' = 4 \<and> length ip = 16 \<and> take 12 ip = v4InV6Prefix
                 then drop 12 ip else ip)
      in if length ip' \<noteq> length m' then [] else map2 (AND) ip' m')"

text \<open>\<^verbatim>\<open>IPMask.Size\<close>: the number of leading ones and the width, \<^verbatim>\<open>0, 0\<close> for a non-canonical mask.\<close>

fun byte_ones :: "nat \<Rightarrow> u8 \<Rightarrow> nat option" where
  "byte_ones 0 v = (if v = 0 then Some 0 else None)"
| "byte_ones (Suc k) v =
     (if v AND 128 \<noteq> 0 then map_option Suc (byte_ones k (push_bit 1 v))
      else if v = 0 then Some 0 else None)"

fun simpleMaskLength :: "u8 list \<Rightarrow> nat option" where
  "simpleMaskLength [] = Some 0"
| "simpleMaskLength (v # vs) =
     (if v = 255 then map_option ((+) 8) (simpleMaskLength vs)
      else (case byte_ones 8 v of
              None \<Rightarrow> None
            | Some n \<Rightarrow> (if list_all (\<lambda>w. w = 0) vs then Some n else None)))"

definition MaskSize :: "u8 list \<Rightarrow> nat \<times> nat" where
  "MaskSize m = (case simpleMaskLength m of None \<Rightarrow> (0, 0) | Some n \<Rightarrow> (n, 8 * length m))"

section \<open>Networks\<close>

record IPNet =
  n_IP :: IP
  n_Mask :: "u8 list"

definition networkNumberAndMask :: "IPNet \<Rightarrow> IP \<times> u8 list" where
  "networkNumberAndMask n =
     (let ip = (if To4 (n_IP n) = [] then n_IP n else To4 (n_IP n)); m = n_Mask n
      in if length ip \<noteq> 4 \<and> length ip \<noteq> 16 then ([], [])
         else if length m = 4 then (if length ip \<noteq> 4 then ([], []) else (ip, m))
         else if length m = 16 then (ip, if length ip = 4 then drop 12 m else m)
         else ([], []))"

definition Contains :: "IPNet \<Rightarrow> IP \<Rightarrow> bool" where
  "Contains n ip =
     (let (nn, m) = networkNumberAndMask n; ip = (if To4 ip = [] then ip else To4 ip)
      in length ip = length nn \<and> map2 (AND) nn m = map2 (AND) ip m)"

section \<open>Bits of an address\<close>

definition byte_bits :: "u8 \<Rightarrow> bool list" where
  "byte_bits w = map (\<lambda>i. bit w (7 - i)) [0..<8]"

definition ip_bits :: "u8 list \<Rightarrow> bool list" where
  "ip_bits ip = concat (map byte_bits ip)"

lemma length_byte_bits [simp]: "length (byte_bits w) = 8"
  by (simp add: byte_bits_def)

lemma nth_byte_bits: "i < 8 \<Longrightarrow> byte_bits w ! i = bit w (7 - i)"
  by (simp add: byte_bits_def)

lemma ip_bits_Nil [simp]: "ip_bits [] = []"
  by (simp add: ip_bits_def)

lemma ip_bits_Cons [go_net]: "ip_bits (w # ws) = byte_bits w @ ip_bits ws"
  by (simp add: ip_bits_def)

lemma length_ip_bits [simp]: "length (ip_bits ip) = 8 * length ip"
  by (induction ip) (simp_all add: go_net)

lemma nth_ip_bits:
  "n < 8 * length ip \<Longrightarrow> ip_bits ip ! n = bit (ip ! (n div 8)) (7 - n mod 8)"
proof (induction ip arbitrary: n)
  case Nil
  then show ?case by simp
next
  case (Cons w ws)
  show ?case
  proof (cases "n < 8")
    case True
    then show ?thesis by (simp add: go_net nth_append nth_byte_bits)
  next
    case False
    then have "n - 8 < 8 * length ws" and "n div 8 = Suc ((n - 8) div 8)"
      and "n mod 8 = (n - 8) mod 8"
      using Cons.prems by (simp_all add: le_div_geq le_mod_geq)
    with False Cons.IH [of "n - 8"] show ?thesis
      by (simp add: go_net nth_append)
  qed
qed

lemma byte_bits_inj: "byte_bits v = byte_bits w \<longleftrightarrow> v = w"
proof
  assume eq: "byte_bits v = byte_bits w"
  show "v = w"
  proof (rule bit_word_eqI)
    fix n assume "n < LENGTH(8)"
    then have "byte_bits v ! (7 - n) = bit v n" and "byte_bits w ! (7 - n) = bit w n"
      by (simp_all add: nth_byte_bits)
    with eq show "bit v n = bit w n" by simp
  qed
qed simp

lemma bit_255_iff: "bit (255 :: u8) m \<longleftrightarrow> m < 8"
  using bit_mask_iff [of 8 m, where ?'a = "8 word"] by (simp add: mask_eq_exp_minus_1)

lemma bit_mask_byte: "i < 8 \<Longrightarrow> bit (mask_byte n) (7 - i) \<longleftrightarrow> i < n"
  using bit_255_iff [of "7 - i"] bit_255_iff [of "n + (7 - i)"]
  by (auto simp: mask_byte_def bit_not_iff bit_drop_bit_eq)

lemma length_mask_bytes [simp]: "length (mask_bytes l n) = l"
  by (induction l arbitrary: n) simp_all

lemma take_byte_bits_and_mask:
  "v AND mask_byte n = w AND mask_byte n \<longleftrightarrow> take n (byte_bits v) = take n (byte_bits w)"
proof
  assume eq: "v AND mask_byte n = w AND mask_byte n"
  show "take n (byte_bits v) = take n (byte_bits w)"
  proof (rule nth_equalityI)
    fix i assume i: "i < length (take n (byte_bits v))"
    then have "i < n" "i < 8" by simp_all
    moreover from eq have "bit (v AND mask_byte n) (7 - i) = bit (w AND mask_byte n) (7 - i)"
      by simp
    ultimately show "take n (byte_bits v) ! i = take n (byte_bits w) ! i"
      by (simp add: bit_and_iff bit_mask_byte nth_byte_bits)
  qed simp
next
  assume eq: "take n (byte_bits v) = take n (byte_bits w)"
  show "v AND mask_byte n = w AND mask_byte n"
  proof (rule bit_word_eqI)
    fix m assume "m < LENGTH(8)"
    then have m: "7 - (7 - m) = m" "7 - m < 8" by simp_all
    have "bit v m = bit w m" if "7 - m < n"
    proof -
      from that m(2) have "take n (byte_bits v) ! (7 - m) = bit v (7 - (7 - m))"
        and "take n (byte_bits w) ! (7 - m) = bit w (7 - (7 - m))"
        by (simp_all add: nth_byte_bits)
      with eq m(1) show ?thesis by simp
    qed
    moreover have "bit (mask_byte n) m \<longleftrightarrow> 7 - m < n"
      using bit_mask_byte [OF m(2), of n] m(1) by simp
    ultimately show "bit (v AND mask_byte n) m = bit (w AND mask_byte n) m"
      by (auto simp: bit_and_iff)
  qed
qed

text \<open>The central fact: agreement under a mask of \<open>n\<close> ones is agreement on the first \<open>n\<close> bits.\<close>

lemma map2_mask_bytes_eq_iff:
  "length xs = l \<Longrightarrow> length ys = l \<Longrightarrow>
   map2 (AND) xs (mask_bytes l n) = map2 (AND) ys (mask_bytes l n) \<longleftrightarrow>
   take n (ip_bits xs) = take n (ip_bits ys)"
proof (induction l arbitrary: xs ys n)
  case 0
  then show ?case by simp
next
  case (Suc l)
  then obtain x xs' y ys' where xy: "xs = x # xs'" "ys = y # ys'"
      and len: "length xs' = l" "length ys' = l"
    by (metis length_Suc_conv)
  have "take n (ip_bits xs) = take n (ip_bits ys) \<longleftrightarrow>
     take n (byte_bits x) = take n (byte_bits y) \<and>
     take (n - 8) (ip_bits xs') = take (n - 8) (ip_bits ys')"
    by (simp add: xy go_net)
  with Suc.IH [OF len, of "n - 8"] show ?case
    by (simp add: xy take_byte_bits_and_mask)
qed

text \<open>\<^verbatim>\<open>IPMask.Size\<close> reads the number of ones a canonical mask was made with.\<close>

lemma byte_ones_mask_byte: "n < 8 \<Longrightarrow> byte_ones 8 (mask_byte n) = Some n \<and> mask_byte n \<noteq> 255"
proof -
  have "\<forall>n \<in> set [0..<8]. byte_ones 8 (mask_byte n) = Some n \<and> mask_byte n \<noteq> 255"
    by code_simp
  then show "n < 8 \<Longrightarrow> ?thesis" by simp
qed

lemma mask_bytes_0: "mask_bytes l 0 = replicate l 0"
  by (induction l) (simp_all add: mask_byte_def)

lemma simpleMaskLength_mask_bytes: "n \<le> 8 * l \<Longrightarrow> simpleMaskLength (mask_bytes l n) = Some n"
proof (induction l arbitrary: n)
  case 0
  then show ?case by simp
next
  case (Suc l)
  show ?case
  proof (cases "8 \<le> n")
    case True
    with Suc.IH [of "n - 8"] Suc.prems show ?thesis by (simp add: mask_byte_def)
  next
    case False
    then show ?thesis
      using byte_ones_mask_byte [of n] by (simp add: mask_bytes_0 list_all_iff)
  qed
qed

lemma MaskSize_mask_bytes: "n \<le> 8 * l \<Longrightarrow> MaskSize (mask_bytes l n) = (n, 8 * l)"
  by (simp add: MaskSize_def simpleMaskLength_mask_bytes)

section \<open>The printed form\<close>

text \<open>\<^verbatim>\<open>strconv.Itoa\<close> of a natural number, and hexadecimal digits without leading zeros.\<close>

fun Itoa :: "nat \<Rightarrow> string" where
  "Itoa n = (if n < 10 then [char_of (48 + n)] else Itoa (n div 10) @ [char_of (48 + n mod 10)])"

declare Itoa.simps [simp del]

definition hex_digit :: "nat \<Rightarrow> char" where
  "hex_digit n = (if n < 10 then char_of (48 + n) else char_of (87 + n))"

fun hex :: "nat \<Rightarrow> string" where
  "hex n = (if n < 16 then [hex_digit n] else hex (n div 16) @ [hex_digit (n mod 16)])"

declare hex.simps [simp del]

text \<open>\<^verbatim>\<open>encoding/hex.EncodeToString\<close>.\<close>

definition EncodeToString :: "u8 list \<Rightarrow> string" where
  "EncodeToString b = concat (map (\<lambda>w. [hex_digit (unat w div 16), hex_digit (unat w mod 16)]) b)"

fun groups16 :: "u8 list \<Rightarrow> nat list" where
  "groups16 (a # b # ws) = (256 * unat a + unat b) # groups16 ws"
| "groups16 _ = []"

text \<open>The first longest run of at least two zero groups, as a half-open interval.\<close>

fun longest_zero_run :: "nat \<Rightarrow> nat list \<Rightarrow> (nat \<times> nat) option \<Rightarrow> (nat \<times> nat) option" where
  "longest_zero_run i [] best = best"
| "longest_zero_run i (g # gs) best =
     (let l = length (takeWhile (\<lambda>x. x = 0) (g # gs));
          cur = (case best of None \<Rightarrow> 0 | Some (s, e) \<Rightarrow> e - s)
      in longest_zero_run (Suc i) gs (if 2 \<le> l \<and> cur < l then Some (i, i + l) else best))"

definition string6 :: "u8 list \<Rightarrow> string" where
  "string6 ip =
     (let gs = groups16 ip
      in case longest_zero_run 0 gs None of
           None \<Rightarrow> Join (map hex gs) '':''
         | Some (s, e) \<Rightarrow> Join (map hex (take s gs)) '':'' @ ''::'' @ Join (map hex (drop e gs)) '':'')"

text \<open>\<^verbatim>\<open>IP.String\<close>.\<close>

definition IP_String :: "IP \<Rightarrow> string" where
  "IP_String ip =
     (if ip = [] then ''<nil>''
      else if To4 ip \<noteq> [] then Join (map (\<lambda>w. Itoa (unat w)) (To4 ip)) ''.''
      else if length ip = 16 then string6 ip
      else ''?'' @ EncodeToString ip)"

text \<open>\<^verbatim>\<open>IPNet.String\<close> for a canonical mask.\<close>

definition IPNet_String :: "IPNet \<Rightarrow> string" where
  "IPNet_String n =
     (let (nn, m) = networkNumberAndMask n
      in if nn = [] \<or> m = [] then ''<nil>''
         else case simpleMaskLength m of
                None \<Rightarrow> IP_String nn @ ''/'' @ EncodeToString m
              | Some l \<Rightarrow> IP_String nn @ ''/'' @ Itoa l)"

end
