(* ===== verification/Dns.thy ===== *)
theory Dns
  imports Net
begin

text \<open>
  The data the components exchange. DNS messages and records are the structs of the library
  \<^verbatim>\<open>github.com/miekg/dns\<close>, with the fields the repository reads or writes; the library's functions
  are not part of the repository, so they are collected in the record \<open>dnslib\<close> and every
  definition that calls one takes the record as an argument. Documented facts about them are
  the predicates \<open>IsEdns0_law\<close>, \<open>SetReply_law\<close>, \<open>SetEdns0_law\<close>, \<open>Unpack_law\<close> and their kin, which
  theorems that depend on them name as hypotheses. Messages are values here: the deep copy
  \<^verbatim>\<open>Msg.Copy\<close> is the value itself.

  A resolver (interface \<^verbatim>\<open>Resolver\<close> in \<^verbatim>\<open>resolver.go\<close>) is its printed name and a function of the
  query, the client information and the state \<open>'w\<close> of everything behind it. It returns what the
  Go method returns, a message that may be nil and an error that may be nil, and the new state.
\<close>

section \<open>Constants of the DNS registries\<close>

abbreviation (input) TypeA :: u16 where "TypeA \<equiv> 1"
abbreviation (input) TypeNS :: u16 where "TypeNS \<equiv> 2"
abbreviation (input) TypeCNAME :: u16 where "TypeCNAME \<equiv> 5"
abbreviation (input) TypeSOA :: u16 where "TypeSOA \<equiv> 6"
abbreviation (input) TypePTR :: u16 where "TypePTR \<equiv> 12"
abbreviation (input) TypeHINFO :: u16 where "TypeHINFO \<equiv> 13"
abbreviation (input) TypeAAAA :: u16 where "TypeAAAA \<equiv> 28"
abbreviation (input) TypeOPT :: u16 where "TypeOPT \<equiv> 41"
abbreviation (input) TypeDS :: u16 where "TypeDS \<equiv> 43"
abbreviation (input) TypeRRSIG :: u16 where "TypeRRSIG \<equiv> 46"
abbreviation (input) TypeNSEC :: u16 where "TypeNSEC \<equiv> 47"
abbreviation (input) TypeDNSKEY :: u16 where "TypeDNSKEY \<equiv> 48"
abbreviation (input) TypeNSEC3 :: u16 where "TypeNSEC3 \<equiv> 50"
abbreviation (input) TypeANY :: u16 where "TypeANY \<equiv> 255"
abbreviation (input) ClassINET :: u16 where "ClassINET \<equiv> 1"

abbreviation (input) RcodeSuccess :: int where "RcodeSuccess \<equiv> 0"
abbreviation (input) RcodeFormatError :: int where "RcodeFormatError \<equiv> 1"
abbreviation (input) RcodeServerFailure :: int where "RcodeServerFailure \<equiv> 2"
abbreviation (input) RcodeNameError :: int where "RcodeNameError \<equiv> 3"
abbreviation (input) RcodeNotImplemented :: int where "RcodeNotImplemented \<equiv> 4"
abbreviation (input) RcodeRefused :: int where "RcodeRefused \<equiv> 5"

abbreviation (input) OpcodeQuery :: int where "OpcodeQuery \<equiv> 0"
abbreviation (input) OpcodeNotify :: int where "OpcodeNotify \<equiv> 4"

abbreviation (input) EDNS0SUBNET :: u16 where "EDNS0SUBNET \<equiv> 8"
abbreviation (input) EDNS0PADDING :: u16 where "EDNS0PADDING \<equiv> 12"
abbreviation (input) ExtendedErrorCodeBlocked :: u16 where "ExtendedErrorCodeBlocked \<equiv> 15"
abbreviation (input) ExtendedErrorCodeCensored :: u16 where "ExtendedErrorCodeCensored \<equiv> 16"
abbreviation (input) ExtendedErrorCodeFiltered :: u16 where "ExtendedErrorCodeFiltered \<equiv> 17"

section \<open>Records and messages\<close>

record Question =
  q_Name :: string
  q_Qtype :: u16
  q_Qclass :: u16

text \<open>The EDNS0 options whose Go type the code inspects; any other is its code and its data.\<close>

datatype EDNS0 =
    EDNS0_SUBNET (ecs_Family: u16) (ecs_SourceNetmask: u8) (ecs_SourceScope: u8) (ecs_Address: IP)
  | EDNS0_EDE (ede_InfoCode: u16) (ede_ExtraText: string)
  | EDNS0_LOCAL (local_Code: u16) (local_Data: "u8 list")
  | EDNS0_PADDING (pad_Padding: "u8 list")
  | EDNS0_OTHER (other_Code: u16) (other_Data: "u8 list")

record RR_Header =
  h_Name :: string
  h_Rrtype :: u16
  h_Class :: u16
  h_Ttl :: u32

text \<open>The record types whose Go type the code inspects, with the fields it reads.\<close>

datatype rdata =
    A (rd_A: IP)
  | AAAA (rd_AAAA: IP)
  | CNAME (rd_Target: string)
  | MX (rd_Mx: string)
  | NS (rd_Ns: string)
  | PTR (rd_Ptr: string)
  | SRV (rd_SrvTarget: string)
  | HTTPS (rd_HttpsTarget: string) (rd_HttpsValue: "(string \<times> string) list")
  | SVCB (rd_SvcbTarget: string) (rd_SvcbValue: "(string \<times> string) list")
  | TXT (rd_Txt: "string list")
  | SOA (rd_SoaNs: string)
  | DNSKEY (key_Flags: u16) (key_Algorithm: u8) (key_PublicKey: string)
  | DS (ds_KeyTag: u16) (ds_Algorithm: u8) (ds_DigestType: u8) (ds_Digest: string)
  | RRSIG (sig_TypeCovered: u16) (sig_Algorithm: u8) (sig_KeyTag: u16) (sig_SignerName: string)
      (sig_Inception: u32) (sig_Expiration: u32) (sig_Signature: string)
  | NSEC (nsec_NextDomain: string) (nsec_TypeBitMap: "u16 list")
  | NSEC3 (nsec3_Flags: u8) (nsec3_Iterations: u16) (nsec3_Salt: string) (nsec3_NextDomain: string)
      (nsec3_TypeBitMap: "u16 list")
  | OPT (opt_Option: "EDNS0 list")
  | OTHER (rd_Raw: "u8 list")

record RR =
  rr_Hdr :: RR_Header
  rr_Data :: rdata

record Msg =
  m_Id :: u16
  m_Response :: bool
  m_Opcode :: int
  m_Authoritative :: bool
  m_Truncated :: bool
  m_RecursionDesired :: bool
  m_RecursionAvailable :: bool
  m_AuthenticatedData :: bool
  m_CheckingDisabled :: bool
  m_Rcode :: int
  m_Question :: "Question list"
  m_Answer :: "RR list"
  m_Ns :: "RR list"
  m_Extra :: "RR list"

text \<open>\<^verbatim>\<open>new(dns.Msg)\<close>.\<close>

definition new_Msg :: Msg where
  "new_Msg = \<lparr>m_Id = 0, m_Response = False, m_Opcode = 0, m_Authoritative = False,
     m_Truncated = False, m_RecursionDesired = False, m_RecursionAvailable = False,
     m_AuthenticatedData = False, m_CheckingDisabled = False, m_Rcode = 0,
     m_Question = [], m_Answer = [], m_Ns = [], m_Extra = []\<rparr>"

abbreviation rr_Ttl :: "RR \<Rightarrow> u32" where "rr_Ttl r \<equiv> h_Ttl (rr_Hdr r)"
abbreviation rr_Rrtype :: "RR \<Rightarrow> u16" where "rr_Rrtype r \<equiv> h_Rrtype (rr_Hdr r)"
abbreviation rr_Name :: "RR \<Rightarrow> string" where "rr_Name r \<equiv> h_Name (rr_Hdr r)"
abbreviation rr_Class :: "RR \<Rightarrow> u16" where "rr_Class r \<equiv> h_Class (rr_Hdr r)"

text \<open>The type assertion \<^verbatim>\<open>rr.(*dns.OPT)\<close>, and the writes through \<^verbatim>\<open>rr.Header()\<close>.\<close>

definition is_opt :: "RR \<Rightarrow> bool" where
  "is_opt r \<longleftrightarrow> is_OPT (rr_Data r)"

definition set_Ttl :: "u32 \<Rightarrow> RR \<Rightarrow> RR" where
  "set_Ttl t r = r\<lparr>rr_Hdr := (rr_Hdr r)\<lparr>h_Ttl := t\<rparr>\<rparr>"

definition set_Name :: "string \<Rightarrow> RR \<Rightarrow> RR" where
  "set_Name n r = r\<lparr>rr_Hdr := (rr_Hdr r)\<lparr>h_Name := n\<rparr>\<rparr>"

lemma set_Ttl_simps [simp, dns_data]:
  "rr_Ttl (set_Ttl t r) = t" "rr_Rrtype (set_Ttl t r) = rr_Rrtype r"
  "rr_Name (set_Ttl t r) = rr_Name r" "rr_Class (set_Ttl t r) = rr_Class r"
  "rr_Data (set_Ttl t r) = rr_Data r" "is_opt (set_Ttl t r) = is_opt r"
  "set_Ttl t (set_Ttl u r) = set_Ttl t r" "set_Ttl (rr_Ttl r) r = r"
  by (simp_all add: set_Ttl_def is_opt_def)

lemma set_Name_simps [simp, dns_data]:
  "rr_Name (set_Name n r) = n" "rr_Rrtype (set_Name n r) = rr_Rrtype r"
  "rr_Ttl (set_Name n r) = rr_Ttl r" "rr_Class (set_Name n r) = rr_Class r"
  "rr_Data (set_Name n r) = rr_Data r" "is_opt (set_Name n r) = is_opt r"
  by (simp_all add: set_Name_def is_opt_def)

text \<open>All records of a message, in the order \<^verbatim>\<open>Answer\<close>, \<^verbatim>\<open>Ns\<close>, \<^verbatim>\<open>Extra\<close>, and those that are not OPT.\<close>

definition all_rrs :: "Msg \<Rightarrow> RR list" where
  "all_rrs m = m_Answer m @ m_Ns m @ m_Extra m"

definition data_rrs :: "Msg \<Rightarrow> RR list" where
  "data_rrs m = filter (\<lambda>r. \<not> is_opt r) (all_rrs m)"

section \<open>Clients, errors and resolvers\<close>

record ClientInfo =
  ci_SourceIP :: IP
  ci_DoHPath :: string
  ci_TLSServerName :: string
  ci_Listener :: string
  ci_Protocol :: string
  ci_ListenerAddr :: string

text \<open>
  The errors the modelled code makes itself; \<open>ErrOther\<close> stands for the errors of libraries and of
  the resolvers behind a component. \<open>Panic\<close> is a run-time panic of the component, an index out of
  range or a write to a nil map.
\<close>

datatype go_error =
    ErrNoRoute Question
  | ErrNoActiveResolvers
  | ErrEmptyQuestion Question
  | ErrWrongQuestion Question Question
  | ErrQueryTimeout string
  | ErrInFlightFull
  | ErrInvalidRule string
  | ErrOther string
  | Panic

type_synonym reply = "Msg option \<times> go_error option"

abbreviation panic :: reply where
  "panic \<equiv> (None, Some Panic)"

record 'w resolver =
  r_String :: string
  r_Resolve :: "Msg \<Rightarrow> ClientInfo \<Rightarrow> 'w \<Rightarrow> reply \<times> 'w"

section \<open>The DNS library\<close>

text \<open>
  Methods that write to their receiver return the receiver's new value. \<^verbatim>\<open>IsEdns0\<close> returns a pointer
  to a record of \<^verbatim>\<open>Extra\<close>: the model has its index, so that a write through the pointer is an
  update of \<open>m_Extra\<close> at that index.
\<close>

record dnslib =
  SetReply :: "Msg \<Rightarrow> Msg \<Rightarrow> Msg"
  SetRcode :: "Msg \<Rightarrow> Msg \<Rightarrow> int \<Rightarrow> Msg"
  SetQuestion :: "Msg \<Rightarrow> string \<Rightarrow> u16 \<Rightarrow> Msg"
  IsEdns0 :: "Msg \<Rightarrow> nat option"
  SetEdns0 :: "Msg \<Rightarrow> u16 \<Rightarrow> bool \<Rightarrow> Msg"
  OPT_Do :: "RR \<Rightarrow> bool"
  OPT_SetDo :: "RR \<Rightarrow> RR"
  OPT_UDPSize :: "RR \<Rightarrow> u16"
  OPT_SetUDPSize :: "RR \<Rightarrow> u16 \<Rightarrow> RR"
  Option_code :: "EDNS0 \<Rightarrow> u16"
  Msg_Len :: "Msg \<Rightarrow> nat"
  Pack :: "Msg \<Rightarrow> u8 list option"
  Unpack :: "u8 list \<Rightarrow> Msg option"
  Fqdn :: "string \<Rightarrow> string"
  ReverseAddr :: "string \<Rightarrow> string option"
  Class_String :: "u16 \<Rightarrow> string"
  Type_String :: "u16 \<Rightarrow> string"
  NewRR :: "string \<Rightarrow> RR option option"

text \<open>The OPT record \<^verbatim>\<open>IsEdns0\<close> points to, and the message after a write through that pointer.\<close>

definition edns0_of :: "dnslib \<Rightarrow> Msg \<Rightarrow> RR option" where
  "edns0_of L m = map_option (\<lambda>i. m_Extra m ! i) (IsEdns0 L m)"

definition edns0_put :: "dnslib \<Rightarrow> Msg \<Rightarrow> RR \<Rightarrow> Msg" where
  "edns0_put L m r =
     (case IsEdns0 L m of None \<Rightarrow> m | Some i \<Rightarrow> m\<lparr>m_Extra := (m_Extra m)[i := r]\<rparr>)"

definition edns0_options :: "dnslib \<Rightarrow> Msg \<Rightarrow> EDNS0 list" where
  "edns0_options L m = (case edns0_of L m of None \<Rightarrow> [] | Some r \<Rightarrow> opt_Option (rr_Data r))"

text \<open>
  Documented behaviour. \<^verbatim>\<open>IsEdns0\<close> finds an OPT record of the additional section, and finds one
  whenever there is one. \<^verbatim>\<open>SetReply\<close> and \<^verbatim>\<open>SetRcode\<close> make a reply to the request: same ID, same
  first question, the response bit and the response code. \<^verbatim>\<open>Unpack\<close> reads what \<^verbatim>\<open>Pack\<close> wrote.
\<close>

definition IsEdns0_law :: "dnslib \<Rightarrow> bool" where
  "IsEdns0_law L \<longleftrightarrow>
     (\<forall>m i. IsEdns0 L m = Some i \<longrightarrow> i < length (m_Extra m) \<and> is_opt (m_Extra m ! i)) \<and>
     (\<forall>m. IsEdns0 L m = None \<longrightarrow> (\<forall>r \<in> set (m_Extra m). \<not> is_opt r))"

definition SetReply_law :: "dnslib \<Rightarrow> bool" where
  "SetReply_law L \<longleftrightarrow>
     (\<forall>a q. m_Id (SetReply L a q) = m_Id q \<and> m_Response (SetReply L a q) \<and>
        m_Rcode (SetReply L a q) = RcodeSuccess \<and>
        (m_Question q \<noteq> [] \<longrightarrow> m_Question (SetReply L a q) = [hd (m_Question q)]) \<and>
        m_Answer (SetReply L a q) = m_Answer a \<and> m_Ns (SetReply L a q) = m_Ns a \<and>
        m_Extra (SetReply L a q) = m_Extra a)"

definition SetRcode_law :: "dnslib \<Rightarrow> bool" where
  "SetRcode_law L \<longleftrightarrow>
     (\<forall>a q rc. SetRcode L a q rc = (SetReply L a q)\<lparr>m_Rcode := rc\<rparr>)"

text \<open>\<^verbatim>\<open>SetEdns0\<close> appends an OPT record without options, which \<^verbatim>\<open>IsEdns0\<close> then finds.\<close>

definition SetEdns0_law :: "dnslib \<Rightarrow> bool" where
  "SetEdns0_law L \<longleftrightarrow>
     (\<forall>m sz d. \<exists>r. SetEdns0 L m sz d = m\<lparr>m_Extra := m_Extra m @ [r]\<rparr> \<and> is_opt r \<and> opt_Option (rr_Data r) = [] \<and>
        IsEdns0 L (SetEdns0 L m sz d) = Some (length (m_Extra m)))"

definition Unpack_law :: "dnslib \<Rightarrow> bool" where
  "Unpack_law L \<longleftrightarrow> (\<forall>m w. Pack L m = Some w \<longrightarrow> Unpack L w = Some m)"

lemma IsEdns0_law_SomeD:
  "IsEdns0_law L \<Longrightarrow> IsEdns0 L m = Some i \<Longrightarrow> i < length (m_Extra m) \<and> is_opt (m_Extra m ! i)"
  by (simp add: IsEdns0_law_def)

lemma IsEdns0_law_NoneD: "IsEdns0_law L \<Longrightarrow> IsEdns0 L m = None \<Longrightarrow> r \<in> set (m_Extra m) \<Longrightarrow> \<not> is_opt r"
  by (simp add: IsEdns0_law_def)

lemma Unpack_lawD: "Unpack_law L \<Longrightarrow> Pack L m = Some w \<Longrightarrow> Unpack L w = Some m"
  by (simp add: Unpack_law_def)

end
