(* ===== verification/Message.thy ===== *)
theory Message
  imports Dns
begin

text \<open>
  \<^verbatim>\<open>message.go\<close> and \<^verbatim>\<open>resolver.go\<close>: the helpers every component uses to read a query, to make the
  replies RouteDNS produces itself, to check that a response answers the question that was
  asked, and to decide whether a response counts as a success.
\<close>

section \<open>Reading a query\<close>

definition qName :: "Msg \<Rightarrow> string" where
  "qName q = (case m_Question q of [] \<Rightarrow> [] | question # _ \<Rightarrow> q_Name question)"

definition isReplayableOpcode :: "int \<Rightarrow> bool" where
  "isReplayableOpcode opcode \<longleftrightarrow> opcode = OpcodeQuery \<or> opcode = OpcodeNotify"

definition validateResponseQuestion :: "Msg \<Rightarrow> Msg \<Rightarrow> go_error option" where
  "validateResponseQuestion q a =
     (case m_Question q of
        [] \<Rightarrow> None
      | question # _ \<Rightarrow>
          (case m_Question a of
             [] \<Rightarrow> Some (ErrEmptyQuestion question)
           | answer # _ \<Rightarrow>
               (if \<not> EqualFold (q_Name answer) (q_Name question) \<or>
                   q_Qclass answer \<noteq> q_Qclass question \<or> q_Qtype answer \<noteq> q_Qtype question
                then Some (ErrWrongQuestion question answer) else None)))"

section \<open>Replies made by RouteDNS\<close>

definition responseWithCode :: "dnslib \<Rightarrow> Msg \<Rightarrow> int \<Rightarrow> Msg" where
  "responseWithCode L q rcode = (SetRcode L new_Msg q rcode)\<lparr>m_RecursionAvailable := True\<rparr>"

definition nxdomain :: "dnslib \<Rightarrow> Msg \<Rightarrow> Msg" where
  "nxdomain L q = responseWithCode L q RcodeNameError"

definition servfail :: "dnslib \<Rightarrow> Msg \<Rightarrow> Msg" where
  "servfail L q = responseWithCode L q RcodeServerFailure"

definition refused :: "dnslib \<Rightarrow> Msg \<Rightarrow> Msg" where
  "refused L q = responseWithCode L q RcodeRefused"

text \<open>\<^verbatim>\<open>ptr\<close> reads the question once per name, so it panics on a query without one only if there are names.\<close>

definition ptr :: "dnslib \<Rightarrow> Msg \<Rightarrow> string list \<Rightarrow> Msg option" where
  "ptr L q names =
     (let a = (SetReply L new_Msg q)\<lparr>m_RecursionAvailable := True\<rparr>
      in case m_Question q of
           [] \<Rightarrow> (if names = [] then Some (a\<lparr>m_Answer := []\<rparr>) else None)
         | question # _ \<Rightarrow>
             Some (a\<lparr>m_Answer := map (\<lambda>name.
               \<lparr>rr_Hdr = \<lparr>h_Name = q_Name question, h_Rrtype = TypePTR, h_Class = ClassINET, h_Ttl = 3600\<rparr>,
                rr_Data = PTR (Fqdn L name)\<rparr>) names\<rparr>))"

definition copyRRs :: "RR list \<Rightarrow> RR list" where
  "copyRRs rrs = rrs"

definition setUDPSize :: "dnslib \<Rightarrow> Msg \<Rightarrow> u16 \<Rightarrow> Msg" where
  "setUDPSize L q size' =
     (if size' = 0 then q
      else case edns0_of L q of
             Some edns0 \<Rightarrow> edns0_put L q (OPT_SetUDPSize L edns0 size')
           | None \<Rightarrow> SetEdns0 L q size' False)"

section \<open>Success and failure of a response\<close>

definition isSuccessResponse :: "dnslib \<Rightarrow> Msg option \<Rightarrow> bool \<Rightarrow> bool \<Rightarrow> bool" where
  "isSuccessResponse L msg servfailError emptyError =
     (case msg of
        None \<Rightarrow> True
      | Some a \<Rightarrow>
          (if (m_Rcode a = RcodeServerFailure \<and> servfailError) \<or>
              m_Rcode a = RcodeRefused \<or> m_Rcode a = RcodeNotImplemented then False
           else if \<not> emptyError then True
           else case (m_Answer a, m_Question a) of
               (rr # rrs, question # _) \<Rightarrow>
                 (if \<exists>r \<in> set (rr # rrs). rr_Rrtype r = q_Qtype question then True
                  else if q_Qtype question = TypeANY then \<not> (rrs = [] \<and> rr_Rrtype rr = TypeHINFO)
                  else False)
             | _ \<Rightarrow>
                 (case edns0_of L a of
                    None \<Rightarrow> False
                  | Some edns0 \<Rightarrow>
                      (\<exists>opt \<in> set (opt_Option (rr_Data edns0)).
                         is_EDNS0_EDE opt \<and>
                         ede_InfoCode opt \<in> {ExtendedErrorCodeBlocked, ExtendedErrorCodeCensored,
                                             ExtendedErrorCodeFiltered}))))"

lemma isSuccessResponse_nil [simp]: "isSuccessResponse L None sf ee"
  by (simp add: isSuccessResponse_def)

lemma isSuccessResponse_not_empty:
  "isSuccessResponse L (Some a) sf False \<longleftrightarrow>
     \<not> (m_Rcode a = RcodeServerFailure \<and> sf) \<and> m_Rcode a \<noteq> RcodeRefused \<and>
     m_Rcode a \<noteq> RcodeNotImplemented"
  by (auto simp: isSuccessResponse_def)

text \<open>A reply counts as good for a group when there is no error and the response is a success.\<close>

definition good_reply :: "dnslib \<Rightarrow> bool \<Rightarrow> bool \<Rightarrow> reply \<Rightarrow> bool" where
  "good_reply L sf ee ae \<longleftrightarrow> snd ae = None \<and> isSuccessResponse L (fst ae) sf ee"

lemma good_reply_nil [simp]: "good_reply L sf ee (None, None)"
  by (simp add: good_reply_def)

section \<open>What the replies look like\<close>

lemma responseWithCode_reply:
  assumes "SetReply_law L" "SetRcode_law L"
  shows "m_Id (responseWithCode L q rc) = m_Id q" "m_Rcode (responseWithCode L q rc) = rc"
    "m_Response (responseWithCode L q rc)" "m_RecursionAvailable (responseWithCode L q rc)"
    "m_Answer (responseWithCode L q rc) = []" "m_Ns (responseWithCode L q rc) = []"
    "m_Extra (responseWithCode L q rc) = []"
    "m_Question q \<noteq> [] \<Longrightarrow> m_Question (responseWithCode L q rc) = [hd (m_Question q)]"
  using assms
  by (simp_all add: responseWithCode_def SetReply_law_def SetRcode_law_def new_Msg_def)

text \<open>
  A response that passes the check answers the first question of the query: same name up to
  case, same type, same class.
\<close>

lemma validateResponseQuestion_None_iff:
  "validateResponseQuestion q a = None \<longleftrightarrow>
     m_Question q = [] \<or>
     (m_Question a \<noteq> [] \<and>
      ToLower (q_Name (hd (m_Question a))) = ToLower (q_Name (hd (m_Question q))) \<and>
      q_Qtype (hd (m_Question a)) = q_Qtype (hd (m_Question q)) \<and>
      q_Qclass (hd (m_Question a)) = q_Qclass (hd (m_Question q)))"
  by (auto simp: validateResponseQuestion_def EqualFold_def split: list.splits)

lemma validate_own_reply:
  "SetReply_law L \<Longrightarrow> SetRcode_law L \<Longrightarrow> validateResponseQuestion q (responseWithCode L q rc) = None"
  by (cases "m_Question q = []")
     (simp_all add: validateResponseQuestion_None_iff responseWithCode_reply)

end
