(* ===== verification/RefLib.thy ===== *)
theory RefLib
  imports Message
begin

text \<open>
  A concrete instance of the DNS library record, used where a theorem about the code is applied
  to a concrete input: it follows the documentation of the library for the methods the code calls
  and packs one chosen message. The laws of the library hold for it.
\<close>

definition ref_SetReply :: "Msg \<Rightarrow> Msg \<Rightarrow> Msg" where
  "ref_SetReply a q =
     a\<lparr>m_Id := m_Id q, m_Response := True, m_Opcode := m_Opcode q,
       m_RecursionDesired := (if m_Opcode q = OpcodeQuery then m_RecursionDesired q else m_RecursionDesired a),
       m_CheckingDisabled := (if m_Opcode q = OpcodeQuery then m_CheckingDisabled q else m_CheckingDisabled a),
       m_Rcode := RcodeSuccess,
       m_Question := (case m_Question q of [] \<Rightarrow> m_Question a | x # _ \<Rightarrow> [x])\<rparr>"

fun ref_last_opt :: "nat \<Rightarrow> RR list \<Rightarrow> nat option" where
  "ref_last_opt i [] = None"
| "ref_last_opt i (r # rs) =
     (case ref_last_opt (Suc i) rs of Some j \<Rightarrow> Some j | None \<Rightarrow> if is_opt r then Some i else None)"

fun ref_code :: "EDNS0 \<Rightarrow> u16" where
  "ref_code (EDNS0_SUBNET _ _ _ _) = 8"
| "ref_code (EDNS0_EDE _ _) = 15"
| "ref_code (EDNS0_LOCAL c _) = c"
| "ref_code (EDNS0_PADDING _) = 12"
| "ref_code (EDNS0_OTHER c _) = c"

definition ref_opt :: "u16 \<Rightarrow> RR" where
  "ref_opt sz = \<lparr>rr_Hdr = \<lparr>h_Name = ''.'', h_Rrtype = TypeOPT, h_Class = sz, h_Ttl = 0\<rparr>, rr_Data = OPT []\<rparr>"

definition ref_set_do :: "RR \<Rightarrow> RR" where
  "ref_set_do r = r\<lparr>rr_Hdr := (rr_Hdr r)\<lparr>h_Ttl := or (h_Ttl (rr_Hdr r)) 0x8000\<rparr>\<rparr>"

definition ref_lib_packing :: "Msg \<Rightarrow> u8 list \<Rightarrow> dnslib" where
  "ref_lib_packing m0 w0 =
     \<lparr>SetReply = ref_SetReply,
      SetRcode = (\<lambda>a q rc. (ref_SetReply a q)\<lparr>m_Rcode := rc\<rparr>),
      SetQuestion = (\<lambda>m z t. m\<lparr>m_RecursionDesired := True,
                                m_Question := [\<lparr>q_Name = z, q_Qtype = t, q_Qclass = ClassINET\<rparr>]\<rparr>),
      IsEdns0 = (\<lambda>m. ref_last_opt 0 (m_Extra m)),
      SetEdns0 = (\<lambda>m sz d. m\<lparr>m_Extra := m_Extra m @ [if d then ref_set_do (ref_opt sz) else ref_opt sz]\<rparr>),
      OPT_Do = (\<lambda>r. and (h_Ttl (rr_Hdr r)) 0x8000 \<noteq> 0),
      OPT_SetDo = ref_set_do,
      OPT_UDPSize = (\<lambda>r. h_Class (rr_Hdr r)),
      OPT_SetUDPSize = (\<lambda>r sz. r\<lparr>rr_Hdr := (rr_Hdr r)\<lparr>h_Class := sz\<rparr>\<rparr>),
      Option_code = ref_code,
      Msg_Len = (\<lambda>m. if m = m0 then length w0 else 12),
      Pack = (\<lambda>m. if m = m0 then Some w0 else None),
      Unpack = (\<lambda>w. if w = w0 then Some m0 else None),
      Fqdn = (\<lambda>s. if HasSuffix s ''.'' then s else s @ ''.''),
      ReverseAddr = (\<lambda>s. if s = ''192.0.2.1'' then Some ''1.2.0.192.in-addr.arpa.'' else None),
      Class_String = (\<lambda>c. if c = 1 then ''IN'' else []),
      Type_String = (\<lambda>t. if t = 1 then ''A'' else if t = 28 then ''AAAA'' else []),
      NewRR = (\<lambda>s. None)\<rparr>"

definition ref_lib :: dnslib where
  "ref_lib = ref_lib_packing new_Msg (replicate 12 0)"

lemma ref_lib_packing_simps [simp]:
  "SetReply (ref_lib_packing m0 w0) = ref_SetReply"
  "SetRcode (ref_lib_packing m0 w0) a q rc = (ref_SetReply a q)\<lparr>m_Rcode := rc\<rparr>"
  "IsEdns0 (ref_lib_packing m0 w0) m = ref_last_opt 0 (m_Extra m)"
  "Option_code (ref_lib_packing m0 w0) = ref_code"
  "OPT_Do (ref_lib_packing m0 w0) r = (and (h_Ttl (rr_Hdr r)) 0x8000 \<noteq> 0)"
  "OPT_UDPSize (ref_lib_packing m0 w0) r = h_Class (rr_Hdr r)"
  "Pack (ref_lib_packing m0 w0) m = (if m = m0 then Some w0 else None)"
  "Unpack (ref_lib_packing m0 w0) w = (if w = w0 then Some m0 else None)"
  "Fqdn (ref_lib_packing m0 w0) s = (if HasSuffix s ''.'' then s else s @ ''.'')"
  by (simp_all add: ref_lib_packing_def)

lemma ref_last_opt_Some:
  "ref_last_opt i rs = Some j \<Longrightarrow> i \<le> j \<and> j - i < length rs \<and> is_opt (rs ! (j - i))"
proof (induction i rs rule: ref_last_opt.induct)
  case (2 i r rs)
  show ?case
  proof (cases "ref_last_opt (Suc i) rs")
    case (Some k)
    with 2 have "Suc i \<le> j \<and> j - Suc i < length rs \<and> is_opt (rs ! (j - Suc i))" by simp
    then show ?thesis by (auto simp: nth_Cons' Suc_diff_le less_Suc_eq_le)
  qed (use 2 in \<open>auto split: if_splits\<close>)
qed simp

lemma ref_last_opt_None: "ref_last_opt i rs = None \<Longrightarrow> r \<in> set rs \<Longrightarrow> \<not> is_opt r"
  by (induction i rs rule: ref_last_opt.induct) (auto split: option.splits if_splits)

lemma ref_last_opt_snoc: "is_opt r \<Longrightarrow> ref_last_opt i (rs @ [r]) = Some (i + length rs)"
  by (induction i rs rule: ref_last_opt.induct) auto

lemma ref_opt_simps [simp]: "is_opt (ref_opt sz)" "is_opt (ref_set_do r) = is_opt r" "rr_Data (ref_opt sz) = OPT []"
  "rr_Data (ref_set_do r) = rr_Data r"
  by (simp_all add: ref_opt_def ref_set_do_def is_opt_def)

lemma ref_lib_SetEdns0_law [simp]: "SetEdns0_law (ref_lib_packing m0 w0)" "SetEdns0_law ref_lib"
proof -
  show law: "SetEdns0_law (ref_lib_packing m0 w0)" for m0 w0
    unfolding SetEdns0_law_def
  proof (intro allI)
    fix m :: Msg and sz d
    let ?r = "if d then ref_set_do (ref_opt sz) else ref_opt sz"
    show "\<exists>r. SetEdns0 (ref_lib_packing m0 w0) m sz d = m\<lparr>m_Extra := m_Extra m @ [r]\<rparr> \<and> is_opt r \<and> opt_Option (rr_Data r) = [] \<and>
        IsEdns0 (ref_lib_packing m0 w0) (SetEdns0 (ref_lib_packing m0 w0) m sz d) = Some (length (m_Extra m))"
      by (intro exI [of _ ?r]) (simp add: ref_lib_packing_def ref_last_opt_snoc)
  qed
  show "SetEdns0_law ref_lib" unfolding ref_lib_def by (rule law)
qed

lemma ref_lib_packing_laws [simp]:
  "IsEdns0_law (ref_lib_packing m0 w0)" "SetReply_law (ref_lib_packing m0 w0)"
  "SetRcode_law (ref_lib_packing m0 w0)" "Unpack_law (ref_lib_packing m0 w0)"
  using ref_last_opt_Some [of 0] ref_last_opt_None [of 0]
  by (auto simp: IsEdns0_law_def SetReply_law_def SetRcode_law_def Unpack_law_def ref_SetReply_def
        split: list.splits)

lemma ref_lib_laws [simp]:
  "IsEdns0_law ref_lib" "SetReply_law ref_lib" "SetRcode_law ref_lib" "Unpack_law ref_lib"
  by (simp_all add: ref_lib_def)

text \<open>Small messages and resolvers for concrete inputs.\<close>

definition ref_query :: "string \<Rightarrow> u16 \<Rightarrow> Msg" where
  "ref_query name t =
     new_Msg\<lparr>m_Id := 7, m_RecursionDesired := True,
             m_Question := [\<lparr>q_Name = name, q_Qtype = t, q_Qclass = ClassINET\<rparr>]\<rparr>"

definition ref_client :: ClientInfo where
  "ref_client = \<lparr>ci_SourceIP = [192, 0, 2, 1], ci_DoHPath = [], ci_TLSServerName = [],
     ci_Listener = ''local'', ci_Protocol = ''udp'', ci_ListenerAddr = []\<rparr>"

definition ref_answering :: "string \<Rightarrow> unit resolver" where
  "ref_answering name =
     \<lparr>r_String = name, r_Resolve = (\<lambda>q ci w. ((Some (ref_SetReply new_Msg q), None), w))\<rparr>"

definition ref_failing :: "string \<Rightarrow> unit resolver" where
  "ref_failing name = \<lparr>r_String = name, r_Resolve = (\<lambda>q ci w. ((None, Some (ErrOther name)), w))\<rparr>"

lemma ref_resolvers [simp]:
  "r_String (ref_answering name) = name" "r_String (ref_failing name) = name"
  "r_Resolve (ref_answering name) q ci w = ((Some (ref_SetReply new_Msg q), None), w)"
  "r_Resolve (ref_failing name) q ci w = ((None, Some (ErrOther name)), w)"
  by (simp_all add: ref_answering_def ref_failing_def)

definition ref_rr :: "string \<Rightarrow> u16 \<Rightarrow> u32 \<Rightarrow> rdata \<Rightarrow> RR" where
  "ref_rr name t ttl d = \<lparr>rr_Hdr = \<lparr>h_Name = name, h_Rrtype = t, h_Class = ClassINET, h_Ttl = ttl\<rparr>, rr_Data = d\<rparr>"

definition ref_reply :: "Msg \<Rightarrow> RR list \<Rightarrow> Msg" where
  "ref_reply q rrs = (ref_SetReply new_Msg q)\<lparr>m_Answer := rrs\<rparr>"

definition ref_serving :: "RR list \<Rightarrow> unit resolver" where
  "ref_serving rrs = \<lparr>r_String = ''serving'', r_Resolve = (\<lambda>q ci w. ((Some (ref_reply q rrs), None), w))\<rparr>"

lemma ref_serving_simps [simp]:
  "r_String (ref_serving rrs) = ''serving''"
  "r_Resolve (ref_serving rrs) q ci w = ((Some (ref_reply q rrs), None), w)"
  by (simp_all add: ref_serving_def)

lemma ref_replies [simp]:
  "good_reply L sf False (Some (ref_SetReply new_Msg q), None)"
  "\<not> good_reply L sf ee (a, Some e)"
  by (simp_all add: good_reply_def isSuccessResponse_not_empty ref_SetReply_def)

end
