(* ===== verification/ResolverGroups.thy ===== *)
theory ResolverGroups
  imports RefLib
begin

text \<open>
  The resolver groups: \<^verbatim>\<open>roundrobin.go\<close>, \<^verbatim>\<open>failrotate.go\<close>, \<^verbatim>\<open>failback.go\<close>, \<^verbatim>\<open>random.go\<close> and
  \<^verbatim>\<open>fastest.go\<close>. The groups that retry share one contract, the locale \<open>failover_group\<close>: a query is
  offered to untried resolvers until one gives a good reply or none is left. Each of the three
  retry loops is an interpretation of it, and the guarantee that a group with one working
  resolver answers is proved once, in the locale.
\<close>

section \<open>Metrics\<close>

record routerMetrics =
  mt_route :: "string \<Rightarrow> nat"
  mt_failure :: "string \<Rightarrow> nat"
  mt_available :: int

record failRouterMetrics = routerMetrics +
  mt_failover :: nat

definition newRouterMetrics :: "int \<Rightarrow> routerMetrics" where
  "newRouterMetrics available =
     \<lparr>mt_route = (\<lambda>_. 0), mt_failure = (\<lambda>_. 0), mt_available = available\<rparr>"

definition newFailRouterMetrics :: "int \<Rightarrow> failRouterMetrics" where
  "newFailRouterMetrics available =
     \<lparr>mt_route = (\<lambda>_. 0), mt_failure = (\<lambda>_. 0), mt_available = available, mt_failover = 0\<rparr>"

definition count_route :: "string \<Rightarrow> ('a routerMetrics_scheme) \<Rightarrow> ('a routerMetrics_scheme)" where
  "count_route name m = m\<lparr>mt_route := (mt_route m)(name := Suc (mt_route m name))\<rparr>"

definition count_failure :: "string \<Rightarrow> ('a routerMetrics_scheme) \<Rightarrow> ('a routerMetrics_scheme)" where
  "count_failure name m = m\<lparr>mt_failure := (mt_failure m)(name := Suc (mt_failure m name))\<rparr>"

section \<open>The contract of a retrying group\<close>

text \<open>
  \<open>todo s\<close> are the resolvers the current query can still be offered to, \<open>pick s\<close> the next one,
  \<open>ask\<close> queries a resolver, \<open>failed s\<close> is the state after a bad reply from the picked resolver and
  \<open>outcome s w ae\<close> is the reply of the retry loop when \<open>ae\<close> was the last reply seen.
\<close>

locale failover_group =
  fixes inv :: "'s \<Rightarrow> bool"
    and todo :: "'s \<Rightarrow> 'i set"
    and pick :: "'s \<Rightarrow> 'i"
    and ask :: "'i \<Rightarrow> 'w \<Rightarrow> reply \<times> 'w"
    and good :: "reply \<Rightarrow> bool"
    and failed :: "'s \<Rightarrow> 's"
    and outcome :: "'s \<Rightarrow> 'w \<Rightarrow> reply \<Rightarrow> reply"
    and final :: "reply \<Rightarrow> reply"
  assumes finite_todo: "inv s \<Longrightarrow> finite (todo s)"
    and pick_todo: "inv s \<Longrightarrow> todo s \<noteq> {} \<Longrightarrow> pick s \<in> todo s"
    and inv_failed: "inv s \<Longrightarrow> todo s \<noteq> {} \<Longrightarrow> inv (failed s)"
    and todo_failed: "inv s \<Longrightarrow> todo s \<noteq> {} \<Longrightarrow> todo (failed s) = todo s - {pick s}"
    and outcome_done: "inv s \<Longrightarrow> todo s = {} \<Longrightarrow> outcome s w ae = final ae"
    and outcome_good: "inv s \<Longrightarrow> todo s \<noteq> {} \<Longrightarrow> ask (pick s) w = (ae', w') \<Longrightarrow> good ae' \<Longrightarrow>
                       outcome s w ae = ae'"
    and outcome_bad: "inv s \<Longrightarrow> todo s \<noteq> {} \<Longrightarrow> ask (pick s) w = (ae', w') \<Longrightarrow> \<not> good ae' \<Longrightarrow>
                      outcome s w ae = outcome (failed s) w' ae'"
begin

lemma card_failed:
  assumes "inv s" "todo s \<noteq> {}"
  shows "card (todo (failed s)) < card (todo s)"
  unfolding todo_failed [OF assms]
  by (rule card_Diff1_less [OF finite_todo [OF assms(1)] pick_todo [OF assms]])

text \<open>A group with a resolver that always answers well answers well.\<close>

lemma some_good_reply:
  assumes "inv s" "i \<in> todo s" "\<And>w. good (fst (ask i w))"
  shows "good (outcome s w ae)"
  using assms(1,2)
proof (induction "card (todo s)" arbitrary: s w ae rule: less_induct)
  case less
  then have ne: "todo s \<noteq> {}" by auto
  obtain ae' w' where run: "ask (pick s) w = (ae', w')" by fastforce
  show ?case
  proof (cases "good ae'")
    case True
    with outcome_good [OF less.prems(1) ne run] show ?thesis by simp
  next
    case False
    with run assms(3) have "pick s \<noteq> i" by (metis fst_conv)
    with less.prems(2) todo_failed [OF less.prems(1) ne] have "i \<in> todo (failed s)" by simp
    then have "good (outcome (failed s) w' ae')"
      using less.hyps card_failed [OF less.prems(1) ne] inv_failed [OF less.prems(1) ne] by blast
    with outcome_bad [OF less.prems(1) ne run False] show ?thesis by simp
  qed
qed

text \<open>When every resolver of the group fails, the reply is the bad reply of the last one asked.\<close>

lemma all_bad_reply:
  assumes "inv s" "todo s \<noteq> {}" "\<And>i w. i \<in> todo s \<Longrightarrow> \<not> good (fst (ask i w))"
  shows "\<exists>i w'. i \<in> todo s \<and> outcome s w ae = final (fst (ask i w'))"
  using assms
proof (induction "card (todo s)" arbitrary: s w ae rule: less_induct)
  case less
  obtain ae' w' where run: "ask (pick s) w = (ae', w')" by fastforce
  have p: "pick s \<in> todo s" by (rule pick_todo [OF less.prems(1,2)])
  with less.prems(3) run have bad: "\<not> good ae'" by (metis fst_conv)
  note step = outcome_bad [OF less.prems(1,2) run bad]
  have sub: "todo (failed s) = todo s - {pick s}" by (rule todo_failed [OF less.prems(1,2)])
  show ?case
  proof (cases "todo (failed s) = {}")
    case True
    then have "outcome (failed s) w' ae' = final ae'"
      by (intro outcome_done inv_failed less.prems(1,2))
    with step run p show ?thesis by (metis fst_conv)
  next
    case False
    then have "\<exists>i v. i \<in> todo (failed s) \<and> outcome (failed s) w' ae' = final (fst (ask i v))"
      using less.hyps card_failed [OF less.prems(1,2)] inv_failed [OF less.prems(1,2)]
        less.prems(3) sub by blast
    with step sub show ?thesis by auto
  qed
qed

end

section \<open>RoundRobin\<close>

record 'w RoundRobin =
  rb_resolvers :: "'w resolver list"
  rb_current :: nat
  rb_metrics :: routerMetrics

definition NewRoundRobin :: "'w resolver list \<Rightarrow> 'w RoundRobin" where
  "NewRoundRobin resolvers =
     \<lparr>rb_resolvers = resolvers, rb_current = 0,
      rb_metrics = newRouterMetrics (int (length resolvers))\<rparr>"

definition RoundRobin_Resolve ::
  "'w RoundRobin \<Rightarrow> Msg \<Rightarrow> ClientInfo \<Rightarrow> 'w \<Rightarrow> reply \<times> 'w RoundRobin \<times> 'w" where
  "RoundRobin_Resolve r q ci w =
     (if length (rb_resolvers r) \<le> rb_current r then (panic, r, w)
      else
        let resolver = rb_resolvers r ! rb_current r;
            r1 = r\<lparr>rb_current := (rb_current r + 1) mod length (rb_resolvers r),
                   rb_metrics := count_route (r_String resolver) (rb_metrics r)\<rparr>;
            ((msg, err), w') = r_Resolve resolver q ci w
        in if err \<noteq> None
           then ((msg, err), r1\<lparr>rb_metrics := count_failure (r_String resolver) (rb_metrics r1)\<rparr>, w')
           else ((msg, err), r1, w'))"

fun RoundRobin_run ::
  "'w RoundRobin \<Rightarrow> (Msg \<times> ClientInfo) list \<Rightarrow> 'w \<Rightarrow> 'w RoundRobin \<times> 'w" where
  "RoundRobin_run r [] w = (r, w)"
| "RoundRobin_run r ((q, ci) # qs) w =
     (case RoundRobin_Resolve r q ci w of (_, r', w') \<Rightarrow> RoundRobin_run r' qs w')"

section \<open>FailRotate\<close>

record 'w FailRotate =
  fr_resolvers :: "'w resolver list"
  fr_active :: nat
  fr_metrics :: failRouterMetrics
  fr_ServfailError :: bool
  fr_EmptyError :: bool

definition NewFailRotate :: "bool \<Rightarrow> bool \<Rightarrow> 'w resolver list \<Rightarrow> 'w FailRotate" where
  "NewFailRotate sf ee resolvers =
     \<lparr>fr_resolvers = resolvers, fr_active = 0,
      fr_metrics = newFailRouterMetrics (int (length resolvers)),
      fr_ServfailError = sf, fr_EmptyError = ee\<rparr>"

definition FailRotate_errorFrom :: "'w FailRotate \<Rightarrow> nat \<Rightarrow> 'w FailRotate" where
  "FailRotate_errorFrom r i =
     (if i \<noteq> fr_active r then r
      else r\<lparr>fr_metrics := (fr_metrics r)\<lparr>mt_failover := Suc (mt_failover (fr_metrics r))\<rparr>,
             fr_active := (fr_active r + 1) mod length (fr_resolvers r)\<rparr>)"

text \<open>The loop of \<^verbatim>\<open>Resolve\<close> with \<open>k\<close> iterations left; \<open>ae\<close> holds the variables \<^verbatim>\<open>a\<close> and \<^verbatim>\<open>err\<close>.\<close>

primrec FailRotate_loop ::
  "dnslib \<Rightarrow> Msg \<Rightarrow> ClientInfo \<Rightarrow> nat \<Rightarrow> 'w FailRotate \<Rightarrow> 'w \<Rightarrow> reply \<Rightarrow>
   reply \<times> 'w FailRotate \<times> 'w" where
  "FailRotate_loop L q ci 0 r w ae = (ae, r, w)"
| "FailRotate_loop L q ci (Suc k) r w ae =
     (if length (fr_resolvers r) \<le> fr_active r then (panic, r, w)
      else
        let active = fr_active r; resolver = fr_resolvers r ! active;
            r1 = r\<lparr>fr_metrics := count_route (r_String resolver) (fr_metrics r)\<rparr>;
            (ae', w') = r_Resolve resolver q ci w
        in if good_reply L (fr_ServfailError r) (fr_EmptyError r) ae' then (ae', r1, w')
           else FailRotate_loop L q ci k
                  (FailRotate_errorFrom
                    (r1\<lparr>fr_metrics := count_failure (r_String resolver) (fr_metrics r1)\<rparr>) active)
                  w' ae')"

definition FailRotate_Resolve ::
  "dnslib \<Rightarrow> 'w FailRotate \<Rightarrow> Msg \<Rightarrow> ClientInfo \<Rightarrow> 'w \<Rightarrow> reply \<times> 'w FailRotate \<times> 'w" where
  "FailRotate_Resolve L r q ci w =
     FailRotate_loop L q ci (length (fr_resolvers r)) r w (None, None)"

text \<open>The ring of resolvers a loop with \<open>k\<close> iterations left goes through.\<close>

definition ring :: "nat \<Rightarrow> nat \<Rightarrow> nat \<Rightarrow> nat set" where
  "ring n start k = (\<lambda>j. (start + j) mod n) ` {..<k}"

lemma ring_0 [simp]: "ring n start 0 = {}"
  by (simp add: ring_def)

lemma finite_ring [simp]: "finite (ring n start k)"
  by (simp add: ring_def)

lemma ring_eq_empty [simp]: "ring n start k = {} \<longleftrightarrow> k = 0"
  by (simp add: ring_def lessThan_empty_iff)

lemma start_in_ring: "start < n \<Longrightarrow> 0 < k \<Longrightarrow> start \<in> ring n start k"
  by (auto simp: ring_def image_iff intro!: bexI [of _ 0])

lemma ring_full: "start < n \<Longrightarrow> ring n start n = {..<n}"
proof (intro equalityI subsetI)
  fix i assume "start < n" "i \<in> {..<n}"
  then have "i = (start + (i + n - start) mod n) mod n"
    by (simp add: mod_add_right_eq)
  with \<open>start < n\<close> show "i \<in> ring n start n"
    by (auto simp: ring_def image_iff intro!: bexI [of _ "(i + n - start) mod n"])
qed (auto simp: ring_def)

lemma add_mod_eq_self: "0 < j \<Longrightarrow> j < n \<Longrightarrow> start < n \<Longrightarrow> (start + j) mod n \<noteq> (start :: nat)"
  by (cases "start + j < n") (simp_all add: mod_if [of "start + j"])

lemma ring_step:
  assumes "start < n" "Suc k \<le> n"
  shows "ring n ((start + 1) mod n) k = ring n start (Suc k) - {start}"
proof -
  have "ring n start (Suc k) = insert start ((\<lambda>j. (start + Suc j) mod n) ` {..<k})"
    using assms(1) by (simp add: ring_def lessThan_Suc_eq_insert_0 image_image)
  moreover have "(start + Suc j) mod n \<noteq> start" if "j < k" for j
    using assms add_mod_eq_self [of "Suc j" n start] that by simp
  then have "start \<notin> (\<lambda>j. (start + Suc j) mod n) ` {..<k}" by force
  moreover have "ring n ((start + 1) mod n) k = (\<lambda>j. (start + Suc j) mod n) ` {..<k}"
    by (simp add: ring_def mod_add_left_eq)
  ultimately show ?thesis by simp
qed

text \<open>One failed attempt of \<^verbatim>\<open>FailRotate\<close>: both counters and the move to the next resolver.\<close>

definition FailRotate_failed :: "'w FailRotate \<Rightarrow> 'w FailRotate" where
  "FailRotate_failed r =
     (let name = r_String (fr_resolvers r ! fr_active r)
      in FailRotate_errorFrom
           (r\<lparr>fr_metrics := count_failure name (count_route name (fr_metrics r))\<rparr>) (fr_active r))"

lemma FailRotate_failed_simps [simp]:
  "fr_resolvers (FailRotate_failed r) = fr_resolvers r"
  "fr_active (FailRotate_failed r) = (fr_active r + 1) mod length (fr_resolvers r)"
  "fr_ServfailError (FailRotate_failed r) = fr_ServfailError r"
  "fr_EmptyError (FailRotate_failed r) = fr_EmptyError r"
  by (simp_all add: FailRotate_failed_def FailRotate_errorFrom_def Let_def)

lemma FailRotate_loop_step:
  "fr_active r < length (fr_resolvers r) \<Longrightarrow>
   FailRotate_loop L q ci (Suc k) r w ae =
     (case r_Resolve (fr_resolvers r ! fr_active r) q ci w of (ae', w') \<Rightarrow>
        if good_reply L (fr_ServfailError r) (fr_EmptyError r) ae'
        then (ae', r\<lparr>fr_metrics := count_route (r_String (fr_resolvers r ! fr_active r)) (fr_metrics r)\<rparr>, w')
        else FailRotate_loop L q ci k (FailRotate_failed r) w' ae')"
  by (simp add: FailRotate_failed_def Let_def split: prod.splits)

definition FailRotate_ok :: "'w resolver list \<Rightarrow> bool \<Rightarrow> bool \<Rightarrow> nat \<times> 'w FailRotate \<Rightarrow> bool" where
  "FailRotate_ok rs sf ee kr \<longleftrightarrow>
     (case kr of (k, r) \<Rightarrow> fr_resolvers r = rs \<and> fr_ServfailError r = sf \<and> fr_EmptyError r = ee \<and>
        fr_active r < length rs \<and> k \<le> length rs)"

interpretation failrotate: failover_group
  "FailRotate_ok rs sf ee"
  "\<lambda>(k, r). ring (length rs) (fr_active r) k"
  "\<lambda>(k, r). fr_active r"
  "\<lambda>i. r_Resolve (rs ! i) q ci"
  "good_reply L sf ee"
  "\<lambda>(k, r). (k - 1, FailRotate_failed r)"
  "\<lambda>(k, r) w ae. fst (FailRotate_loop L q ci k r w ae)"
  "\<lambda>ae. ae"
  for rs :: "'w resolver list" and sf ee q ci L
proof (unfold_locales, goal_cases)
  case (1 s)
  then show ?case by (cases s) simp
next
  case (2 s)
  then show ?case by (cases s) (auto simp: FailRotate_ok_def start_in_ring)
next
  case (3 s)
  then show ?case by (cases s) (auto simp: FailRotate_ok_def intro!: mod_less_divisor)
next
  case (4 s)
  obtain k r where s: "s = (k, r)" by fastforce
  with 4 obtain k' where "k = Suc k'" by (auto simp: gr0_conv_Suc)
  with 4 s show ?case by (simp add: FailRotate_ok_def ring_step [symmetric])
next
  case (5 s w ae)
  then show ?case by (cases s) simp
next
  case (6 s w ae' w' ae)
  obtain k r where s: "s = (k, r)" by fastforce
  with 6 obtain k' where "k = Suc k'" by (auto simp: gr0_conv_Suc)
  with 6 s show ?case by (simp add: FailRotate_ok_def FailRotate_loop_step del: FailRotate_loop.simps)
next
  case (7 s w ae' w' ae)
  obtain k r where s: "s = (k, r)" by fastforce
  with 7 obtain k' where "k = Suc k'" by (auto simp: gr0_conv_Suc)
  with 7 s show ?case by (simp add: FailRotate_ok_def FailRotate_loop_step del: FailRotate_loop.simps)
qed

section \<open>FailBack\<close>

text \<open>
  The reset timer is a goroutine of its own. \<open>Armed\<close> is its \<^verbatim>\<open>select\<close> with the timer running, \<open>Waiting\<close>
  its wait for the next failure after it has switched back. \<open>fb_failCh\<close> counts the signals in the
  channel of capacity one (\<^const>\<open>None\<close> is the nil channel), \<open>fb_senders\<close> the queries that have failed over
  and not yet delivered their signal.
\<close>

datatype resetTimer = Armed | Waiting

record 'w FailBack =
  fb_resolvers :: "'w resolver list"
  fb_failCh :: "nat option"
  fb_active :: nat
  fb_ResetAfter :: int
  fb_ServfailError :: bool
  fb_EmptyError :: bool
  fb_metrics :: failRouterMetrics
  fb_timer :: resetTimer
  fb_senders :: nat

definition NewFailBack :: "int \<Rightarrow> bool \<Rightarrow> bool \<Rightarrow> 'w resolver list \<Rightarrow> 'w FailBack" where
  "NewFailBack resetAfter sf ee resolvers =
     \<lparr>fb_resolvers = resolvers, fb_failCh = None, fb_active = 0, fb_ResetAfter = resetAfter,
      fb_ServfailError = sf, fb_EmptyError = ee,
      fb_metrics = newFailRouterMetrics (int (length resolvers)),
      fb_timer = Armed, fb_senders = 0\<rparr>"

definition FailBack_current :: "'w FailBack \<Rightarrow> nat \<Rightarrow> nat" where
  "FailBack_current r attempt = (if fb_ResetAfter r = 0 then attempt else fb_active r)"

text \<open>The part of \<^verbatim>\<open>errorFrom\<close> up to the send, which starts the timer and moves to the next resolver.\<close>

definition FailBack_failover :: "'w FailBack \<Rightarrow> nat \<Rightarrow> 'w FailBack" where
  "FailBack_failover r i =
     (if fb_ResetAfter r = 0 \<or> i \<noteq> fb_active r then r
      else
        let active = (fb_active r + 1) mod length (fb_resolvers r) in
        r\<lparr>fb_failCh := (case fb_failCh r of None \<Rightarrow> Some 0 | Some c \<Rightarrow> Some c),
          fb_timer := (if fb_failCh r = None then Armed else fb_timer r),
          fb_active := active,
          fb_metrics := (fb_metrics r)\<lparr>mt_available := int (length (fb_resolvers r)) - int active,
                                       mt_failover := Suc (mt_failover (fb_metrics r))\<rparr>,
          fb_senders := Suc (fb_senders r)\<rparr>)"

text \<open>The cases of the timer goroutine's \<^verbatim>\<open>select\<close>, and the delivery of a signal.\<close>

definition FailBack_timerC :: "'w FailBack \<Rightarrow> 'w FailBack" where
  "FailBack_timerC r =
     r\<lparr>fb_active := 0,
       fb_metrics := (fb_metrics r)\<lparr>mt_available := int (length (fb_resolvers r))\<rparr>,
       fb_timer := Waiting\<rparr>"

definition FailBack_recv :: "'w FailBack \<Rightarrow> 'w FailBack" where
  "FailBack_recv r = r\<lparr>fb_failCh := map_option (\<lambda>c. c - 1) (fb_failCh r), fb_timer := Armed\<rparr>"

definition FailBack_put :: "'w FailBack \<Rightarrow> 'w FailBack" where
  "FailBack_put r = r\<lparr>fb_failCh := map_option Suc (fb_failCh r), fb_senders := fb_senders r - 1\<rparr>"

text \<open>
  \<^verbatim>\<open>errorFrom\<close> as one query runs it: a send into the full channel goes through once the timer goroutine
  has received the signal before it.
\<close>

definition FailBack_send :: "'w FailBack \<Rightarrow> 'w FailBack" where
  "FailBack_send r =
     (if fb_senders r = 0 then r
      else if fb_failCh r = Some 0 then FailBack_put r
      else FailBack_put (FailBack_recv r))"

definition FailBack_errorFrom :: "'w FailBack \<Rightarrow> nat \<Rightarrow> 'w FailBack" where
  "FailBack_errorFrom r i = FailBack_send (FailBack_failover r i)"

primrec FailBack_loop ::
  "dnslib \<Rightarrow> Msg \<Rightarrow> ClientInfo \<Rightarrow> nat \<Rightarrow> nat \<Rightarrow> 'w FailBack \<Rightarrow> 'w \<Rightarrow> reply \<Rightarrow>
   reply \<times> 'w FailBack \<times> 'w" where
  "FailBack_loop L q ci 0 i r w ae = (ae, r, w)"
| "FailBack_loop L q ci (Suc k) i r w ae =
     (let active = FailBack_current r i in
      if length (fb_resolvers r) \<le> active then (panic, r, w)
      else
        let resolver = fb_resolvers r ! active;
            r1 = r\<lparr>fb_metrics := count_route (r_String resolver) (fb_metrics r)\<rparr>;
            (ae', w') = r_Resolve resolver q ci w
        in if good_reply L (fb_ServfailError r) (fb_EmptyError r) ae' then (ae', r1, w')
           else FailBack_loop L q ci k (Suc i)
                  (FailBack_errorFrom
                    (r1\<lparr>fb_metrics := count_failure (r_String resolver) (fb_metrics r1)\<rparr>) active)
                  w' ae')"

definition FailBack_Resolve ::
  "dnslib \<Rightarrow> 'w FailBack \<Rightarrow> Msg \<Rightarrow> ClientInfo \<Rightarrow> 'w \<Rightarrow> reply \<times> 'w FailBack \<times> 'w" where
  "FailBack_Resolve L r q ci w =
     FailBack_loop L q ci (length (fb_resolvers r)) 0 r w (None, None)"

lemmas FailBack_state_defs =
  FailBack_errorFrom_def FailBack_send_def FailBack_failover_def FailBack_put_def FailBack_recv_def
  FailBack_timerC_def

lemma FailBack_put_simps [simp]:
  "fb_resolvers (FailBack_put r) = fb_resolvers r"
  "fb_ServfailError (FailBack_put r) = fb_ServfailError r"
  "fb_EmptyError (FailBack_put r) = fb_EmptyError r"
  "fb_ResetAfter (FailBack_put r) = fb_ResetAfter r"
  "fb_active (FailBack_put r) = fb_active r"
  by (simp_all add: FailBack_put_def)

lemma FailBack_recv_simps [simp]:
  "fb_resolvers (FailBack_recv r) = fb_resolvers r"
  "fb_ServfailError (FailBack_recv r) = fb_ServfailError r"
  "fb_EmptyError (FailBack_recv r) = fb_EmptyError r"
  "fb_ResetAfter (FailBack_recv r) = fb_ResetAfter r"
  "fb_active (FailBack_recv r) = fb_active r"
  by (simp_all add: FailBack_recv_def)

lemma FailBack_send_simps [simp]:
  "fb_resolvers (FailBack_send r) = fb_resolvers r"
  "fb_ServfailError (FailBack_send r) = fb_ServfailError r"
  "fb_EmptyError (FailBack_send r) = fb_EmptyError r"
  "fb_ResetAfter (FailBack_send r) = fb_ResetAfter r"
  "fb_active (FailBack_send r) = fb_active r"
  by (simp_all add: FailBack_send_def)

lemma FailBack_failover_simps [simp]:
  "fb_resolvers (FailBack_failover r i) = fb_resolvers r"
  "fb_ServfailError (FailBack_failover r i) = fb_ServfailError r"
  "fb_EmptyError (FailBack_failover r i) = fb_EmptyError r"
  "fb_ResetAfter (FailBack_failover r i) = fb_ResetAfter r"
  "fb_active (FailBack_failover r i) = 
     (if fb_ResetAfter r = 0 \<or> i \<noteq> fb_active r then fb_active r
      else (fb_active r + 1) mod length (fb_resolvers r))"
  by (simp_all add: FailBack_failover_def Let_def)

lemma FailBack_errorFrom_simps [simp]:
  "fb_resolvers (FailBack_errorFrom r i) = fb_resolvers r"
  "fb_ServfailError (FailBack_errorFrom r i) = fb_ServfailError r"
  "fb_EmptyError (FailBack_errorFrom r i) = fb_EmptyError r"
  "fb_ResetAfter (FailBack_errorFrom r i) = fb_ResetAfter r"
  "fb_active (FailBack_errorFrom r i) = 
     (if fb_ResetAfter r = 0 \<or> i \<noteq> fb_active r then fb_active r
      else (fb_active r + 1) mod length (fb_resolvers r))"
  by (simp_all add: FailBack_errorFrom_def)

definition FailBack_failed :: "'w FailBack \<Rightarrow> nat \<Rightarrow> 'w FailBack" where
  "FailBack_failed r active =
     (let name = r_String (fb_resolvers r ! active)
      in FailBack_errorFrom (r\<lparr>fb_metrics := count_failure name (count_route name (fb_metrics r))\<rparr>) active)"

lemma FailBack_failed_simps [simp]:
  "fb_resolvers (FailBack_failed r i) = fb_resolvers r"
  "fb_ServfailError (FailBack_failed r i) = fb_ServfailError r"
  "fb_EmptyError (FailBack_failed r i) = fb_EmptyError r"
  "fb_ResetAfter (FailBack_failed r i) = fb_ResetAfter r"
  "fb_active (FailBack_failed r i) =
     (if fb_ResetAfter r = 0 \<or> i \<noteq> fb_active r then fb_active r
      else (fb_active r + 1) mod length (fb_resolvers r))"
  by (simp_all add: FailBack_failed_def Let_def)

lemma FailBack_loop_step:
  "FailBack_current r i < length (fb_resolvers r) \<Longrightarrow>
   FailBack_loop L q ci (Suc k) i r w ae =
     (let active = FailBack_current r i in
      case r_Resolve (fb_resolvers r ! active) q ci w of (ae', w') \<Rightarrow>
        if good_reply L (fb_ServfailError r) (fb_EmptyError r) ae'
        then (ae', r\<lparr>fb_metrics := count_route (r_String (fb_resolvers r ! active)) (fb_metrics r)\<rparr>, w')
        else FailBack_loop L q ci k (Suc i) (FailBack_failed r active) w' ae')"
  by (simp add: FailBack_failed_def Let_def split: prod.splits)

definition FailBack_ok :: "'w resolver list \<Rightarrow> int \<Rightarrow> bool \<Rightarrow> bool \<Rightarrow> nat \<times> nat \<times> 'w FailBack \<Rightarrow> bool" where
  "FailBack_ok rs d sf ee kir \<longleftrightarrow>
     (case kir of (k, i, r) \<Rightarrow>
        fb_resolvers r = rs \<and> fb_ResetAfter r = d \<and> fb_ServfailError r = sf \<and> fb_EmptyError r = ee \<and>
        fb_active r < length rs \<and> i + k = length rs)"

definition FailBack_todo :: "nat \<times> nat \<times> 'w FailBack \<Rightarrow> nat set" where
  "FailBack_todo kir =
     (case kir of (k, i, r) \<Rightarrow>
        if fb_ResetAfter r = 0 then {i..<i + k} else ring (length (fb_resolvers r)) (fb_active r) k)"

lemma FailBack_todo_empty [simp]: "FailBack_todo (k, i, r) = {} \<longleftrightarrow> k = 0"
  by (auto simp: FailBack_todo_def)

lemma FailBack_current_todo:
  "FailBack_ok rs d sf ee (k, i, r) \<Longrightarrow> 0 < k \<Longrightarrow> FailBack_current r i \<in> FailBack_todo (k, i, r)"
  by (auto simp: FailBack_ok_def FailBack_current_def FailBack_todo_def start_in_ring)

lemma FailBack_current_less:
  "FailBack_ok rs d sf ee (k, i, r) \<Longrightarrow> 0 < k \<Longrightarrow> FailBack_current r i < length (fb_resolvers r)"
  by (auto simp: FailBack_ok_def FailBack_current_def)

lemma FailBack_ok_failed:
  "FailBack_ok rs d sf ee (Suc k, i, r) \<Longrightarrow>
   FailBack_ok rs d sf ee (k, Suc i, FailBack_failed r (FailBack_current r i))"
  by (auto simp: FailBack_ok_def FailBack_current_def intro!: mod_less_divisor)

lemma atLeastLessThan_step: "{Suc i..<n} = {i..<n} - {i}"
  by auto

lemma FailBack_todo_failed:
  "FailBack_ok rs d sf ee (Suc k, i, r) \<Longrightarrow>
   FailBack_todo (k, Suc i, FailBack_failed r (FailBack_current r i)) =
     FailBack_todo (Suc k, i, r) - {FailBack_current r i}"
  by (cases "fb_ResetAfter r = 0")
     (simp_all add: FailBack_ok_def FailBack_current_def FailBack_todo_def atLeastLessThan_step
        ring_step [symmetric])

interpretation failback: failover_group
  "FailBack_ok rs d sf ee"
  "FailBack_todo"
  "\<lambda>(k, i, r). FailBack_current r i"
  "\<lambda>i. r_Resolve (rs ! i) q ci"
  "good_reply L sf ee"
  "\<lambda>(k, i, r). (k - 1, Suc i, FailBack_failed r (FailBack_current r i))"
  "\<lambda>(k, i, r) w ae. fst (FailBack_loop L q ci k i r w ae)"
  "\<lambda>ae. ae"
  for rs :: "'w resolver list" and d sf ee q ci L
proof (unfold_locales, goal_cases)
  case (1 s)
  then show ?case by (cases s) (simp add: FailBack_todo_def)
next
  case (2 s)
  then show ?case by (cases s) (auto simp: FailBack_current_todo)
next
  case (3 s)
  then obtain k i r where "s = (Suc k, i, r)" by (cases s) (auto simp: gr0_conv_Suc)
  with 3 show ?case by (simp add: FailBack_ok_failed)
next
  case (4 s)
  then obtain k i r where "s = (Suc k, i, r)" by (cases s) (auto simp: gr0_conv_Suc)
  with 4 show ?case by (simp add: FailBack_todo_failed)
next
  case (5 s w ae)
  then show ?case by (cases s) simp
next
  case (6 s w ae' w' ae)
  then obtain k i r where s: "s = (Suc k, i, r)" by (cases s) (auto simp: gr0_conv_Suc)
  with 6 FailBack_current_less [of rs d sf ee "Suc k" i r] show ?case
    by (simp add: FailBack_ok_def FailBack_loop_step Let_def del: FailBack_loop.simps)
next
  case (7 s w ae' w' ae)
  then obtain k i r where s: "s = (Suc k, i, r)" by (cases s) (auto simp: gr0_conv_Suc)
  with 7 FailBack_current_less [of rs d sf ee "Suc k" i r] show ?case
    by (simp add: FailBack_ok_def FailBack_loop_step Let_def del: FailBack_loop.simps)
qed

text \<open>
  The group with any number of queries in flight: each step is one atomic section of a query
  (a counter update, a failover under the lock, a send) or of the timer goroutine. \<open>FailBack_quiet\<close>
  are the steps that happen without a new failure.
\<close>

inductive FailBack_quiet :: "'w FailBack \<Rightarrow> 'w FailBack \<Rightarrow> bool" where
  put: "0 < fb_senders r \<Longrightarrow> fb_failCh r = Some 0 \<Longrightarrow> FailBack_quiet r (FailBack_put r)"
| recv: "fb_failCh r = Some (Suc c) \<Longrightarrow> FailBack_quiet r (FailBack_recv r)"
| timerC: "fb_failCh r \<noteq> None \<Longrightarrow> fb_timer r = Armed \<Longrightarrow> FailBack_quiet r (FailBack_timerC r)"

inductive FailBack_step :: "'w FailBack \<Rightarrow> 'w FailBack \<Rightarrow> bool" where
  quiet: "FailBack_quiet r r' \<Longrightarrow> FailBack_step r r'"
| route: "FailBack_step r (r\<lparr>fb_metrics := count_route name (fb_metrics r)\<rparr>)"
| failure: "FailBack_step r (r\<lparr>fb_metrics := count_failure name (fb_metrics r)\<rparr>)"
| failover: "FailBack_step r (FailBack_failover r i)"

inductive_cases FailBack_stepE: "FailBack_step r r'"
inductive_cases FailBack_quietE: "FailBack_quiet r r'"

definition FailBack_inv :: "'w FailBack \<Rightarrow> bool" where
  "FailBack_inv r \<longleftrightarrow>
     fb_active r < length (fb_resolvers r) \<and>
     mt_available (fb_metrics r) = int (length (fb_resolvers r)) - int (fb_active r) \<and>
     (case fb_failCh r of None \<Rightarrow> fb_active r = 0 \<and> fb_senders r = 0
      | Some c \<Rightarrow> c \<le> 1 \<and> (fb_active r \<noteq> 0 \<longrightarrow> fb_timer r = Armed \<or> 0 < c + fb_senders r))"

lemma FailBack_inv_init: "resolvers \<noteq> [] \<Longrightarrow> FailBack_inv (NewFailBack d sf ee resolvers)"
  by (simp add: FailBack_inv_def NewFailBack_def newFailRouterMetrics_def)

lemma FailBack_inv_failover: "FailBack_inv r \<Longrightarrow> FailBack_inv (FailBack_failover r i)"
  by (auto simp: FailBack_inv_def FailBack_failover_def Let_def split: option.splits
        intro!: mod_less_divisor)

lemma FailBack_inv_quiet: "FailBack_quiet r r' \<Longrightarrow> FailBack_inv r \<Longrightarrow> FailBack_inv r'"
  by (erule FailBack_quietE)
     (auto simp: FailBack_inv_def FailBack_put_def FailBack_recv_def FailBack_timerC_def
        split: option.splits)

lemma FailBack_inv_step: "FailBack_step r r' \<Longrightarrow> FailBack_inv r \<Longrightarrow> FailBack_inv r'"
  by (erule FailBack_stepE)
     (auto simp: FailBack_inv_quiet FailBack_inv_failover,
      auto simp: FailBack_inv_def count_route_def count_failure_def split: option.splits)

interpretation failback_steps: step_invariant FailBack_step FailBack_inv
  by unfold_locales (rule FailBack_inv_step)

lemmas FailBack_inv_steps = failback_steps.steps_inv

text \<open>The number of quiet steps a state allows.\<close>

definition FailBack_budget :: "'w FailBack \<Rightarrow> nat" where
  "FailBack_budget r =
     4 * fb_senders r + 2 * (case fb_failCh r of None \<Rightarrow> 0 | Some c \<Rightarrow> c) +
     (if fb_timer r = Armed then 1 else 0)"

lemma FailBack_budget_less: "FailBack_quiet r r' \<Longrightarrow> FailBack_budget r' < FailBack_budget r"
  by (erule FailBack_quietE)
     (auto simp: FailBack_budget_def FailBack_put_def FailBack_recv_def FailBack_timerC_def)

lemma FailBack_quiet_run:
  "(FailBack_quiet ^^ k) r r' \<Longrightarrow> FailBack_inv r \<Longrightarrow> FailBack_inv r' \<and> k + FailBack_budget r' \<le> FailBack_budget r"
proof (induction k arbitrary: r')
  case (Suc k)
  then obtain r1 where "(FailBack_quiet ^^ k) r r1" and q: "FailBack_quiet r1 r'" by auto
  with Suc.IH Suc.prems(2) have "FailBack_inv r1" "k + FailBack_budget r1 \<le> FailBack_budget r" by auto
  with q FailBack_inv_quiet [OF q] FailBack_budget_less [OF q] show ?case by simp
qed simp

lemma FailBack_stuck_active: "FailBack_inv r \<Longrightarrow> \<forall>r'. \<not> FailBack_quiet r r' \<Longrightarrow> fb_active r = 0"
proof (rule ccontr)
  assume inv: "FailBack_inv r" and stuck: "\<forall>r'. \<not> FailBack_quiet r r'" and "fb_active r \<noteq> 0"
  then obtain c where c: "fb_failCh r = Some c" "c \<le> 1" "fb_timer r = Armed \<or> 0 < c + fb_senders r"
    by (auto simp: FailBack_inv_def split: option.splits)
  with stuck timerC [of r] put [of r] recv [of r] show False
    by (cases c) auto
qed

text \<open>Every state a single query goes through is a state of the step relation.\<close>

lemma FailBack_send_steps:
  assumes "FailBack_inv r"
  shows "FailBack_quiet\<^sup>*\<^sup>* r (FailBack_send r)"
proof (cases "fb_senders r = 0")
  case False
  with assms obtain c where c: "fb_failCh r = Some c" "c \<le> 1"
    by (auto simp: FailBack_inv_def split: option.splits)
  show ?thesis
  proof (cases c)
    case 0
    with False c show ?thesis by (auto simp: FailBack_send_def intro: put)
  next
    case (Suc c')
    with c have "FailBack_quiet r (FailBack_recv r)" by (auto intro: recv)
    moreover have "FailBack_quiet (FailBack_recv r) (FailBack_put (FailBack_recv r))"
      using False c Suc by (auto intro!: put simp: FailBack_recv_def)
    ultimately show ?thesis
      using False c Suc by (simp add: FailBack_send_def)
  qed
qed (simp add: FailBack_send_def)

lemma FailBack_errorFrom_steps:
  assumes "FailBack_inv r"
  shows "FailBack_step\<^sup>*\<^sup>* r (FailBack_errorFrom r i)"
proof -
  have "FailBack_quiet \<le> FailBack_step"
    by (auto intro: quiet)
  with FailBack_send_steps [OF FailBack_inv_failover [OF assms]]
  have "FailBack_step\<^sup>*\<^sup>* (FailBack_failover r i) (FailBack_errorFrom r i)"
    unfolding FailBack_errorFrom_def by (meson predicate2D rtranclp_mono)
  with failover [of r i] show ?thesis
    by (rule converse_rtranclp_into_rtranclp)
qed

lemma FailBack_loop_steps:
  "FailBack_inv r \<Longrightarrow> FailBack_step\<^sup>*\<^sup>* r (fst (snd (FailBack_loop L q ci k i r w ae)))"
proof (induction k arbitrary: i r w ae)
  case (Suc k)
  define active where "active = FailBack_current r i"
  define name where "name = r_String (fb_resolvers r ! active)"
  define r1 where "r1 = r\<lparr>fb_metrics := count_route name (fb_metrics r)\<rparr>"
  define r2 where "r2 = r1\<lparr>fb_metrics := count_failure name (fb_metrics r1)\<rparr>"
  have s1: "FailBack_step r r1" and s2: "FailBack_step r1 r2"
    unfolding r1_def r2_def by (rule FailBack_step.route FailBack_step.failure)+
  have s3: "FailBack_step\<^sup>*\<^sup>* r2 (FailBack_errorFrom r2 active)"
    by (intro FailBack_errorFrom_steps FailBack_inv_step [OF s2] FailBack_inv_step [OF s1] Suc.prems)
  then have s: "FailBack_step\<^sup>*\<^sup>* r (FailBack_errorFrom r2 active)"
    using s1 s2 by (meson converse_rtranclp_into_rtranclp)
  then have "FailBack_step\<^sup>*\<^sup>* r (fst (snd (FailBack_loop L q ci k j (FailBack_errorFrom r2 active) v b)))"
    for j v b
    using Suc.IH [OF FailBack_inv_steps [OF s Suc.prems]] by (rule rtranclp_trans)
  with s1 show ?case
    by (auto simp: Let_def active_def name_def r1_def r2_def split: prod.splits)
qed simp

section \<open>What the groups guarantee\<close>

definition share :: "nat \<Rightarrow> nat \<Rightarrow> nat \<Rightarrow> nat" where
  "share n m i = m div n + (if i < m mod n then 1 else 0)"

lemma share_Suc: "i < n \<Longrightarrow> share n (Suc m) i = share n m i + (if i = m mod n then 1 else 0)"
  by (auto simp: share_def div_Suc mod_Suc)

definition RoundRobin_counts :: "'w resolver list \<Rightarrow> nat \<Rightarrow> 'w RoundRobin \<Rightarrow> bool" where
  "RoundRobin_counts rs m r \<longleftrightarrow>
     rb_resolvers r = rs \<and> rb_current r = m mod length rs \<and>
     (\<forall>i < length rs. mt_route (rb_metrics r) (r_String (rs ! i)) = share (length rs) m i)"

lemma RoundRobin_counts_Resolve:
  assumes "RoundRobin_counts rs m r" "rs \<noteq> []" "distinct (map r_String rs)"
    "RoundRobin_Resolve r q ci w = (ae, r', w')"
  shows "RoundRobin_counts rs (Suc m) r'"
proof -
  have idx: "\<not> length rs \<le> m mod length rs"
    using assms(2) by (simp add: not_le)
  have name: "r_String (rs ! i) = r_String (rs ! (m mod length rs)) \<longleftrightarrow> i = m mod length rs"
    if "i < length rs" for i
    using assms(2,3) that nth_eq_iff_index_eq [OF assms(3), of i "m mod length rs"] by simp
  show ?thesis
    using assms(1,2,4) name idx
    by (auto simp: RoundRobin_counts_def RoundRobin_Resolve_def count_route_def count_failure_def
          Let_def share_Suc mod_Suc_eq split: prod.splits if_splits)
qed

lemma RoundRobin_counts_run:
  assumes "rs \<noteq> []" "distinct (map r_String rs)"
  shows "RoundRobin_counts rs m r \<Longrightarrow> RoundRobin_counts rs (m + length qs) (fst (RoundRobin_run r qs w))"
proof (induction qs arbitrary: m r w)
  case (Cons p qs)
  obtain q ci where p: "p = (q, ci)" by fastforce
  obtain ae r' w' where run: "RoundRobin_Resolve r q ci w = (ae, r', w')" by (metis prod_cases3)
  from RoundRobin_counts_Resolve [OF Cons.prems assms run] Cons.IH [of "Suc m" r' w']
  show ?case by (simp add: p run)
qed simp



text \<open>
  C7: a failrotate group with a resolver that always gives a good reply gives a good reply to every
  query, whichever resolver is active when the query arrives.
\<close>

theorem FailRotate_answers:
  assumes "fr_active r < length (fr_resolvers r)" "i < length (fr_resolvers r)"
    "\<And>w. good_reply L (fr_ServfailError r) (fr_EmptyError r) (fst (r_Resolve (fr_resolvers r ! i) q ci w))"
  shows "good_reply L (fr_ServfailError r) (fr_EmptyError r) (fst (FailRotate_Resolve L r q ci w))"
  using failrotate.some_good_reply [of "fr_resolvers r" "fr_ServfailError r" "fr_EmptyError r"
      "(length (fr_resolvers r), r)" i L q ci w "(None, None)"] assms
  by (simp add: FailRotate_ok_def FailRotate_Resolve_def ring_full)

theorem FailRotate_answers_witness:
  "good_reply ref_lib True False
     (fst (FailRotate_Resolve ref_lib
        ((NewFailRotate True False [ref_failing ''a'', ref_answering ''b'', ref_failing ''c''])\<lparr>fr_active := 2\<rparr>)
        (ref_query ''x.'' TypeA) ref_client ()))"
  using FailRotate_answers [of "(NewFailRotate True False
      [ref_failing ''a'', ref_answering ''b'', ref_failing ''c''])\<lparr>fr_active := 2\<rparr>" 1 ref_lib
      "ref_query ''x.'' TypeA" ref_client "()"]
  by (simp add: NewFailRotate_def)

text \<open>
  When a resolver of a failrotate group fails, the group moves on exactly once however many
  queries report that failure: a second report for the same resolver leaves the group as it is.
\<close>

theorem FailRotate_errorFrom_once:
  assumes "2 \<le> length (fr_resolvers r)" "fr_active r < length (fr_resolvers r)"
  shows "FailRotate_errorFrom (FailRotate_errorFrom r i) i = FailRotate_errorFrom r i"
  using assms add_mod_eq_self [of 1 "length (fr_resolvers r)" "fr_active r"]
  by (auto simp: FailRotate_errorFrom_def)

theorem FailRotate_errorFrom_once_witness:
  "fr_active (FailRotate_errorFrom (FailRotate_errorFrom
     (NewFailRotate False False [ref_failing ''a'', ref_answering ''b'']) 0) 0) = 1"
  using FailRotate_errorFrom_once [of "NewFailRotate False False [ref_failing ''a'', ref_answering ''b'']" 0]
  by (simp add: NewFailRotate_def FailRotate_errorFrom_def)

text \<open>
  A failback group with a resolver that always gives a good reply gives a good reply to every
  query, with a reset interval or without one.
\<close>

theorem FailBack_answers:
  assumes "fb_active r < length (fb_resolvers r)" "i < length (fb_resolvers r)"
    "\<And>w. good_reply L (fb_ServfailError r) (fb_EmptyError r) (fst (r_Resolve (fb_resolvers r ! i) q ci w))"
  shows "good_reply L (fb_ServfailError r) (fb_EmptyError r) (fst (FailBack_Resolve L r q ci w))"
  using failback.some_good_reply [of "fb_resolvers r" "fb_ResetAfter r" "fb_ServfailError r" "fb_EmptyError r"
      "(length (fb_resolvers r), 0, r)" i L q ci w "(None, None)"] assms
  by (simp add: FailBack_ok_def FailBack_Resolve_def FailBack_todo_def ring_full)

theorem FailBack_answers_witness:
  "good_reply ref_lib True False
     (fst (FailBack_Resolve ref_lib
        (NewFailBack 60 True False [ref_failing ''a'', ref_failing ''b'', ref_answering ''c''])
        (ref_query ''x.'' TypeA) ref_client ()))"
  using FailBack_answers [of "NewFailBack 60 True False
      [ref_failing ''a'', ref_failing ''b'', ref_answering ''c'']" 2 ref_lib
      "ref_query ''x.'' TypeA" ref_client "()"]
  by (simp add: NewFailBack_def)

text \<open>
  C8: a failback group never stays on a backup resolver. In every state reachable from a new group
  by any interleaving of queries and of the timer goroutine, once failures stop only a bounded
  number of further steps is possible, and when none is possible any more the group is back on its
  first resolver with every resolver counted as available.
\<close>

theorem FailBack_returns:
  assumes "resolvers \<noteq> []" "FailBack_step\<^sup>*\<^sup>* (NewFailBack d sf ee resolvers) r"
    "(FailBack_quiet ^^ k) r r'"
  shows "k \<le> FailBack_budget r \<and>
    ((\<forall>r''. \<not> FailBack_quiet r' r'') \<longrightarrow>
       fb_active r' = 0 \<and> mt_available (fb_metrics r') = int (length (fb_resolvers r')))"
proof -
  have "FailBack_inv r"
    using assms(1,2) by (blast intro: FailBack_inv_steps FailBack_inv_init)
  from FailBack_quiet_run [OF assms(3) this]
  have inv: "FailBack_inv r'" and "k \<le> FailBack_budget r" by auto
  moreover from inv have "mt_available (fb_metrics r') = int (length (fb_resolvers r')) - int (fb_active r')"
    by (simp add: FailBack_inv_def)
  ultimately show ?thesis
    using FailBack_stuck_active [OF inv] by simp
qed

definition ref_failed_over :: "unit FailBack" where
  "ref_failed_over = FailBack_failover (NewFailBack 60 False False [ref_failing ''a'', ref_answering ''b'']) 0"

lemma ref_failed_over_eq:
  "ref_failed_over = (NewFailBack 60 False False [ref_failing ''a'', ref_answering ''b''])
     \<lparr>fb_failCh := Some 0, fb_active := 1, fb_senders := 1,
      fb_metrics := (newFailRouterMetrics 2)\<lparr>mt_available := 1, mt_failover := 1\<rparr>\<rparr>"
  by (simp add: ref_failed_over_def FailBack_failover_def NewFailBack_def newFailRouterMetrics_def)

theorem FailBack_returns_witness:
  "fb_active ref_failed_over = 1 \<and> 3 \<le> FailBack_budget ref_failed_over \<and>
   fb_active (FailBack_timerC (FailBack_recv (FailBack_put ref_failed_over))) = 0"
proof -
  let ?r = "ref_failed_over"
  have "FailBack_step\<^sup>*\<^sup>* (NewFailBack 60 False False [ref_failing ''a'', ref_answering ''b'']) ?r"
    unfolding ref_failed_over_def by (intro r_into_rtranclp FailBack_step.failover)
  moreover have "FailBack_quiet ?r (FailBack_put ?r)"
    by (rule FailBack_quiet.put) (simp_all add: ref_failed_over_eq)
  moreover have "FailBack_quiet (FailBack_put ?r) (FailBack_recv (FailBack_put ?r))"
    by (rule FailBack_quiet.recv) (simp add: ref_failed_over_eq FailBack_put_def)
  moreover have "FailBack_quiet (FailBack_recv (FailBack_put ?r)) (FailBack_timerC (FailBack_recv (FailBack_put ?r)))"
    by (rule FailBack_quiet.timerC) (simp_all add: ref_failed_over_eq FailBack_put_def FailBack_recv_def)
  moreover have "\<not> FailBack_quiet (FailBack_timerC (FailBack_recv (FailBack_put ?r))) r'" for r'
    by (auto elim!: FailBack_quietE
        simp: ref_failed_over_eq FailBack_put_def FailBack_recv_def FailBack_timerC_def NewFailBack_def)
  ultimately show ?thesis
    using FailBack_returns [of "[ref_failing ''a'', ref_answering ''b'']" 60 False False ?r 3
        "FailBack_timerC (FailBack_recv (FailBack_put ?r))"]
    by (auto simp: numeral_3_eq_3 relcompp.simps ref_failed_over_eq)
qed

text \<open>
  While it serves queries, a failback group always has a valid active resolver, its gauge of
  available resolvers is the number of resolvers from the active one on, and the state a query
  leaves behind is one that the concurrent step relation reaches.
\<close>

theorem FailBack_Resolve_safe:
  assumes "resolvers \<noteq> []" "FailBack_step\<^sup>*\<^sup>* (NewFailBack d sf ee resolvers) r"
    "FailBack_Resolve L r q ci w = (ae, r', w')"
  shows "FailBack_step\<^sup>*\<^sup>* r r' \<and> fb_active r' < length (fb_resolvers r') \<and>
    mt_available (fb_metrics r') = int (length (fb_resolvers r')) - int (fb_active r')"
proof -
  have inv: "FailBack_inv r"
    using assms(1,2) by (blast intro: FailBack_inv_steps FailBack_inv_init)
  then have s: "FailBack_step\<^sup>*\<^sup>* r r'"
    using FailBack_loop_steps [OF inv, of L q ci "length (fb_resolvers r)" 0 w "(None, None)"] assms(3)
    by (simp add: FailBack_Resolve_def)
  with FailBack_inv_steps [OF s inv] show ?thesis
    by (simp add: FailBack_inv_def)
qed

theorem FailBack_Resolve_safe_witness:
  "let (ae, r', w') = FailBack_Resolve ref_lib
       (NewFailBack 60 False False [ref_failing ''a'', ref_answering ''b'']) (ref_query ''x.'' TypeA) ref_client ()
   in fb_active r' < 2 \<and> mt_available (fb_metrics r') = 2 - int (fb_active r')"
proof -
  obtain ae r' w' where run: "FailBack_Resolve ref_lib
       (NewFailBack 60 False False [ref_failing ''a'', ref_answering ''b'']) (ref_query ''x.'' TypeA) ref_client ()
     = (ae, r', w')" by (metis prod_cases3)
  moreover from run have "length (fb_resolvers r') = 2"
    by (auto simp: FailBack_Resolve_def FailBack_loop_step FailBack_current_def NewFailBack_def Let_def
        numeral_2_eq_2 simp del: FailBack_loop.simps)
  ultimately show ?thesis
    using FailBack_Resolve_safe [OF _ rtranclp.rtrancl_refl run] by simp
qed

end
