(* ===== verification/RandomGroups.thy ===== *)
theory RandomGroups
  imports ResolverGroups "HOL-Library.Multiset"
begin

text \<open>
  The groups that do not follow the configured order: \<^verbatim>\<open>random.go\<close>, which takes failing resolvers out
  of the group for some time, and \<^verbatim>\<open>fastest.go\<close>, which asks all resolvers at once.
\<close>

section \<open>Random\<close>

text \<open>
  Resolvers are pointers in the code, compared for identity when one is taken out. Here they are
  indices into \<open>rn_all\<close>, the resolvers the group was made with. \<open>rn_resolvers\<close> is the active list
  and \<open>rn_sleeping\<close> holds the \<^verbatim>\<open>reactivateLater\<close> goroutines that have not woken up.
\<close>

record 'w Random =
  rn_all :: "'w resolver list"
  rn_resolvers :: "nat list"
  rn_sleeping :: "nat list"
  rn_ServfailError :: bool
  rn_EmptyError :: bool
  rn_metrics :: failRouterMetrics

definition NewRandom :: "bool \<Rightarrow> bool \<Rightarrow> 'w resolver list \<Rightarrow> 'w Random" where
  "NewRandom sf ee resolvers =
     \<lparr>rn_all = resolvers, rn_resolvers = [0..<length resolvers], rn_sleeping = [],
      rn_ServfailError = sf, rn_EmptyError = ee,
      rn_metrics = newFailRouterMetrics (int (length resolvers))\<rparr>"

text \<open>\<^verbatim>\<open>rand.Intn\<close> is an arbitrary number reduced to the range it is documented to have.\<close>

definition Random_pick :: "nat \<Rightarrow> 'w Random \<Rightarrow> nat option" where
  "Random_pick seed r =
     (if rn_resolvers r = [] then None
      else Some (rn_resolvers r ! (seed mod length (rn_resolvers r))))"

definition Random_deactivate :: "'w Random \<Rightarrow> nat \<Rightarrow> 'w Random" where
  "Random_deactivate r bad =
     (let filtered = filter (\<lambda>x. x \<noteq> bad) (rn_resolvers r);
          r1 = r\<lparr>rn_sleeping := rn_sleeping r @ filter (\<lambda>x. x = bad) (rn_resolvers r)\<rparr>
      in if length filtered = length (rn_resolvers r) then r1
         else r1\<lparr>rn_resolvers := filtered,
                 rn_metrics := (rn_metrics r)\<lparr>mt_failover := Suc (mt_failover (rn_metrics r)),
                                              mt_available := int (length filtered)\<rparr>\<rparr>)"

text \<open>The \<open>k\<close>-th sleeping goroutine wakes up.\<close>

definition Random_reactivate :: "'w Random \<Rightarrow> nat \<Rightarrow> 'w Random" where
  "Random_reactivate r k =
     (let resolvers = rn_resolvers r @ [rn_sleeping r ! k]
      in r\<lparr>rn_resolvers := resolvers,
           rn_sleeping := take k (rn_sleeping r) @ drop (Suc k) (rn_sleeping r),
           rn_metrics := (rn_metrics r)\<lparr>mt_available := int (length resolvers)\<rparr>\<rparr>)"

text \<open>One failed attempt: both counters and \<^verbatim>\<open>deactivate\<close>.\<close>

definition Random_failed :: "'w Random \<Rightarrow> nat \<Rightarrow> 'w Random" where
  "Random_failed r i =
     (let name = r_String (rn_all r ! i)
      in Random_deactivate (r\<lparr>rn_metrics := count_failure name (count_route name (rn_metrics r))\<rparr>) i)"

lemma filter_same_length: "length (filter P xs) = length xs \<longleftrightarrow> filter P xs = xs"
  by (metis filter_id_conv length_filter_less less_irrefl)

lemma Random_deactivate_simps [simp]:
  "rn_all (Random_deactivate r i) = rn_all r"
  "rn_ServfailError (Random_deactivate r i) = rn_ServfailError r"
  "rn_EmptyError (Random_deactivate r i) = rn_EmptyError r"
  "rn_resolvers (Random_deactivate r i) = filter (\<lambda>x. x \<noteq> i) (rn_resolvers r)"
  "rn_sleeping (Random_deactivate r i) = rn_sleeping r @ filter (\<lambda>x. x = i) (rn_resolvers r)"
  by (simp_all add: Random_deactivate_def Let_def filter_same_length)

lemma Random_failed_simps [simp]:
  "rn_all (Random_failed r i) = rn_all r"
  "rn_ServfailError (Random_failed r i) = rn_ServfailError r"
  "rn_EmptyError (Random_failed r i) = rn_EmptyError r"
  "rn_resolvers (Random_failed r i) = filter (\<lambda>x. x \<noteq> i) (rn_resolvers r)"
  by (simp_all add: Random_failed_def Let_def)

lemma Random_pick_Some: "Random_pick seed r = Some i \<Longrightarrow> i \<in> set (rn_resolvers r)"
  by (auto simp: Random_pick_def split: if_splits)

lemma Random_pick_None_iff: "Random_pick seed r = None \<longleftrightarrow> rn_resolvers r = []"
  by (auto simp: Random_pick_def)

text \<open>The \<^verbatim>\<open>for\<close> loop of \<^verbatim>\<open>Resolve\<close>; \<open>rnd k\<close> is the random number of its \<open>k\<close>-th iteration.\<close>

function Random_loop ::
  "dnslib \<Rightarrow> (nat \<Rightarrow> nat) \<Rightarrow> Msg \<Rightarrow> ClientInfo \<Rightarrow> nat \<Rightarrow> 'w Random \<Rightarrow> 'w \<Rightarrow> reply \<times> 'w Random \<times> 'w" where
  "Random_loop L rnd q ci k r w =
     (case Random_pick (rnd k) r of
        None \<Rightarrow> ((None, Some ErrNoActiveResolvers), r, w)
      | Some i \<Rightarrow>
          (let (ae, w') = r_Resolve (rn_all r ! i) q ci w
           in if good_reply L (rn_ServfailError r) (rn_EmptyError r) ae
              then (ae, r\<lparr>rn_metrics := count_route (r_String (rn_all r ! i)) (rn_metrics r)\<rparr>, w')
              else Random_loop L rnd q ci (Suc k) (Random_failed r i) w'))"
  by pat_completeness auto
termination
  by (relation "measure (\<lambda>(L, rnd, q, ci, k, r, w). length (rn_resolvers r))")
     (auto dest!: Random_pick_Some intro: length_filter_less)

declare Random_loop.simps [simp del]

definition Random_Resolve ::
  "dnslib \<Rightarrow> (nat \<Rightarrow> nat) \<Rightarrow> 'w Random \<Rightarrow> Msg \<Rightarrow> ClientInfo \<Rightarrow> 'w \<Rightarrow> reply \<times> 'w Random \<times> 'w" where
  "Random_Resolve L rnd r q ci w = Random_loop L rnd q ci 0 r w"

lemma Random_loop_step:
  "rn_resolvers r \<noteq> [] \<Longrightarrow>
   Random_loop L rnd q ci k r w =
     (let i = the (Random_pick (rnd k) r) in
      case r_Resolve (rn_all r ! i) q ci w of (ae, w') \<Rightarrow>
        if good_reply L (rn_ServfailError r) (rn_EmptyError r) ae
        then (ae, r\<lparr>rn_metrics := count_route (r_String (rn_all r ! i)) (rn_metrics r)\<rparr>, w')
        else Random_loop L rnd q ci (Suc k) (Random_failed r i) w')"
  by (subst Random_loop.simps) (simp add: Random_pick_def Let_def)

definition Random_ok :: "'w resolver list \<Rightarrow> bool \<Rightarrow> bool \<Rightarrow> nat \<times> 'w Random \<Rightarrow> bool" where
  "Random_ok rs sf ee kr \<longleftrightarrow>
     rn_all (snd kr) = rs \<and> rn_ServfailError (snd kr) = sf \<and> rn_EmptyError (snd kr) = ee"

interpretation random: failover_group
  "Random_ok rs sf ee"
  "\<lambda>(k, r). set (rn_resolvers r)"
  "\<lambda>(k, r). the (Random_pick (rnd k) r)"
  "\<lambda>i. r_Resolve (rs ! i) q ci"
  "good_reply L sf ee"
  "\<lambda>(k, r). (Suc k, Random_failed r (the (Random_pick (rnd k) r)))"
  "\<lambda>(k, r) w ae. fst (Random_loop L rnd q ci k r w)"
  "\<lambda>ae. (None, Some ErrNoActiveResolvers)"
  for rs :: "'w resolver list" and sf ee rnd q ci L
proof (unfold_locales, goal_cases)
  case (1 s)
  then show ?case by (cases s) simp
next
  case (2 s)
  then show ?case by (cases s) (auto simp: Random_pick_def)
next
  case (3 s)
  then show ?case by (cases s) (simp add: Random_ok_def)
next
  case (4 s)
  then show ?case by (cases s) auto
next
  case (5 s w ae)
  then show ?case by (cases s) (simp add: Random_loop.simps Random_pick_def)
next
  case (6 s w ae' w' ae)
  then show ?case
    by (cases s) (simp add: Random_ok_def Random_loop_step Let_def)
next
  case (7 s w ae' w' ae)
  obtain k r where "s = (k, r)" by fastforce
  with 7 show ?case
    by (simp add: Random_ok_def Random_loop_step [of r L rnd q ci k w] Let_def)
qed

text \<open>The group with any number of queries in flight.\<close>

inductive Random_step :: "'w Random \<Rightarrow> 'w Random \<Rightarrow> bool" where
  route: "Random_step r (r\<lparr>rn_metrics := count_route name (rn_metrics r)\<rparr>)"
| failure: "Random_step r (r\<lparr>rn_metrics := count_failure name (rn_metrics r)\<rparr>)"
| deactivate: "Random_step r (Random_deactivate r i)"
| reactivate: "k < length (rn_sleeping r) \<Longrightarrow> Random_step r (Random_reactivate r k)"

inductive_cases Random_stepE: "Random_step r r'"

definition Random_inv :: "'w resolver list \<Rightarrow> 'w Random \<Rightarrow> bool" where
  "Random_inv rs r \<longleftrightarrow>
     rn_all r = rs \<and>
     mset (rn_resolvers r) + mset (rn_sleeping r) = mset [0..<length rs] \<and>
     mt_available (rn_metrics r) = int (length (rn_resolvers r))"

lemma mset_filter_split: "mset (filter (\<lambda>x. x \<noteq> i) xs) + mset (filter (\<lambda>x. x = i) xs) = mset xs"
  by (induction xs) auto

lemma Random_available_deactivate:
  "mt_available (rn_metrics r) = int (length (rn_resolvers r)) \<Longrightarrow>
   mt_available (rn_metrics (Random_deactivate r i)) = int (length (rn_resolvers (Random_deactivate r i)))"
  by (simp add: Random_deactivate_def Let_def)

lemma Random_inv_deactivate: "Random_inv rs r \<Longrightarrow> Random_inv rs (Random_deactivate r i)"
  using mset_filter_split [of i "rn_resolvers r"]
  by (simp add: Random_inv_def Random_available_deactivate del: mset_filter)
     (metis (no_types) add.assoc add.commute)

lemma mset_remove_nth: "k < length xs \<Longrightarrow> mset (take k xs @ drop (Suc k) xs) + {#xs ! k#} = mset xs"
  by (metis add_mset_add_single id_take_nth_drop mset.simps(2) mset_append union_mset_add_mset_right)

lemma Random_inv_reactivate:
  "Random_inv rs r \<Longrightarrow> k < length (rn_sleeping r) \<Longrightarrow> Random_inv rs (Random_reactivate r k)"
  using mset_remove_nth [of k "rn_sleeping r"]
  by (simp add: Random_inv_def Random_reactivate_def Let_def)
     (metis add_mset_add_single union_mset_add_mset_left union_mset_add_mset_right)

lemma Random_inv_step: "Random_step r r' \<Longrightarrow> Random_inv rs r \<Longrightarrow> Random_inv rs r'"
  by (erule Random_stepE)
     (auto simp: Random_inv_deactivate Random_inv_reactivate,
      auto simp: Random_inv_def count_route_def count_failure_def)

interpretation random_steps: step_invariant Random_step "Random_inv rs" for rs
  by unfold_locales (rule Random_inv_step)

lemmas Random_inv_steps = random_steps.steps_inv

lemma Random_inv_init: "Random_inv resolvers (NewRandom sf ee resolvers)"
  by (simp add: Random_inv_def NewRandom_def newFailRouterMetrics_def)

text \<open>
  A random group with an active resolver that always gives a good reply gives a good reply,
  whatever random numbers are drawn; the loop ends because every failed resolver leaves the group.
\<close>

theorem Random_answers:
  assumes "i \<in> set (rn_resolvers r)"
    "\<And>w. good_reply L (rn_ServfailError r) (rn_EmptyError r) (fst (r_Resolve (rn_all r ! i) q ci w))"
  shows "good_reply L (rn_ServfailError r) (rn_EmptyError r) (fst (Random_Resolve L rnd r q ci w))"
  using random.some_good_reply [of "rn_all r" "rn_ServfailError r" "rn_EmptyError r" "(0, r)" i L q ci rnd w]
    assms
  by (simp add: Random_ok_def Random_Resolve_def)

theorem Random_answers_witness:
  "good_reply ref_lib True False
     (fst (Random_Resolve ref_lib (\<lambda>k. 7 * k)
        (NewRandom True False [ref_failing ''a'', ref_answering ''b'', ref_failing ''c''])
        (ref_query ''x.'' TypeA) ref_client ()))"
  using Random_answers [of 1 "NewRandom True False
      [ref_failing ''a'', ref_answering ''b'', ref_failing ''c'']" ref_lib
      "ref_query ''x.'' TypeA" ref_client "\<lambda>k. 7 * k" "()"]
  by (simp add: NewRandom_def)

text \<open>
  A random group never loses a resolver and never has one twice. In every state reachable by any
  interleaving of failures and of waking goroutines, the active resolvers together with the ones
  waiting to come back are the resolvers the group was made with, each once, and the gauge shows
  the number of active ones.
\<close>

theorem Random_conserves:
  assumes "Random_step\<^sup>*\<^sup>* (NewRandom sf ee resolvers) r"
  shows "mset (rn_resolvers r) + mset (rn_sleeping r) = mset [0..<length resolvers] \<and>
    distinct (rn_resolvers r @ rn_sleeping r) \<and>
    mt_available (rn_metrics r) = int (length (rn_resolvers r))"
proof -
  have inv: "Random_inv resolvers r"
    by (rule Random_inv_steps [OF assms Random_inv_init])
  then have "mset (rn_resolvers r @ rn_sleeping r) = mset [0..<length resolvers]"
    by (simp add: Random_inv_def)
  then have "distinct (rn_resolvers r @ rn_sleeping r)"
    by (metis distinct_upt mset_eq_imp_distinct_iff)
  with inv show ?thesis by (simp add: Random_inv_def)
qed

theorem Random_conserves_witness:
  "distinct (rn_resolvers (Random_deactivate (NewRandom False False [ref_failing ''a'', ref_answering ''b'']) 0) @
             rn_sleeping (Random_deactivate (NewRandom False False [ref_failing ''a'', ref_answering ''b'']) 0))"
proof -
  let ?r = "NewRandom False False [ref_failing ''a'', ref_answering ''b'']"
  have "Random_step ?r (Random_deactivate ?r 0)"
    by (rule Random_step.deactivate)
  from Random_conserves [OF r_into_rtranclp [of Random_step, OF this]] show ?thesis
    by blast
qed

section \<open>Fastest\<close>

record 'w Fastest =
  fs_resolvers :: "'w resolver list"

definition NewFastest :: "'w resolver list \<Rightarrow> 'w Fastest" where
  "NewFastest resolvers = \<lparr>fs_resolvers = resolvers\<rparr>"

definition Fastest_success :: "reply \<Rightarrow> bool" where
  "Fastest_success ae \<longleftrightarrow>
     snd ae = None \<and> (case fst ae of None \<Rightarrow> True | Some a \<Rightarrow> m_Rcode a \<noteq> RcodeServerFailure)"

text \<open>
  The replies in the order in which they arrive in the channel, which is any order: \<open>order\<close> lists the
  resolvers by arrival.
\<close>

fun Fastest_responses ::
  "'w Fastest \<Rightarrow> nat list \<Rightarrow> Msg \<Rightarrow> ClientInfo \<Rightarrow> 'w \<Rightarrow> reply list \<times> 'w" where
  "Fastest_responses r [] q ci w = ([], w)"
| "Fastest_responses r (i # order) q ci w =
     (let (ae, w1) = r_Resolve (fs_resolvers r ! i) q ci w;
          (aes, w2) = Fastest_responses r order q ci w1
      in (ae # aes, w2))"

text \<open>
  The loop that reads the channel, \<open>i\<close> being its counter of bad replies. Nothing closes the channel,
  so a read from it when no reply is left never returns (\<^const>\<open>None\<close>).
\<close>

fun Fastest_loop :: "nat \<Rightarrow> nat \<Rightarrow> reply list \<Rightarrow> reply option" where
  "Fastest_loop n i [] = None"
| "Fastest_loop n i (ae # aes) =
     (if Fastest_success ae then Some ae
      else if n \<le> Suc i then Some ae
      else Fastest_loop n (Suc i) aes)"

definition Fastest_Resolve ::
  "'w Fastest \<Rightarrow> nat list \<Rightarrow> Msg \<Rightarrow> ClientInfo \<Rightarrow> 'w \<Rightarrow> reply option \<times> 'w" where
  "Fastest_Resolve r order q ci w =
     (case Fastest_responses r order q ci w of
        (aes, w') \<Rightarrow> (Fastest_loop (length (fs_resolvers r)) 0 aes, w'))"

lemma length_Fastest_responses: "length (fst (Fastest_responses r order q ci w)) = length order"
  by (induction r order q ci w rule: Fastest_responses.induct) (auto split: prod.splits)

lemma Fastest_responses_mem:
  "i \<in> set order \<Longrightarrow> \<exists>w'. fst (r_Resolve (fs_resolvers r ! i) q ci w') \<in> set (fst (Fastest_responses r order q ci w))"
proof (induction r order q ci w rule: Fastest_responses.induct)
  case (2 r j order q ci w)
  obtain ae w1 where a: "r_Resolve (fs_resolvers r ! j) q ci w = (ae, w1)" by fastforce
  show ?case
  proof (cases "i = j")
    case True
    with a show ?thesis by (auto split: prod.splits intro!: exI [of _ w])
  next
    case False
    with 2 a show ?thesis by (fastforce split: prod.splits)
  qed
qed simp

lemma Fastest_loop_eq:
  "aes \<noteq> [] \<Longrightarrow> i + length aes = n \<Longrightarrow>
   Fastest_loop n i aes = Some (case find Fastest_success aes of Some ae \<Rightarrow> ae | None \<Rightarrow> last aes)"
  by (induction n i aes rule: Fastest_loop.induct) (auto split: option.splits)

text \<open>
  C10: the fastest group returns the first successful reply in order of arrival, and the last reply
  when none is successful; so it always returns when it has a resolver, and its reply is a success
  if any resolver's is.
\<close>

theorem Fastest_first_success:
  assumes "mset order = mset [0..<length (fs_resolvers r)]" "fs_resolvers r \<noteq> []"
    "Fastest_responses r order q ci w = (aes, w')"
  shows "fst (Fastest_Resolve r order q ci w) =
      Some (case find Fastest_success aes of Some ae \<Rightarrow> ae | None \<Rightarrow> last aes) \<and>
    ((\<exists>ae \<in> set aes. Fastest_success ae) \<longrightarrow>
       (\<exists>ae. fst (Fastest_Resolve r order q ci w) = Some ae \<and> Fastest_success ae))"
proof -
  have "length aes = length (fs_resolvers r)"
    using length_Fastest_responses [of r order q ci w] mset_eq_length [OF assms(1)] assms(3) by simp
  with assms(2) have "Fastest_loop (length (fs_resolvers r)) 0 aes =
      Some (case find Fastest_success aes of Some ae \<Rightarrow> ae | None \<Rightarrow> last aes)"
    by (intro Fastest_loop_eq) auto
  then show ?thesis
    using assms(3) by (auto simp: Fastest_Resolve_def find_None_iff find_Some_iff split: option.splits)
qed

theorem Fastest_first_success_witness:
  "fst (Fastest_Resolve (NewFastest [ref_answering ''a'', ref_failing ''b'', ref_failing ''c''])
      [2, 0, 1] (ref_query ''x.'' TypeA) ref_client ()) =
   Some (Some (ref_SetReply new_Msg (ref_query ''x.'' TypeA)), None)"
  using Fastest_first_success [of "[2, 0, 1]"
      "NewFastest [ref_answering ''a'', ref_failing ''b'', ref_failing ''c'']"
      "ref_query ''x.'' TypeA" ref_client "()", OF _ _ surjective_pairing]
  by (simp add: NewFastest_def Fastest_success_def ref_SetReply_def upt_conv_Cons add_mset_commute)

end
