(* ===== verification/LoadBalance.thy ===== *)
theory LoadBalance
  imports ResolverGroups Complex_Main
begin

text \<open>
  \<^verbatim>\<open>loadbalance.go\<close>: a resolver group that prefers the resolvers with the lower average response time.
  The arithmetic of \<^verbatim>\<open>float64\<close> is a record of operations, so that what is shown does not depend on
  rounding.
\<close>

section \<open>Floating point numbers and time\<close>

text \<open>\<open>f_lit n d\<close> is the constant n/d, \<open>f_trunc\<close> the conversion to an integer.\<close>

record 'f float64 =
  f_lit :: "int \<Rightarrow> int \<Rightarrow> 'f"
  f_add :: "'f \<Rightarrow> 'f \<Rightarrow> 'f"
  f_sub :: "'f \<Rightarrow> 'f \<Rightarrow> 'f"
  f_mul :: "'f \<Rightarrow> 'f \<Rightarrow> 'f"
  f_div :: "'f \<Rightarrow> 'f \<Rightarrow> 'f"
  f_less :: "'f \<Rightarrow> 'f \<Rightarrow> bool"
  f_leq :: "'f \<Rightarrow> 'f \<Rightarrow> bool"
  f_max :: "'f \<Rightarrow> 'f \<Rightarrow> 'f"
  f_trunc :: "'f \<Rightarrow> int"

text \<open>The conversion of an integer.\<close>

abbreviation f_int :: "'f float64 \<Rightarrow> int \<Rightarrow> 'f" where "f_int F n \<equiv> f_lit F n 1"

abbreviation (input) Microsecond :: int where "Microsecond \<equiv> 1000"
abbreviation (input) defaultLoadBalanceInitialRTT :: int where "defaultLoadBalanceInitialRTT \<equiv> 100000 * Microsecond"
abbreviation (input) defaultLoadBalanceMinimumRTTSample :: int where "defaultLoadBalanceMinimumRTTSample \<equiv> Microsecond"
abbreviation (input) defaultLoadBalanceMinimumWeightRTT :: int where "defaultLoadBalanceMinimumWeightRTT \<equiv> 1000 * Microsecond"
abbreviation (input) loadBalancePenaltyThreshold :: int where "loadBalancePenaltyThreshold \<equiv> 2"

text \<open>\<^verbatim>\<open>d.Microseconds()\<close> of a duration that is not negative.\<close>

definition Microseconds :: "int \<Rightarrow> int" where
  "Microseconds d = d div Microsecond"

section \<open>State\<close>

record 'f loadBalanceStats =
  ls_rttEMA :: 'f
  ls_count :: int
  ls_consecFails :: "32 word"
  ls_emaInflated :: bool

record LoadBalanceOptions =
  lo_FailurePenalty :: int
  lo_ServfailError :: bool
  lo_EmptyError :: bool

record ('w, 'f) LoadBalance =
  lb_resolvers :: "'w resolver list"
  lb_stats :: "'f loadBalanceStats list"
  lb_opt :: LoadBalanceOptions
  lb_metrics :: failRouterMetrics
  lb_rttVars :: "'f list"

definition NewLoadBalance :: "'f float64 \<Rightarrow> LoadBalanceOptions \<Rightarrow> 'w resolver list \<Rightarrow> ('w, 'f) LoadBalance" where
  "NewLoadBalance F opt resolvers =
     \<lparr>lb_resolvers = resolvers,
      lb_stats = replicate (length resolvers) \<lparr>ls_rttEMA = f_int F 0, ls_count = 0, ls_consecFails = 0, ls_emaInflated = False\<rparr>,
      lb_opt = opt, lb_metrics = newFailRouterMetrics (int (length resolvers)), lb_rttVars = replicate (length resolvers) (f_int F 0)\<rparr>"

definition clamp_sample :: "int \<Rightarrow> int" where
  "clamp_sample d = (if d < defaultLoadBalanceMinimumRTTSample then defaultLoadBalanceMinimumRTTSample else d)"

text \<open>The average after another sample: 0.1 of the sample and 0.9 of the average.\<close>

definition new_ema :: "'f float64 \<Rightarrow> 'f \<Rightarrow> 'f \<Rightarrow> 'f" where
  "new_ema F us ema = f_add F (f_mul F (f_lit F 1 10) us) (f_mul F (f_lit F 9 10) ema)"

definition set_stats :: "nat \<Rightarrow> 'f loadBalanceStats \<Rightarrow> ('w, 'f) LoadBalance \<Rightarrow> ('w, 'f) LoadBalance" where
  "set_stats idx s r = r\<lparr>lb_stats := (lb_stats r)[idx := s], lb_rttVars := (lb_rttVars r)[idx := ls_rttEMA s]\<rparr>"

definition updateOnSuccess :: "'f float64 \<Rightarrow> nat \<Rightarrow> int \<Rightarrow> ('w, 'f) LoadBalance \<Rightarrow> ('w, 'f) LoadBalance" where
  "updateOnSuccess F idx d r =
     (let us = f_int F (Microseconds (clamp_sample d)); s = lb_stats r ! idx
      in set_stats idx
           (s\<lparr>ls_consecFails := 0,
              ls_rttEMA := (if ls_count s = 0 \<or> ls_emaInflated s then us else new_ema F us (ls_rttEMA s)),
              ls_emaInflated := False, ls_count := ls_count s + 1\<rparr>) r)"

definition updateOnFailure :: "'f float64 \<Rightarrow> nat \<Rightarrow> int \<Rightarrow> ('w, 'f) LoadBalance \<Rightarrow> ('w, 'f) LoadBalance" where
  "updateOnFailure F idx elapsed r =
     (let s = lb_stats r ! idx; fails = ls_consecFails s + 1;
          penalize = (0 < lo_FailurePenalty (lb_opt r) \<and> loadBalancePenaltyThreshold \<le> sint fails);
          d = clamp_sample (if penalize then lo_FailurePenalty (lb_opt r) else elapsed);
          us = f_int F (Microseconds d);
          ema = new_ema F us (ls_rttEMA s);
          raise = (penalize \<or> f_less F (ls_rttEMA s) ema)
      in set_stats idx
           (s\<lparr>ls_consecFails := fails,
              ls_rttEMA := (if ls_count s = 0 then f_max F us (f_int F (Microseconds defaultLoadBalanceInitialRTT))
                            else if raise then ema else ls_rttEMA s),
              ls_emaInflated := (if ls_count s = 0 \<or> raise then True else ls_emaInflated s),
              ls_count := ls_count s + 1\<rparr>) r)"

section \<open>Choice of a resolver\<close>

definition weight_of :: "'f float64 \<Rightarrow> 'f loadBalanceStats \<Rightarrow> 'f" where
  "weight_of F s =
     (if 0 < ls_count s \<and> f_less F (f_int F 0) (ls_rttEMA s)
      then f_div F (f_int F (Microseconds defaultLoadBalanceInitialRTT))
             (f_max F (ls_rttEMA s) (f_int F (Microseconds defaultLoadBalanceMinimumWeightRTT)))
      else f_lit F 1 1)"

text \<open>The loop over the weights, from position \<open>i\<close>; past the end it is the last position.\<close>

fun select_loop :: "'f float64 \<Rightarrow> 'f \<Rightarrow> nat \<Rightarrow> 'f list \<Rightarrow> nat" where
  "select_loop F selected i [] = i - 1"
| "select_loop F selected i (weight # weights) =
     (let selected' = f_sub F selected weight
      in if f_leq F selected' (f_int F 0) then i else select_loop F selected' (Suc i) weights)"

text \<open>\<open>x\<close> and \<open>y\<close> are the two random numbers a pick draws.\<close>

definition LoadBalance_pick :: "'f float64 \<Rightarrow> 'f \<Rightarrow> 'f \<Rightarrow> ('w, 'f) LoadBalance \<Rightarrow> nat list \<Rightarrow> int" where
  "LoadBalance_pick F x y r remaining =
     (if f_less F x (f_lit F 5 100) then f_trunc F (f_mul F y (f_int F (int (length remaining))))
      else let weights = map (\<lambda>idx. weight_of F (lb_stats r ! idx)) remaining;
               total = fold (\<lambda>weight total. f_add F total weight) weights (f_int F 0)
           in int (select_loop F (f_mul F y total) 0 weights))"

definition remove_at :: "nat \<Rightarrow> nat list \<Rightarrow> nat list" where
  "remove_at pos remaining = butlast (remaining[pos := last remaining])"

lemma length_remove_at [simp]: "length (remove_at pos xs) = length xs - 1"
  by (simp add: remove_at_def)

definition LoadBalance_failed :: "'f float64 \<Rightarrow> nat \<Rightarrow> int \<Rightarrow> ('w, 'f) LoadBalance \<Rightarrow> ('w, 'f) LoadBalance" where
  "LoadBalance_failed F idx elapsed r =
     (let name = r_String (lb_resolvers r ! idx); m = count_failure name (count_route name (lb_metrics r))
      in updateOnFailure F idx elapsed (r\<lparr>lb_metrics := m\<lparr>mt_failover := Suc (mt_failover m)\<rparr>\<rparr>))"

text \<open>
  The loop of \<^verbatim>\<open>Resolve\<close>: \<open>rnd\<close> are the random numbers, \<open>el\<close> the response times of the attempts. A
  position out of range panics.
\<close>

function LoadBalance_loop ::
  "dnslib \<Rightarrow> 'f float64 \<Rightarrow> (nat \<Rightarrow> 'f) \<Rightarrow> (nat \<Rightarrow> int) \<Rightarrow> Msg \<Rightarrow> ClientInfo \<Rightarrow> nat \<Rightarrow> nat list \<Rightarrow> ('w, 'f) LoadBalance \<Rightarrow> 'w \<Rightarrow> reply \<Rightarrow>
   reply \<times> ('w, 'f) LoadBalance \<times> 'w" where
  "LoadBalance_loop L F rnd el q ci k remaining r w ae =
     (if remaining = []
      then ((if ae = (None, None) then (None, Some ErrNoActiveResolvers) else ae), r, w)
      else let pos = LoadBalance_pick F (rnd (2 * k)) (rnd (2 * k + 1)) r remaining
           in if pos < 0 \<or> int (length remaining) \<le> pos then (panic, r, w)
              else let idx = remaining ! nat pos; (ae', w') = r_Resolve (lb_resolvers r ! idx) q ci w
                   in if good_reply L (lo_ServfailError (lb_opt r)) (lo_EmptyError (lb_opt r)) ae'
                      then (ae', updateOnSuccess F idx (el k)
                                   (r\<lparr>lb_metrics := count_route (r_String (lb_resolvers r ! idx)) (lb_metrics r)\<rparr>), w')
                      else LoadBalance_loop L F rnd el q ci (Suc k) (remove_at (nat pos) remaining)
                             (LoadBalance_failed F idx (el k) r) w' ae')"
  by pat_completeness auto
termination
  by (relation "measure (\<lambda>(L, F, rnd, el, q, ci, k, remaining, r, w, ae). length remaining)") auto

declare LoadBalance_loop.simps [simp del]

definition LoadBalance_Resolve ::
  "dnslib \<Rightarrow> 'f float64 \<Rightarrow> (nat \<Rightarrow> 'f) \<Rightarrow> (nat \<Rightarrow> int) \<Rightarrow> ('w, 'f) LoadBalance \<Rightarrow> Msg \<Rightarrow> ClientInfo \<Rightarrow> 'w \<Rightarrow> reply \<times> ('w, 'f) LoadBalance \<times> 'w" where
  "LoadBalance_Resolve L F rnd el r q ci w =
     LoadBalance_loop L F rnd el q ci 0 [0..<length (lb_resolvers r)] r w (None, None)"

section \<open>Failover\<close>

text \<open>Documented: the random numbers are at least 0 and below 1, so the product is below the number.\<close>

definition rand_law :: "'f float64 \<Rightarrow> (nat \<Rightarrow> 'f) \<Rightarrow> bool" where
  "rand_law F rnd \<longleftrightarrow>
     (\<forall>k n. 0 < n \<longrightarrow> 0 \<le> f_trunc F (f_mul F (rnd k) (f_int F n)) \<and> f_trunc F (f_mul F (rnd k) (f_int F n)) < n)"

lemma select_loop_range: "weights \<noteq> [] \<Longrightarrow> i \<le> select_loop F x i weights \<and> select_loop F x i weights < i + length weights"
proof (induction F x i weights rule: select_loop.induct)
  case (2 F x i weight weights)
  then show ?case by (cases weights) (fastforce simp: Let_def)+
qed simp

lemma LoadBalance_pick_range:
  assumes "rand_law F rnd" "remaining \<noteq> []"
  shows "0 \<le> LoadBalance_pick F x (rnd k) r remaining \<and> LoadBalance_pick F x (rnd k) r remaining < int (length remaining)"
proof -
  have "select_loop F (f_mul F (rnd k) t) 0 (map (\<lambda>idx. weight_of F (lb_stats r ! idx)) remaining) < length remaining" for t
    using select_loop_range [of "map (\<lambda>idx. weight_of F (lb_stats r ! idx)) remaining" 0] assms(2) by simp
  then show ?thesis using assms by (auto simp: LoadBalance_pick_def rand_law_def Let_def)
qed

lemma set_remove_at: "distinct xs \<Longrightarrow> pos < length xs \<Longrightarrow> set (remove_at pos xs) = set xs - {xs ! pos} \<and> distinct (remove_at pos xs)"
proof (cases xs rule: rev_cases)
  case (snoc ys y)
  moreover assume "distinct xs" "pos < length xs"
  ultimately show ?thesis
    by (cases "pos = length ys") (auto simp: remove_at_def butlast_append nth_append list_update_append set_update_distinct distinct_list_update
        split: if_splits)
qed simp

lemma set_stats_simps [simp]:
  "lb_resolvers (set_stats i s r) = lb_resolvers r" "lb_opt (set_stats i s r) = lb_opt r"
  by (simp_all add: set_stats_def)

lemma LoadBalance_failed_simps [simp]:
  "lb_resolvers (LoadBalance_failed F i e r) = lb_resolvers r" "lb_opt (LoadBalance_failed F i e r) = lb_opt r"
  by (simp_all add: LoadBalance_failed_def updateOnFailure_def Let_def)

definition lb_choice :: "'f float64 \<Rightarrow> (nat \<Rightarrow> 'f) \<Rightarrow> nat \<times> nat list \<times> ('w, 'f) LoadBalance \<Rightarrow> nat" where
  "lb_choice F rnd = (\<lambda>(k, remaining, r). nat (LoadBalance_pick F (rnd (2 * k)) (rnd (2 * k + 1)) r remaining))"

definition lb_ok :: "'f float64 \<Rightarrow> (nat \<Rightarrow> 'f) \<Rightarrow> 'w resolver list \<Rightarrow> bool \<Rightarrow> bool \<Rightarrow> nat \<times> nat list \<times> ('w, 'f) LoadBalance \<Rightarrow> bool" where
  "lb_ok F rnd rs sf ee = (\<lambda>(k, remaining, r). rand_law F rnd \<and> distinct remaining \<and> lb_resolvers r = rs \<and>
     lo_ServfailError (lb_opt r) = sf \<and> lo_EmptyError (lb_opt r) = ee)"

lemma lb_choice_range: "lb_ok F rnd rs sf ee (k, remaining, r) \<Longrightarrow> remaining \<noteq> [] \<Longrightarrow> lb_choice F rnd (k, remaining, r) < length remaining"
  using LoadBalance_pick_range [of F rnd remaining "rnd (2 * k)" "2 * k + 1" r] by (auto simp: lb_choice_def lb_ok_def)

lemma lb_remove:
  assumes "lb_ok F rnd rs sf ee (k, remaining, r)" "remaining \<noteq> []"
  shows "set (remove_at (lb_choice F rnd (k, remaining, r)) remaining) = set remaining - {remaining ! lb_choice F rnd (k, remaining, r)}"
    "lb_ok F rnd rs sf ee (Suc k, remove_at (lb_choice F rnd (k, remaining, r)) remaining, LoadBalance_failed F i e r)"
proof -
  have "distinct remaining" using assms(1) by (simp add: lb_ok_def)
  note rm = set_remove_at [OF this lb_choice_range [OF assms]]
  then show "set (remove_at (lb_choice F rnd (k, remaining, r)) remaining) = set remaining - {remaining ! lb_choice F rnd (k, remaining, r)}"
    by simp
  show "lb_ok F rnd rs sf ee (Suc k, remove_at (lb_choice F rnd (k, remaining, r)) remaining, LoadBalance_failed F i e r)"
    using rm assms(1) by (simp add: lb_ok_def)
qed

lemma LoadBalance_loop_step:
  assumes "lb_ok F rnd rs sf ee (k, remaining, r)" "remaining \<noteq> []"
  shows "LoadBalance_loop L F rnd el q ci k remaining r w ae =
    (let idx = remaining ! lb_choice F rnd (k, remaining, r) in
     case r_Resolve (rs ! idx) q ci w of (ae', w') \<Rightarrow>
       if good_reply L sf ee ae'
       then (ae', updateOnSuccess F idx (el k) (r\<lparr>lb_metrics := count_route (r_String (lb_resolvers r ! idx)) (lb_metrics r)\<rparr>), w')
       else LoadBalance_loop L F rnd el q ci (Suc k) (remove_at (lb_choice F rnd (k, remaining, r)) remaining) (LoadBalance_failed F idx (el k) r) w' ae')"
proof -
  from assms(1) have eq: "lb_resolvers r = rs" "lo_ServfailError (lb_opt r) = sf" "lo_EmptyError (lb_opt r) = ee" and law: "rand_law F rnd"
    by (simp_all add: lb_ok_def)
  note range = LoadBalance_pick_range [OF law assms(2), of "rnd (2 * k)" "2 * k + 1" r]
  then have "\<not> (LoadBalance_pick F (rnd (2 * k)) (rnd (2 * k + 1)) r remaining < 0 \<or>
      int (length remaining) \<le> LoadBalance_pick F (rnd (2 * k)) (rnd (2 * k + 1)) r remaining)"
    by linarith
  then show ?thesis
    using assms(2) eq by (subst LoadBalance_loop.simps) (simp only: if_False Let_def lb_choice_def split)
qed

interpretation loadbalance: failover_group
  "lb_ok F rnd rs sf ee"
  "\<lambda>(k, remaining, r). set remaining"
  "\<lambda>(k, remaining, r). remaining ! lb_choice F rnd (k, remaining, r)"
  "\<lambda>i. r_Resolve (rs ! i) q ci"
  "good_reply L sf ee"
  "\<lambda>(k, remaining, r). (Suc k, remove_at (lb_choice F rnd (k, remaining, r)) remaining,
     LoadBalance_failed F (remaining ! lb_choice F rnd (k, remaining, r)) (el k) r)"
  "\<lambda>(k, remaining, r) w ae. fst (LoadBalance_loop L F rnd el q ci k remaining r w ae)"
  "\<lambda>ae. if ae = (None, None) then (None, Some ErrNoActiveResolvers) else ae"
  for F rnd el L sf ee q ci and rs :: "'w resolver list"
proof (unfold_locales, goal_cases)
  case (1 s)
  then show ?case by (cases s) simp
next
  case (2 s)
  then show ?case by (cases s) (auto intro!: nth_mem lb_choice_range)
next
  case (3 s)
  then show ?case by (cases s) (auto simp: lb_remove)
next
  case (4 s)
  then show ?case by (cases s) (auto simp: lb_remove)
next
  case (5 s w ae)
  then show ?case by (cases s) (auto simp: LoadBalance_loop.simps)
next
  case (6 s w ae' w' ae)
  then show ?case by (cases s) (auto simp: LoadBalance_loop_step Let_def)
next
  case (7 s w ae' w' ae)
  then show ?case by (cases s) (auto simp: LoadBalance_loop_step Let_def)
qed

text \<open>
  C9: A load-balancing group in which some resolver always replies well replies well, whatever the measured
  response times, the penalties, the random numbers and the rounding of the weights are: no resolver is asked
  twice for a query and each is asked before the group gives up.
\<close>

theorem LoadBalance_answers:
  assumes "rand_law F rnd" "i < length (lb_resolvers r)"
    "\<And>w. good_reply L (lo_ServfailError (lb_opt r)) (lo_EmptyError (lb_opt r)) (fst (r_Resolve (lb_resolvers r ! i) q ci w))"
  shows "good_reply L (lo_ServfailError (lb_opt r)) (lo_EmptyError (lb_opt r)) (fst (LoadBalance_Resolve L F rnd el r q ci w))"
  using loadbalance.some_good_reply [of F rnd "lb_resolvers r" _ _ "(0, [0..<length (lb_resolvers r)], r)" i L q ci] assms
  by (auto simp: LoadBalance_Resolve_def lb_ok_def)

definition ref_float :: "rat float64" where
  "ref_float =
     \<lparr>f_lit = (\<lambda>n d. of_int n / of_int d), f_add = (+), f_sub = (-), f_mul = (*), f_div = (/), f_less = (<), f_leq = (\<le>),
      f_max = max, f_trunc = floor\<rparr>"

lemma ref_float_law: "rand_law ref_float (\<lambda>k. 1 / 2)"
  by (auto simp: rand_law_def ref_float_def floor_less_iff)

theorem LoadBalance_answers_witness:
  "good_reply ref_lib True False
     (fst (LoadBalance_Resolve ref_lib ref_float (\<lambda>k. 1 / 2) (\<lambda>k. 1000000)
        (NewLoadBalance ref_float \<lparr>lo_FailurePenalty = 0, lo_ServfailError = True, lo_EmptyError = False\<rparr>
           [ref_failing ''a'', ref_answering ''b'', ref_failing ''c''])
        (ref_query ''x.'' TypeA) ref_client ()))"
  using LoadBalance_answers [OF ref_float_law, of 1 "NewLoadBalance ref_float \<lparr>lo_FailurePenalty = 0, lo_ServfailError = True, lo_EmptyError = False\<rparr>
      [ref_failing ''a'', ref_answering ''b'', ref_failing ''c'']" ref_lib "ref_query ''x.'' TypeA" ref_client "\<lambda>k. 1000000" "()"]
  by (simp add: NewLoadBalance_def)

end
