(* ===== verification/CacheBlob.thy ===== *)
theory CacheBlob
  imports RefLib
begin

text \<open>
  The stored form of a cache entry: \<^verbatim>\<open>cache-blob.go\<close>, with the keys and answers of \<^verbatim>\<open>lru-cache.go\<close>. A
  blob is a byte string with the metadata at fixed offsets, then the key and the packed message.
\<close>

section \<open>Times\<close>

text \<open>
  A \<^verbatim>\<open>time.Time\<close> is \<^const>\<open>None\<close> for the zero time, otherwise its distance from the Unix epoch in nanoseconds.
  The stored form is an \<^verbatim>\<open>int64\<close>, kept as a 64-bit word that is read with its sign.
\<close>

type_synonym Time = "int option"

definition unixNano :: "Time \<Rightarrow> u64" where
  "unixNano t = (case t of None \<Rightarrow> 0 | Some n \<Rightarrow> word_of_int n)"

definition nanoTime :: "u64 \<Rightarrow> Time" where
  "nanoTime n = (if n = 0 then None else Some (sint n))"

text \<open>The times that survive the stored form: in range and not the epoch itself, which reads as zero.\<close>

definition time_ok :: "Time \<Rightarrow> bool" where
  "time_ok t \<longleftrightarrow> (case t of None \<Rightarrow> True | Some n \<Rightarrow> n \<noteq> 0 \<and> - (2 ^ 63) \<le> n \<and> n < 2 ^ 63)"

lemma sint_word_of_int_64:
  "- (2 ^ 63) \<le> n \<Longrightarrow> n < 2 ^ 63 \<Longrightarrow> sint (word_of_int n :: u64) = n"
  by (simp add: signed_take_bit_int_eq_self sint_sbintrunc' )

lemma nanoTime_unixNano: "time_ok t \<Longrightarrow> nanoTime (unixNano t) = t"
proof (cases t)
  case (Some n)
  assume "time_ok t"
  with Some have s: "sint (word_of_int n :: u64) = n" and "n \<noteq> 0"
    by (simp_all add: time_ok_def sint_word_of_int_64)
  then have "(word_of_int n :: u64) \<noteq> 0" by (metis sint_0)
  with s Some show ?thesis by (simp add: nanoTime_def unixNano_def)
qed (simp add: nanoTime_def unixNano_def)

section \<open>Keys and answers\<close>

record lruKey =
  k_Question :: Question
  k_Net :: string
  k_Do :: bool
  k_CD :: bool
  k_ECSMask :: u8

record cacheAnswer =
  ca_Timestamp :: Time
  ca_Expiry :: Time
  ca_PrefetchEligible :: bool
  ca_Msg :: "Msg option"

definition ecs_key :: "lruKey \<Rightarrow> EDNS0 \<Rightarrow> lruKey" where
  "ecs_key key opt =
     (case opt of
        EDNS0_SUBNET f netmask sc address \<Rightarrow> key\<lparr>k_Net := IP_String address, k_ECSMask := netmask\<rparr>
      | _ \<Rightarrow> key)"

text \<open>\<^verbatim>\<open>lruKeyFromQuery\<close>; an empty question section is an index out of range (\<^const>\<open>None\<close>).\<close>

definition lruKeyFromQuery :: "dnslib \<Rightarrow> Msg \<Rightarrow> lruKey option" where
  "lruKeyFromQuery L q =
     (case m_Question q of
        [] \<Rightarrow> None
      | question # _ \<Rightarrow>
          let key = \<lparr>k_Question = question\<lparr>q_Name := ToLower (q_Name question)\<rparr>, k_Net = [],
                     k_Do = False, k_CD = m_CheckingDisabled q, k_ECSMask = 0\<rparr>
          in Some (case edns0_of L q of
                     None \<Rightarrow> key
                   | Some edns0 \<Rightarrow> foldl ecs_key (key\<lparr>k_Do := OPT_Do L edns0\<rparr>) (opt_Option (rr_Data edns0))))"

section \<open>The layout\<close>

type_synonym cacheBlob = "u8 list"

abbreviation (input) blobVersion :: u8 where "blobVersion \<equiv> 2"
abbreviation (input) blobHdrLen :: nat where "blobHdrLen \<equiv> 28"

definition keyFlags :: "lruKey \<Rightarrow> u8" where
  "keyFlags key = (if k_Do key then 1 else 0) OR (if k_CD key then 2 else 0)"

definition newCacheBlobFromWire :: "lruKey \<Rightarrow> cacheAnswer \<Rightarrow> u8 list \<Rightarrow> go_error + cacheBlob" where
  "newCacheBlobFromWire key meta wire =
     (let name = q_Name (k_Question key) in
      if 65535 < length name then Inl (ErrOther ''question name too long to cache'')
      else if 65535 < length (k_Net key) then Inl (ErrOther ''ECS address too long to cache'')
      else Inr
        ([blobVersion, if ca_PrefetchEligible meta then 1 else 0] @
         PutUint64 (unixNano (ca_Timestamp meta)) @
         PutUint64 (unixNano (ca_Expiry meta)) @
         [keyFlags key] @
         PutUint16 (q_Qtype (k_Question key)) @
         PutUint16 (q_Qclass (k_Question key)) @
         [k_ECSMask key] @
         PutUint16 (of_nat (length (k_Net key))) @
         PutUint16 (of_nat (length name)) @
         bytes_of (k_Net key) @ bytes_of name @ wire))"

definition newCacheBlob :: "dnslib \<Rightarrow> lruKey \<Rightarrow> cacheAnswer \<Rightarrow> go_error + cacheBlob" where
  "newCacheBlob L key a =
     (case ca_Msg a of
        None \<Rightarrow> Inl (ErrOther ''cache item has no message'')
      | Some m \<Rightarrow>
          (case Pack L m of
             None \<Rightarrow> Inl (ErrOther ''pack'')
           | Some wire \<Rightarrow> newCacheBlobFromWire key a wire))"

text \<open>The accessors. Each is a slice at a fixed offset, valid under \<open>blob_ok\<close> below.\<close>

definition bslice :: "'a list \<Rightarrow> nat \<Rightarrow> nat \<Rightarrow> 'a list" where
  "bslice b i n = take n (drop i b)"

definition timestamp :: "cacheBlob \<Rightarrow> u64" where
  "timestamp b = get_be (bslice b 2 8)"

definition expiry :: "cacheBlob \<Rightarrow> u64" where
  "expiry b = get_be (bslice b 10 8)"

definition version :: "cacheBlob \<Rightarrow> u8" where
  "version b = b ! 0"

definition prefetchEligible :: "cacheBlob \<Rightarrow> bool" where
  "prefetchEligible b \<longleftrightarrow> (b ! 1) AND 1 \<noteq> 0"

definition netLen :: "cacheBlob \<Rightarrow> nat" where
  "netLen b = unat (get_be (bslice b 24 2) :: u16)"

definition nameLen :: "cacheBlob \<Rightarrow> nat" where
  "nameLen b = unat (get_be (bslice b 26 2) :: u16)"

definition keyRegion :: "cacheBlob \<Rightarrow> u8 list" where
  "keyRegion b = bslice b 18 (10 + netLen b + nameLen b)"

definition message :: "cacheBlob \<Rightarrow> u8 list" where
  "message b = drop (blobHdrLen + netLen b + nameLen b) b"

definition matchesKey :: "cacheBlob \<Rightarrow> lruKey \<Rightarrow> bool" where
  "matchesKey b key =
     (if length b < blobHdrLen then False
      else if length b < blobHdrLen + netLen b + nameLen b \<or>
              b ! 18 \<noteq> keyFlags key \<or>
              b ! 23 \<noteq> k_ECSMask key \<or>
              netLen b \<noteq> length (k_Net key) \<or>
              nameLen b \<noteq> length (q_Name (k_Question key)) \<or>
              get_be (bslice b 19 2) \<noteq> q_Qtype (k_Question key) \<or>
              get_be (bslice b 21 2) \<noteq> q_Qclass (k_Question key) then False
      else string_of (bslice b blobHdrLen (netLen b)) = k_Net key \<and>
           string_of (bslice b (blobHdrLen + netLen b) (nameLen b)) = q_Name (k_Question key))"

definition blob_key :: "cacheBlob \<Rightarrow> lruKey" where
  "blob_key b =
     \<lparr>k_Question = \<lparr>q_Name = string_of (bslice b (blobHdrLen + netLen b) (nameLen b)),
                    q_Qtype = get_be (bslice b 19 2), q_Qclass = get_be (bslice b 21 2)\<rparr>,
      k_Net = string_of (bslice b blobHdrLen (netLen b)),
      k_Do = ((b ! 18) AND 1 \<noteq> 0), k_CD = ((b ! 18) AND 2 \<noteq> 0), k_ECSMask = b ! 23\<rparr>"

text \<open>The accessors on \<open>b\<close> stay inside it.\<close>

definition blob_ok :: "cacheBlob \<Rightarrow> bool" where
  "blob_ok b \<longleftrightarrow> blobHdrLen \<le> length b \<and> blobHdrLen + netLen b + nameLen b \<le> length b"

definition blob_cacheAnswer :: "dnslib \<Rightarrow> cacheBlob \<Rightarrow> go_error + cacheAnswer" where
  "blob_cacheAnswer L b =
     (if length b < blobHdrLen \<or> length b < blobHdrLen + netLen b + nameLen b
      then Inl (ErrOther ''cache record too short'')
      else case Unpack L (message b) of
             None \<Rightarrow> Inl (ErrOther ''failed to unpack DNS message'')
           | Some msg \<Rightarrow>
               Inr \<lparr>ca_Timestamp = nanoTime (timestamp b), ca_Expiry = nanoTime (expiry b),
                    ca_PrefetchEligible = prefetchEligible b, ca_Msg = Some msg\<rparr>)"

section \<open>Reading back what was written\<close>

lemma keyFlags_bits: "keyFlags key AND 1 = 0 \<longleftrightarrow> \<not> k_Do key" "keyFlags key AND 2 = 0 \<longleftrightarrow> \<not> k_CD key"
  by (simp_all add: keyFlags_def)

lemma keyFlags_eq_iff: "keyFlags key = keyFlags key' \<longleftrightarrow> k_Do key = k_Do key' \<and> k_CD key = k_CD key'"
  by (auto simp: keyFlags_def)

lemma blob_fields:
  assumes "newCacheBlobFromWire key meta wire = Inr b"
  shows "length b = blobHdrLen + length (k_Net key) + length (q_Name (k_Question key)) + length wire"
    "b ! 0 = blobVersion" "b ! 1 = (if ca_PrefetchEligible meta then 1 else 0)"
    "b ! 18 = keyFlags key" "b ! 23 = k_ECSMask key"
    "bslice b 2 8 = PutUint64 (unixNano (ca_Timestamp meta))"
    "bslice b 10 8 = PutUint64 (unixNano (ca_Expiry meta))"
    "bslice b 19 2 = PutUint16 (q_Qtype (k_Question key))"
    "bslice b 21 2 = PutUint16 (q_Qclass (k_Question key))"
    "netLen b = length (k_Net key)" "nameLen b = length (q_Name (k_Question key))"
    "bslice b blobHdrLen (length (k_Net key)) = bytes_of (k_Net key)"
    "bslice b (blobHdrLen + length (k_Net key)) (length (q_Name (k_Question key))) = bytes_of (q_Name (k_Question key))"
    "drop (blobHdrLen + length (k_Net key) + length (q_Name (k_Question key))) b = wire"
proof -
  let ?name = "q_Name (k_Question key)"
  have len: "length ?name \<le> 65535" "length (k_Net key) \<le> 65535"
    and b: "b = [blobVersion, if ca_PrefetchEligible meta then 1 else 0] @
         PutUint64 (unixNano (ca_Timestamp meta)) @ PutUint64 (unixNano (ca_Expiry meta)) @
         [keyFlags key] @ PutUint16 (q_Qtype (k_Question key)) @ PutUint16 (q_Qclass (k_Question key)) @
         [k_ECSMask key] @ PutUint16 (of_nat (length (k_Net key))) @ PutUint16 (of_nat (length ?name)) @
         bytes_of (k_Net key) @ bytes_of ?name @ wire"
    using assms by (auto simp: newCacheBlobFromWire_def Let_def split: if_splits)
  show "length b = blobHdrLen + length (k_Net key) + length ?name + length wire"
    by (simp add: b)
  show "b ! 0 = blobVersion" "b ! 1 = (if ca_PrefetchEligible meta then 1 else 0)"
    "b ! 18 = keyFlags key" "b ! 23 = k_ECSMask key"
    by (simp_all add: b nth_append)
  show "bslice b 2 8 = PutUint64 (unixNano (ca_Timestamp meta))"
    "bslice b 10 8 = PutUint64 (unixNano (ca_Expiry meta))"
    "bslice b 19 2 = PutUint16 (q_Qtype (k_Question key))"
    "bslice b 21 2 = PutUint16 (q_Qclass (k_Question key))"
    by (simp_all add: b bslice_def)
  show "netLen b = length (k_Net key)" "nameLen b = length ?name"
    using len by (simp_all add: b bslice_def netLen_def nameLen_def unat_of_nat)
  show "bslice b blobHdrLen (length (k_Net key)) = bytes_of (k_Net key)"
    "bslice b (blobHdrLen + length (k_Net key)) (length ?name) = bytes_of ?name"
    "drop (blobHdrLen + length (k_Net key) + length ?name) b = wire"
  proof -
    obtain hdr where "b = hdr @ bytes_of (k_Net key) @ bytes_of ?name @ wire" "length hdr = blobHdrLen"
    proof
      show "b = take blobHdrLen b @ bytes_of (k_Net key) @ bytes_of ?name @ wire"
        by (simp add: b)
      show "length (take blobHdrLen b) = blobHdrLen"
        by (simp add: b)
    qed
    then show "bslice b blobHdrLen (length (k_Net key)) = bytes_of (k_Net key)"
      "bslice b (blobHdrLen + length (k_Net key)) (length ?name) = bytes_of ?name"
      "drop (blobHdrLen + length (k_Net key) + length ?name) b = wire"
      by (simp_all add: bslice_def)
  qed
qed

lemma blob_roundtrip:
  assumes "newCacheBlobFromWire key meta wire = Inr b"
  shows "blob_ok b" "version b = blobVersion" "blob_key b = key" "message b = wire"
    "timestamp b = unixNano (ca_Timestamp meta)" "expiry b = unixNano (ca_Expiry meta)"
    "prefetchEligible b = ca_PrefetchEligible meta"
  using blob_fields [OF assms]
  by (simp_all add: blob_ok_def version_def blob_key_def message_def timestamp_def expiry_def
      prefetchEligible_def keyFlags_bits)

lemma lruKey_eq_iff:
  "(k :: lruKey) = k' \<longleftrightarrow>
     q_Name (k_Question k) = q_Name (k_Question k') \<and> q_Qtype (k_Question k) = q_Qtype (k_Question k') \<and>
     q_Qclass (k_Question k) = q_Qclass (k_Question k') \<and> k_Net k = k_Net k' \<and> k_Do k = k_Do k' \<and>
     k_CD k = k_CD k' \<and> k_ECSMask k = k_ECSMask k'"
  by (cases k, cases k', cases "k_Question k", cases "k_Question k'") auto

lemma length_string_of [simp]: "length (string_of b) = length b"
  by (simp add: string_of_def)

lemma matchesKey_iff: "matchesKey b key \<longleftrightarrow> blob_ok b \<and> b ! 18 = keyFlags key \<and> blob_key b = key"
proof (cases "blob_ok b")
  case True
  then have "length (bslice b blobHdrLen (netLen b)) = netLen b"
    "length (bslice b (blobHdrLen + netLen b) (nameLen b)) = nameLen b"
    by (auto simp: blob_ok_def bslice_def)
  then have "string_of (bslice b blobHdrLen (netLen b)) = k_Net key \<Longrightarrow> netLen b = length (k_Net key)"
    "string_of (bslice b (blobHdrLen + netLen b) (nameLen b)) = q_Name (k_Question key) \<Longrightarrow>
     nameLen b = length (q_Name (k_Question key))"
    by (metis length_string_of)+
  with True show ?thesis
    unfolding matchesKey_def lruKey_eq_iff
    by (auto simp: blob_ok_def blob_key_def keyFlags_bits)
qed (auto simp: matchesKey_def blob_ok_def)

lemma newCacheBlob_matchesKey: "newCacheBlob L key a = Inr b \<Longrightarrow> matchesKey b key' \<longleftrightarrow> key' = key"
proof -
  assume "newCacheBlob L key a = Inr b"
  then obtain wire where b: "newCacheBlobFromWire key a wire = Inr b"
    by (auto simp: newCacheBlob_def split: option.splits)
  show "matchesKey b key' \<longleftrightarrow> key' = key"
    using blob_fields(4) [OF b] by (auto simp: matchesKey_iff blob_roundtrip [OF b] keyFlags_eq_iff)
qed

text \<open>
  A stored entry is found under its own key and under no other. The blob built for a key and
  an answer has room for all accessors, gives back the key, the packed message, both times and the
  prefetch flag, and matches a key exactly when that key is the one it was built from.
\<close>

theorem newCacheBlob_faithful:
  assumes "newCacheBlob L key a = Inr b"
  shows "blob_ok b \<and> version b = blobVersion \<and> blob_key b = key \<and>
    Some (message b) = Option.bind (ca_Msg a) (Pack L) \<and>
    timestamp b = unixNano (ca_Timestamp a) \<and> expiry b = unixNano (ca_Expiry a) \<and>
    prefetchEligible b = ca_PrefetchEligible a \<and> (\<forall>key'. matchesKey b key' \<longleftrightarrow> key' = key)"
proof -
  obtain m wire where m: "ca_Msg a = Some m" "Pack L m = Some wire"
    and b: "newCacheBlobFromWire key a wire = Inr b"
    using assms by (auto simp: newCacheBlob_def split: option.splits)
  show ?thesis
    by (simp add: blob_roundtrip [OF b] m newCacheBlob_matchesKey [OF assms])
qed

definition ref_key :: lruKey where
  "ref_key = \<lparr>k_Question = \<lparr>q_Name = ''x.'', q_Qtype = 1, q_Qclass = 1\<rparr>, k_Net = ''192.0.2.0'',
     k_Do = True, k_CD = False, k_ECSMask = 24\<rparr>"

definition ref_answer :: cacheAnswer where
  "ref_answer = \<lparr>ca_Timestamp = Some 5, ca_Expiry = Some 9, ca_PrefetchEligible = True, ca_Msg = Some new_Msg\<rparr>"

lemma ref_newCacheBlob: "\<exists>b. newCacheBlob ref_lib ref_key ref_answer = Inr b"
  by (simp add: newCacheBlob_def newCacheBlobFromWire_def ref_lib_def ref_answer_def ref_key_def Let_def)

theorem newCacheBlob_faithful_witness:
  "\<exists>b. newCacheBlob ref_lib ref_key ref_answer = Inr b \<and> matchesKey b ref_key \<and>
     \<not> matchesKey b (ref_key\<lparr>k_CD := True\<rparr>) \<and> message b = replicate 12 0"
proof -
  obtain b where b: "newCacheBlob ref_lib ref_key ref_answer = Inr b" using ref_newCacheBlob by blast
  have "ref_key\<lparr>k_CD := True\<rparr> \<noteq> ref_key" by (simp add: ref_key_def)
  with newCacheBlob_faithful [OF b] b show ?thesis
    by (auto simp: ref_answer_def ref_lib_def)
qed

text \<open>
  The answer decoded from a stored record is the answer that was stored, for the times the
  64-bit stored form can represent and a DNS library that reads back what it packs.
\<close>

theorem cacheAnswer_roundtrip:
  assumes "Unpack_law L" "newCacheBlob L key a = Inr b" "time_ok (ca_Timestamp a)" "time_ok (ca_Expiry a)"
  shows "blob_cacheAnswer L b = Inr a"
proof -
  obtain m wire where m: "ca_Msg a = Some m" "Pack L m = Some wire"
    and b: "newCacheBlobFromWire key a wire = Inr b"
    using assms(2) by (auto simp: newCacheBlob_def split: option.splits)
  have "Unpack L (message b) = Some m"
    using assms(1) m(2) by (simp add: blob_roundtrip [OF b] Unpack_law_def)
  moreover have "\<not> (length b < blobHdrLen \<or> length b < blobHdrLen + netLen b + nameLen b)"
    using blob_roundtrip(1) [OF b] by (simp add: blob_ok_def)
  ultimately show ?thesis
    using m(1) assms(3,4)
    by (cases a) (simp add: blob_cacheAnswer_def blob_roundtrip [OF b] nanoTime_unixNano)
qed

theorem cacheAnswer_roundtrip_witness:
  "\<exists>b. newCacheBlob ref_lib ref_key ref_answer = Inr b \<and> blob_cacheAnswer ref_lib b = Inr ref_answer"
  using ref_newCacheBlob cacheAnswer_roundtrip [of ref_lib ref_key ref_answer]
  by (auto simp: ref_answer_def time_ok_def)

end
