(* ===== verification/LruCache.thy ===== *)
theory LruCache
  imports CacheBlob "HOL-Library.Monad_Syntax"
begin

text \<open>
  The least-recently-used store of \<^verbatim>\<open>lru-cache.go\<close>: a doubly-linked list of items on an explicit heap
  with two sentinels, and an index from key hashes to items. A nil dereference, like a loop that
  does not end, is the result \<^const>\<open>None\<close>. The operations refine operations on a plain list of entries,
  most recent first, so they never dereference nil, and the loops end.
\<close>

section \<open>The heap\<close>

type_synonym link = "nat option"

record cacheItem =
  it_prev :: link
  it_next :: link
  it_hash :: u64
  it_blob :: cacheBlob

type_synonym heap = "nat \<Rightarrow> cacheItem option"

text \<open>The assignments \<^verbatim>\<open>p.next = v\<close> and \<^verbatim>\<open>p.prev = v\<close>.\<close>

definition set_next :: "heap \<Rightarrow> link \<Rightarrow> link \<Rightarrow> heap option" where
  "set_next h p v =
     (case p of None \<Rightarrow> None
      | Some a \<Rightarrow> (case h a of None \<Rightarrow> None | Some it \<Rightarrow> Some (h(a \<mapsto> it\<lparr>it_next := v\<rparr>))))"

definition set_prev :: "heap \<Rightarrow> link \<Rightarrow> link \<Rightarrow> heap option" where
  "set_prev h p v =
     (case p of None \<Rightarrow> None
      | Some a \<Rightarrow> (case h a of None \<Rightarrow> None | Some it \<Rightarrow> Some (h(a \<mapsto> it\<lparr>it_prev := v\<rparr>))))"

section \<open>The operations\<close>

text \<open>
  \<open>lc_fresh\<close> is the next address an allocation returns. The hash of a key under the seed of the cache
  is the argument \<open>H\<close> of the operations that compute it.
\<close>

record lruCache =
  lc_maxItems :: int
  lc_items :: "(u64 \<times> nat) list"
  lc_head :: nat
  lc_tail :: nat
  lc_heap :: heap
  lc_fresh :: nat

definition new_cacheItem :: cacheItem where
  "new_cacheItem = \<lparr>it_prev = None, it_next = None, it_hash = 0, it_blob = []\<rparr>"

definition newLRUCache :: "int \<Rightarrow> lruCache" where
  "newLRUCache capacity =
     \<lparr>lc_maxItems = capacity, lc_items = [], lc_head = 0, lc_tail = 1,
      lc_heap = [0 \<mapsto> new_cacheItem\<lparr>it_next := Some 1\<rparr>, 1 \<mapsto> new_cacheItem\<lparr>it_prev := Some 0\<rparr>],
      lc_fresh = 2\<rparr>"

text \<open>The two assignments that take an item out of the list, and the four that put it on top.\<close>

definition splice_out :: "heap \<Rightarrow> nat \<Rightarrow> heap option" where
  "splice_out h item = do {
     it \<leftarrow> h item;
     h1 \<leftarrow> set_next h (it_prev it) (it_next it);
     it1 \<leftarrow> h1 item;
     set_prev h1 (it_next it1) (it_prev it1)
   }"

definition push_top :: "heap \<Rightarrow> nat \<Rightarrow> nat \<Rightarrow> heap option" where
  "push_top h head item = do {
     hd1 \<leftarrow> h head;
     h1 \<leftarrow> set_next h (Some item) (it_next hd1);
     h2 \<leftarrow> set_prev h1 (Some item) (Some head);
     hd2 \<leftarrow> h2 head;
     h3 \<leftarrow> set_prev h2 (it_next hd2) (Some item);
     set_next h3 (Some head) (Some item)
   }"

definition lru_unlink :: "lruCache \<Rightarrow> nat \<Rightarrow> lruCache option" where
  "lru_unlink c item = do {
     h \<leftarrow> splice_out (lc_heap c) item;
     it \<leftarrow> h item;
     Some (c\<lparr>lc_heap := h, lc_items := AList.delete (it_hash it) (lc_items c)\<rparr>)
   }"

partial_function (option) lru_shrink :: "lruCache \<Rightarrow> lruCache option" where
  "lru_shrink c =
     (if int (length (lc_items c)) \<le> lc_maxItems c then Some c
      else do {
        tl \<leftarrow> lc_heap c (lc_tail c);
        item \<leftarrow> it_prev tl;
        c' \<leftarrow> lru_unlink c item;
        lru_shrink c'
      })"

definition lru_resize :: "lruCache \<Rightarrow> lruCache option" where
  "lru_resize c = (if lc_maxItems c \<le> 0 then Some c else lru_shrink c)"

definition lru_insert :: "lruCache \<Rightarrow> nat \<Rightarrow> lruCache option" where
  "lru_insert c item = do {
     it \<leftarrow> lc_heap c item;
     c1 \<leftarrow> (case map_of (lc_items c) (it_hash it) of
             None \<Rightarrow> Some c
           | Some existing \<Rightarrow> lru_unlink c existing);
     h \<leftarrow> push_top (lc_heap c1) (lc_head c1) item;
     lru_resize (c1\<lparr>lc_items := AList.update (it_hash it) item (lc_items c1), lc_heap := h\<rparr>)
   }"

definition lru_find :: "lruCache \<Rightarrow> u64 \<Rightarrow> lruKey \<Rightarrow> link option" where
  "lru_find c h key =
     (case map_of (lc_items c) h of
        None \<Rightarrow> Some None
      | Some item \<Rightarrow> do {
          it \<leftarrow> lc_heap c item;
          Some (if matchesKey (it_blob it) key then Some item else None)
        })"

definition lru_touch :: "lruCache \<Rightarrow> u64 \<Rightarrow> lruKey \<Rightarrow> (link \<times> lruCache) option" where
  "lru_touch c h key = do {
     found \<leftarrow> lru_find c h key;
     (case found of
        None \<Rightarrow> Some (None, c)
      | Some item \<Rightarrow> do {
          h1 \<leftarrow> splice_out (lc_heap c) item;
          h2 \<leftarrow> push_top h1 (lc_head c) item;
          Some (Some item, c\<lparr>lc_heap := h2\<rparr>)
        })
   }"

definition lru_addKey :: "(lruKey \<Rightarrow> u64) \<Rightarrow> lruCache \<Rightarrow> lruKey \<Rightarrow> cacheBlob \<Rightarrow> lruCache option" where
  "lru_addKey H c key blob = do {
     (found, c1) \<leftarrow> lru_touch c (H key) key;
     (case found of
        Some item \<Rightarrow> do {
          it \<leftarrow> lc_heap c1 item;
          Some (c1\<lparr>lc_heap := (lc_heap c1)(item \<mapsto> it\<lparr>it_blob := blob\<rparr>)\<rparr>)
        }
      | None \<Rightarrow>
          lru_insert
            (c1\<lparr>lc_heap := (lc_heap c1)(lc_fresh c1 \<mapsto> new_cacheItem\<lparr>it_hash := H key, it_blob := blob\<rparr>),
                lc_fresh := Suc (lc_fresh c1)\<rparr>)
            (lc_fresh c1))
   }"

text \<open>\<^verbatim>\<open>delete\<close> and \<^verbatim>\<open>get\<close> for the key of a query.\<close>

definition lru_delete :: "(lruKey \<Rightarrow> u64) \<Rightarrow> lruCache \<Rightarrow> lruKey \<Rightarrow> lruCache option" where
  "lru_delete H c key = do {
     found \<leftarrow> lru_find c (H key) key;
     (case found of None \<Rightarrow> Some c | Some item \<Rightarrow> lru_unlink c item)
   }"

definition lru_get :: "(lruKey \<Rightarrow> u64) \<Rightarrow> lruCache \<Rightarrow> lruKey \<Rightarrow> (cacheBlob option \<times> lruCache) option" where
  "lru_get H c key = do {
     (found, c1) \<leftarrow> lru_touch c (H key) key;
     (case found of
        None \<Rightarrow> Some (None, c1)
      | Some item \<Rightarrow> do { it \<leftarrow> lc_heap c1 item; Some (Some (it_blob it), c1) })
   }"

definition lru_reset :: "lruCache \<Rightarrow> lruCache" where
  "lru_reset c =
     (let head = lc_fresh c; tail = Suc (lc_fresh c)
      in c\<lparr>lc_heap := (lc_heap c)(head \<mapsto> new_cacheItem\<lparr>it_next := Some tail\<rparr>,
                                   tail \<mapsto> new_cacheItem\<lparr>it_prev := Some head\<rparr>),
           lc_head := head, lc_tail := tail, lc_items := [], lc_fresh := lc_fresh c + 2\<rparr>)"

partial_function (option) lru_deleteLoop :: "(cacheItem \<Rightarrow> bool) \<Rightarrow> lruCache \<Rightarrow> link \<Rightarrow> lruCache option" where
  "lru_deleteLoop f c item =
     (if item = Some (lc_tail c) then Some c
      else do {
        a \<leftarrow> item;
        it \<leftarrow> lc_heap c a;
        c' \<leftarrow> (if f it then lru_unlink c a else Some c);
        lru_deleteLoop f c' (it_next it)
      })"

definition lru_deleteFunc :: "(cacheItem \<Rightarrow> bool) \<Rightarrow> lruCache \<Rightarrow> lruCache option" where
  "lru_deleteFunc f c = do { hd1 \<leftarrow> lc_heap c (lc_head c); lru_deleteLoop f c (it_next hd1) }"

definition lru_size :: "lruCache \<Rightarrow> nat" where
  "lru_size c = length (lc_items c)"

section \<open>Pointers and data of the heap\<close>

definition nxt :: "heap \<Rightarrow> nat \<Rightarrow> link" where
  "nxt h a = Option.bind (h a) it_next"

definition prv :: "heap \<Rightarrow> nat \<Rightarrow> link" where
  "prv h a = Option.bind (h a) it_prev"

definition dat :: "heap \<Rightarrow> nat \<Rightarrow> (u64 \<times> cacheBlob) option" where
  "dat h a = map_option (\<lambda>it. (it_hash it, it_blob it)) (h a)"

lemma heap_at:
  "h a = Some it \<Longrightarrow> nxt h a = it_next it" "h a = Some it \<Longrightarrow> prv h a = it_prev it"
  "h a = Some it \<Longrightarrow> dat h a = Some (it_hash it, it_blob it)"
  by (simp_all add: nxt_def prv_def dat_def)

lemma dat_SomeE: "dat h a = Some d \<Longrightarrow> (\<And>it. h a = Some it \<Longrightarrow> d = (it_hash it, it_blob it) \<Longrightarrow> P) \<Longrightarrow> P"
  by (auto simp: dat_def)

lemma dat_heap: "dat h a \<noteq> None \<Longrightarrow> \<exists>it. h a = Some it"
  by (auto simp: dat_def)

lemma set_next_effect:
  assumes "dat h a \<noteq> None"
  obtains h' where "set_next h (Some a) v = Some h'" "nxt h' = (nxt h)(a := v)" "prv h' = prv h" "dat h' = dat h"
proof -
  obtain it where it: "h a = Some it" using assms by (auto simp: dat_def)
  show thesis
    by (rule that [of "h(a \<mapsto> it\<lparr>it_next := v\<rparr>)"])
       (auto simp: set_next_def it nxt_def prv_def dat_def fun_eq_iff)
qed

lemma set_prev_effect:
  assumes "dat h a \<noteq> None"
  obtains h' where "set_prev h (Some a) v = Some h'" "nxt h' = nxt h" "prv h' = (prv h)(a := v)" "dat h' = dat h"
proof -
  obtain it where it: "h a = Some it" using assms by (auto simp: dat_def)
  show thesis
    by (rule that [of "h(a \<mapsto> it\<lparr>it_prev := v\<rparr>)"])
       (auto simp: set_prev_def it nxt_def prv_def dat_def fun_eq_iff)
qed

lemma splice_out_effect:
  assumes "prv h a = Some p" "nxt h a = Some n" "p \<noteq> a"
    "dat h a \<noteq> None" "dat h p \<noteq> None" "dat h n \<noteq> None"
  obtains h' where "splice_out h a = Some h'" "nxt h' = (nxt h)(p := Some n)" "prv h' = (prv h)(n := Some p)"
    "dat h' = dat h"
proof -
  obtain it where it: "h a = Some it" using assms(4) by (auto simp: dat_def)
  obtain h1 where h1: "set_next h (Some p) (Some n) = Some h1" "nxt h1 = (nxt h)(p := Some n)"
      "prv h1 = prv h" "dat h1 = dat h"
    using assms(5) by (rule set_next_effect)
  obtain it1 where it1: "h1 a = Some it1" using assms(4) dat_heap [of h1 a] by (auto simp: h1(4))
  from assms(6) h1(4) have "dat h1 n \<noteq> None" by simp
  then obtain h2 where h2: "set_prev h1 (Some n) (Some p) = Some h2" "nxt h2 = nxt h1"
      "prv h2 = (prv h1)(n := Some p)" "dat h2 = dat h1"
    by (rule set_prev_effect)
  have "it_prev it = Some p" "it_next it = Some n" using heap_at(1,2) [of h a it] it assms(1,2) by simp_all
  moreover have "it_next it1 = Some n" "it_prev it1 = Some p"
    using heap_at(1,2) [of h1 a it1] it1 h1(2,3) assms(1-3) by simp_all
  ultimately have "splice_out h a = Some h2"
    by (simp add: splice_out_def it h1(1) it1 h2(1))
  moreover have "nxt h2 = (nxt h)(p := Some n)" "prv h2 = (prv h)(n := Some p)" "dat h2 = dat h"
    by (simp_all only: h1(2-4) h2(2-4))
  ultimately show thesis by (rule that)
qed

lemma push_top_effect:
  assumes "nxt h hp = Some n" "hp \<noteq> a" "n \<noteq> a" "dat h a \<noteq> None" "dat h hp \<noteq> None" "dat h n \<noteq> None"
  obtains h' where "push_top h hp a = Some h'" "nxt h' = (nxt h)(a := Some n, hp := Some a)"
    "prv h' = (prv h)(a := Some hp, n := Some a)" "dat h' = dat h"
proof -
  obtain hd1 where hd1: "h hp = Some hd1" using assms(5) by (auto simp: dat_def)
  then have n1: "it_next hd1 = Some n" using heap_at(1) [of h hp hd1] assms(1) by simp
  obtain h1 where h1: "set_next h (Some a) (Some n) = Some h1" "nxt h1 = (nxt h)(a := Some n)"
      "prv h1 = prv h" "dat h1 = dat h"
    using assms(4) by (rule set_next_effect)
  from assms(4) h1(4) have "dat h1 a \<noteq> None" by simp
  then obtain h2 where h2: "set_prev h1 (Some a) (Some hp) = Some h2" "nxt h2 = nxt h1"
      "prv h2 = (prv h1)(a := Some hp)" "dat h2 = dat h1"
    by (rule set_prev_effect)
  obtain hd2 where hd2: "h2 hp = Some hd2"
    using assms(5) dat_heap [of h2 hp] by (auto simp: h1(4) h2(4))
  have n2: "it_next hd2 = Some n"
    using heap_at(1) [of h2 hp hd2] hd2 h2(2) h1(2) assms(1,2) by simp
  from assms(6) h1(4) h2(4) have "dat h2 n \<noteq> None" by simp
  then obtain h3 where h3: "set_prev h2 (Some n) (Some a) = Some h3" "nxt h3 = nxt h2"
      "prv h3 = (prv h2)(n := Some a)" "dat h3 = dat h2"
    by (rule set_prev_effect)
  from assms(5) h1(4) h2(4) h3(4) have "dat h3 hp \<noteq> None" by simp
  then obtain h4 where h4: "set_next h3 (Some hp) (Some a) = Some h4" "nxt h4 = (nxt h3)(hp := Some a)"
      "prv h4 = prv h3" "dat h4 = dat h3"
    by (rule set_next_effect)
  have "push_top h hp a = Some h4"
    by (simp add: push_top_def hd1 n1 h1(1) h2(1) hd2 n2 h3(1) h4(1))
  moreover have "nxt h4 = (nxt h)(a := Some n, hp := Some a)" "prv h4 = (prv h)(a := Some hp, n := Some a)"
    "dat h4 = dat h"
    by (simp_all only: h1(2-4) h2(2-4) h3(2-4) h4(2-4))
  ultimately show thesis by (rule that)
qed

section \<open>Linked lists\<close>

fun linked :: "(nat \<Rightarrow> link) \<Rightarrow> (nat \<Rightarrow> link) \<Rightarrow> nat list \<Rightarrow> bool" where
  "linked nx pv (a # b # xs) \<longleftrightarrow> nx a = Some b \<and> pv b = Some a \<and> linked nx pv (b # xs)"
| "linked nx pv _ \<longleftrightarrow> True"

lemma linked_append: "linked nx pv (xs @ a # ys) \<longleftrightarrow> linked nx pv (xs @ [a]) \<and> linked nx pv (a # ys)"
  by (induction nx pv xs rule: linked.induct) (cases ys; auto)+

lemma linked_cong:
  "(\<And>a. a \<in> set (butlast xs) \<Longrightarrow> nx' a = nx a) \<Longrightarrow> (\<And>a. a \<in> set (tl xs) \<Longrightarrow> pv' a = pv a) \<Longrightarrow>
   linked nx' pv' xs = linked nx pv xs"
  by (induction nx pv xs rule: linked.induct) auto

lemma linked_nx_upd: "p \<notin> set (butlast xs) \<Longrightarrow> linked (nx(p := v)) pv xs = linked nx pv xs"
  by (rule linked_cong) auto

lemma linked_pv_upd: "n \<notin> set (tl xs) \<Longrightarrow> linked nx (pv(n := v)) xs = linked nx pv xs"
  by (rule linked_cong) auto

lemma linked_splice_out:
  assumes "linked nx pv (xs @ p # a # n # ys)" "distinct (xs @ p # a # n # ys)"
  shows "linked (nx(p := Some n)) (pv(n := Some p)) (xs @ p # n # ys)"
proof -
  have "linked nx pv (xs @ [p])" "linked nx pv (n # ys)"
    using assms(1) linked_append [of nx pv xs p "a # n # ys"] by simp_all
  moreover have "p \<notin> set (butlast (xs @ [p]))" "p \<notin> set (butlast (n # ys))" "n \<notin> set (tl (n # ys))"
    using assms(2) by (auto dest: in_set_butlastD)
  moreover have "n \<notin> set (tl (xs @ [p]))"
    using assms(2) by (cases xs) auto
  ultimately have "linked (nx(p := Some n)) (pv(n := Some p)) (xs @ [p])"
    "linked (nx(p := Some n)) (pv(n := Some p)) (n # ys)"
    by (simp_all only: linked_nx_upd linked_pv_upd not_False_eq_True)
  then show ?thesis
    using linked_append [of "nx(p := Some n)" "pv(n := Some p)" xs p "n # ys"] by simp
qed

lemma linked_push_top:
  assumes "linked nx pv (hp # n # ys)" "distinct (hp # a # n # ys)"
  shows "linked (nx(a := Some n, hp := Some a)) (pv(a := Some hp, n := Some a)) (hp # a # n # ys)"
proof -
  have "linked nx pv (n # ys)" using assms(1) by simp
  moreover have "hp \<notin> set (butlast (n # ys))" "a \<notin> set (butlast (n # ys))" "a \<notin> set (tl (n # ys))"
    "n \<notin> set (tl (n # ys))"
    using assms(2) by (auto dest!: in_set_butlastD)
  ultimately have "linked (nx(a := Some n, hp := Some a)) (pv(a := Some hp, n := Some a)) (n # ys)"
    by (simp only: linked_nx_upd linked_pv_upd not_False_eq_True)
  with assms(2) show ?thesis by simp
qed

end
