(* ===== verification/LruRefine.thy ===== *)
theory LruRefine
  imports LruCache
begin

text \<open>
  The refinement of the linked store: \<open>lru_abs m c es\<close> says that the cache \<open>c\<close> of capacity \<open>m\<close> holds the entries \<open>es\<close>, each
  the hash and the blob of an item, most recently used first. Every operation of \<^verbatim>\<open>lruCache\<close> is total
  on such caches and acts on the entries as the list operation of the same name.
\<close>

section \<open>What a well-formed store is\<close>

definition chain :: "heap \<Rightarrow> nat \<Rightarrow> nat \<Rightarrow> nat list \<Rightarrow> bool" where
  "chain h hp tp as \<longleftrightarrow>
     distinct (hp # as @ [tp]) \<and> linked (nxt h) (prv h) (hp # as @ [tp]) \<and>
     (\<forall>a \<in> set (hp # as @ [tp]). dat h a \<noteq> None)"

definition index_of :: "(u64 \<times> nat) list \<Rightarrow> (nat \<Rightarrow> (u64 \<times> cacheBlob) option) \<Rightarrow> nat list \<Rightarrow> bool" where
  "index_of m d as \<longleftrightarrow>
     gomap_ok m \<and> (\<forall>k a. map_of m k = Some a \<longleftrightarrow> a \<in> set as \<and> map_option fst (d a) = Some k)"

definition lru_rep :: "lruCache \<Rightarrow> nat list \<Rightarrow> bool" where
  "lru_rep c as \<longleftrightarrow>
     chain (lc_heap c) (lc_head c) (lc_tail c) as \<and> index_of (lc_items c) (dat (lc_heap c)) as \<and>
     (\<forall>a \<in> set (lc_head c # as @ [lc_tail c]). a < lc_fresh c)"

definition entries :: "(nat \<Rightarrow> (u64 \<times> cacheBlob) option) \<Rightarrow> nat list \<Rightarrow> (u64 \<times> cacheBlob) list" where
  "entries d as = map (\<lambda>a. the (d a)) as"

definition lru_abs :: "int \<Rightarrow> lruCache \<Rightarrow> (u64 \<times> cacheBlob) list \<Rightarrow> bool" where
  "lru_abs m c es \<longleftrightarrow>
     lc_maxItems c = m \<and> (\<exists>as. lru_rep c as \<and> entries (dat (lc_heap c)) as = es)"

lemma chain_splice_out:
  assumes "chain h hp tp (as1 @ a # as2)"
  obtains h' where "splice_out h a = Some h'" "chain h' hp tp (as1 @ as2)" "dat h' = dat h"
proof -
  obtain xs p where xs: "hp # as1 = xs @ [p]" by (metis list.distinct(1) rev_exhaust)
  obtain n ys where ys: "as2 @ [tp] = n # ys" by (cases "as2 @ [tp]") auto
  have split: "hp # (as1 @ a # as2) @ [tp] = xs @ p # a # n # ys"
    "hp # (as1 @ as2) @ [tp] = xs @ p # n # ys"
    using xs ys by (metis append.assoc append_Cons append_Nil)+
  have L: "linked (nxt h) (prv h) (xs @ p # a # n # ys)" and D: "distinct (xs @ p # a # n # ys)"
    and M: "\<forall>b \<in> set (xs @ p # a # n # ys). dat h b \<noteq> None"
    using assms by (simp_all add: chain_def flip: split)
  have "linked (nxt h) (prv h) (p # a # n # ys)"
    using L linked_append [of "nxt h" "prv h" xs p "a # n # ys"] by simp
  then have "prv h a = Some p" "nxt h a = Some n" by simp_all
  moreover from D have "p \<noteq> a" by simp
  moreover from M have "dat h a \<noteq> None" "dat h p \<noteq> None" "dat h n \<noteq> None" by simp_all
  ultimately obtain h' where h': "splice_out h a = Some h'" "nxt h' = (nxt h)(p := Some n)"
      "prv h' = (prv h)(n := Some p)" "dat h' = dat h"
    by (rule splice_out_effect)
  have "linked (nxt h') (prv h') (xs @ p # n # ys)"
    unfolding h'(2,3) by (rule linked_splice_out [OF L D])
  with D M have "chain h' hp tp (as1 @ as2)"
    unfolding chain_def split(2) h'(4) by simp
  with h'(1,4) show thesis by (intro that)
qed

lemma chain_push_top:
  assumes "chain h hp tp as" "a \<notin> set (hp # as @ [tp])" "dat h a \<noteq> None"
  obtains h' where "push_top h hp a = Some h'" "chain h' hp tp (a # as)" "dat h' = dat h"
proof -
  obtain n ys where ys: "as @ [tp] = n # ys" by (cases "as @ [tp]") auto
  have L: "linked (nxt h) (prv h) (hp # n # ys)" and D: "distinct (hp # a # n # ys)"
    and M: "\<forall>b \<in> set (hp # n # ys). dat h b \<noteq> None"
    using assms by (auto simp: chain_def simp flip: ys)
  have "nxt h hp = Some n" using L by simp
  moreover have "hp \<noteq> a" "n \<noteq> a" using D by auto
  moreover from M have "dat h hp \<noteq> None" "dat h n \<noteq> None" by simp_all
  ultimately obtain h' where h': "push_top h hp a = Some h'" "nxt h' = (nxt h)(a := Some n, hp := Some a)"
      "prv h' = (prv h)(a := Some hp, n := Some a)" "dat h' = dat h"
    using push_top_effect [of h hp n a] assms(3) by metis
  have "linked (nxt h') (prv h') (hp # a # n # ys)"
    unfolding h'(2,3) by (rule linked_push_top [OF L D])
  with D M assms(3) have "chain h' hp tp (a # as)"
    by (simp add: chain_def ys h'(4))
  with h'(1,4) show thesis by (intro that)
qed

lemma index_of_delete:
  assumes "index_of m d (as1 @ a # as2)" "d a = Some (k, b)" "a \<notin> set (as1 @ as2)"
  shows "index_of (AList.delete k m) d (as1 @ as2)"
proof -
  have "map_of m k = Some a" using assms(1,2) by (simp add: index_of_def)
  moreover have "map_of m k = Some x" if "x \<in> set (as1 @ as2)" "map_option fst (d x) = Some k" for x
    using assms(1) that by (auto simp: index_of_def)
  ultimately have "\<not> (x \<in> set (as1 @ as2) \<and> map_option fst (d x) = Some k)" for x
    using assms(3) by auto
  moreover have "map_of (AList.delete k m) = (map_of m)(k := None)"
    by (rule delete_conv')
  ultimately show ?thesis
    using assms(1,2) unfolding index_of_def by (auto simp del: map_of_eq_Some_iff split: if_splits)
qed

lemma index_of_insert:
  assumes "index_of m d as" "d a = Some (k, b)" "map_of m k = None"
  shows "index_of (AList.update k a m) d (a # as)"
proof -
  have "\<not> (x \<in> set as \<and> map_option fst (d x) = Some k)" for x
    using assms(1,3) by (metis index_of_def option.distinct(1))
  moreover have "map_of (AList.update k a m) = (map_of m)(k := Some a)"
    by (rule update_conv')
  ultimately show ?thesis
    using assms(1,2) unfolding index_of_def by (auto simp del: map_of_eq_Some_iff split: if_splits)
qed

lemma index_of_perm: "index_of m d as \<Longrightarrow> set as = set bs \<Longrightarrow> index_of m d bs"
  by (simp add: index_of_def)

lemma index_of_length:
  assumes "index_of m d as" "distinct as" "\<forall>a \<in> set as. d a \<noteq> None"
  shows "length m = length as"
proof -
  let ?key = "\<lambda>a. fst (the (d a))"
  have key: "map_of m (?key a) = Some a" if "a \<in> set as" for a
    using assms(1,3) that by (auto simp: index_of_def)
  then have "inj_on ?key (set as)" by (metis (mono_tags, lifting) inj_onI option.inject)
  moreover have "dom (map_of m) = ?key ` set as"
  proof (intro equalityI subsetI)
    fix k assume "k \<in> dom (map_of m)"
    then obtain a where "map_of m k = Some a" by blast
    with assms(1) have "a \<in> set as" "map_option fst (d a) = Some k" by (simp_all only: index_of_def)
    then show "k \<in> ?key ` set as" by (auto simp: rev_image_eqI)
  qed (auto simp only: key dom_def)
  ultimately have "card (dom (map_of m)) = length as"
    using assms(2) by (simp add: card_image distinct_card)
  then show ?thesis
    using assms(1) by (simp add: card_dom_gomap index_of_def)
qed

lemma lru_rep_size: "lru_rep c as \<Longrightarrow> length (lc_items c) = length as"
  by (rule index_of_length [of _ "dat (lc_heap c)"]) (auto simp: lru_rep_def chain_def)

lemma lru_rep_find: "lru_rep c as \<Longrightarrow> map_of (lc_items c) k = Some a \<longleftrightarrow> a \<in> set as \<and> map_option fst (dat (lc_heap c) a) = Some k"
  by (simp add: lru_rep_def index_of_def)

lemma entries_append [simp]: "entries d (xs @ ys) = entries d xs @ entries d ys" "entries d (a # xs) = the (d a) # entries d xs"
    "entries d [] = []"
  by (simp_all add: entries_def)

lemma lru_rep_distinct: "lru_rep c as \<Longrightarrow> distinct (map fst (entries (dat (lc_heap c)) as))"
proof -
  assume rep: "lru_rep c as"
  have "map_of (lc_items c) (fst (the (dat (lc_heap c) a))) = Some a" if "a \<in> set as" for a
    using that rep by (auto simp: lru_rep_find [OF rep] lru_rep_def chain_def)
  then have "inj_on (\<lambda>a. fst (the (dat (lc_heap c) a))) (set as)"
    by (metis (mono_tags, lifting) inj_onI option.inject)
  with rep show ?thesis
    by (auto simp: entries_def comp_def distinct_map lru_rep_def chain_def)
qed

lemma filter_no_key: "k \<notin> fst ` set es \<Longrightarrow> filter (\<lambda>e. fst e \<noteq> k) es = es"
  by (auto simp: filter_id_conv)

text \<open>Removing the item with a given hash from the entries.\<close>

lemma entries_remove:
  assumes "lru_rep c (as1 @ a # as2)" "dat (lc_heap c) a = Some (k, b)"
  shows "entries (dat (lc_heap c)) (as1 @ as2) =
    filter (\<lambda>e. fst e \<noteq> k) (entries (dat (lc_heap c)) (as1 @ a # as2))"
proof -
  have "distinct (map fst (entries (dat (lc_heap c)) (as1 @ a # as2)))"
    by (rule lru_rep_distinct [OF assms(1)])
  then have "k \<notin> fst ` set (entries (dat (lc_heap c)) (as1 @ as2))"
    using assms(2) by auto
  from filter_no_key [OF this] show ?thesis
    using assms(2) by simp
qed

section \<open>The operations on the chain\<close>

lemma rep_unlink:
  assumes "lru_rep c (as1 @ a # as2)"
  obtains c' where "lru_unlink c a = Some c'" "lru_rep c' (as1 @ as2)" "dat (lc_heap c') = dat (lc_heap c)"
    "lc_head c' = lc_head c" "lc_tail c' = lc_tail c" "lc_maxItems c' = lc_maxItems c" "lc_fresh c' = lc_fresh c"
proof -
  from assms have ch: "chain (lc_heap c) (lc_head c) (lc_tail c) (as1 @ a # as2)"
    and ix: "index_of (lc_items c) (dat (lc_heap c)) (as1 @ a # as2)"
    and fr: "\<forall>a \<in> set (lc_head c # (as1 @ a # as2) @ [lc_tail c]). a < lc_fresh c"
    by (simp_all add: lru_rep_def)
  from ch obtain h where h: "splice_out (lc_heap c) a = Some h" "chain h (lc_head c) (lc_tail c) (as1 @ as2)"
      "dat h = dat (lc_heap c)"
    by (rule chain_splice_out)
  from ch have "dat h a \<noteq> None" by (simp add: chain_def h(3))
  then obtain it where it: "h a = Some it" using dat_heap by blast
  have "dat (lc_heap c) a = Some (it_hash it, it_blob it)"
    unfolding h(3) [symmetric] by (simp add: dat_def it)
  moreover have "a \<notin> set (as1 @ as2)" using ch by (auto simp: chain_def)
  ultimately have "index_of (AList.delete (it_hash it) (lc_items c)) (dat (lc_heap c)) (as1 @ as2)"
    by (rule index_of_delete [OF ix])
  with h fr show thesis
    by (intro that [of "c\<lparr>lc_heap := h, lc_items := AList.delete (it_hash it) (lc_items c)\<rparr>"])
       (auto simp: lru_unlink_def it lru_rep_def)
qed

lemma rep_last:
  assumes "lru_rep c (as @ [a])"
  shows "prv (lc_heap c) (lc_tail c) = Some a"
  using assms linked_append [of "nxt (lc_heap c)" "prv (lc_heap c)" "lc_head c # as" a "[lc_tail c]"]
  by (simp add: lru_rep_def chain_def)

lemma rep_shrink:
  assumes "lru_rep c as" "0 \<le> lc_maxItems c"
  shows "\<exists>c'. lru_shrink c = Some c' \<and> lru_rep c' (take (nat (lc_maxItems c)) as) \<and>
    dat (lc_heap c') = dat (lc_heap c) \<and> lc_maxItems c' = lc_maxItems c"
  using assms
proof (induction as arbitrary: c rule: rev_induct)
  case Nil
  with lru_rep_size [OF Nil(1)] show ?case by (subst lru_shrink.simps) simp
next
  case (snoc a as)
  have size: "length (lc_items c) = Suc (length as)" using lru_rep_size [OF snoc.prems(1)] by simp
  show ?case
  proof (cases "int (Suc (length as)) \<le> lc_maxItems c")
    case True
    with snoc.prems size show ?thesis by (subst lru_shrink.simps) simp
  next
    case False
    from snoc.prems(1) obtain c1 where c1: "lru_unlink c a = Some c1" "lru_rep c1 (as @ [])"
      "dat (lc_heap c1) = dat (lc_heap c)" "lc_maxItems c1 = lc_maxItems c"
      by (metis rep_unlink)
    obtain tl where tl: "lc_heap c (lc_tail c) = Some tl"
      using snoc.prems(1) dat_heap by (fastforce simp: lru_rep_def chain_def)
    with rep_last [OF snoc.prems(1)] have "it_prev tl = Some a" by (simp add: prv_def)
    with False size tl c1(1) have "lru_shrink c = lru_shrink c1"
      by (subst lru_shrink.simps) simp
    moreover from snoc.IH [of c1] c1 snoc.prems(2)
    obtain c' where "lru_shrink c1 = Some c'" "lru_rep c' (take (nat (lc_maxItems c)) as)"
      "dat (lc_heap c') = dat (lc_heap c)" "lc_maxItems c' = lc_maxItems c"
      by auto
    moreover from False have "take (nat (lc_maxItems c)) (as @ [a]) = take (nat (lc_maxItems c)) as"
      by simp
    ultimately show ?thesis by simp
  qed
qed

lemma rep_push:
  assumes "lru_rep c as" "a \<notin> set (lc_head c # as @ [lc_tail c])" "dat (lc_heap c) a = Some (k, b)"
    "map_of (lc_items c) k = None" "a < lc_fresh c"
  obtains h where "push_top (lc_heap c) (lc_head c) a = Some h" "dat h = dat (lc_heap c)"
    "lru_rep (c\<lparr>lc_items := AList.update k a (lc_items c), lc_heap := h\<rparr>) (a # as)"
proof -
  obtain h where h: "push_top (lc_heap c) (lc_head c) a = Some h" "chain h (lc_head c) (lc_tail c) (a # as)"
      "dat h = dat (lc_heap c)"
    using chain_push_top [of "lc_heap c" "lc_head c" "lc_tail c" as a] assms(1-3) by (auto simp: lru_rep_def)
  moreover have "index_of (AList.update k a (lc_items c)) (dat (lc_heap c)) (a # as)"
    using assms(1,3,4) by (auto simp: lru_rep_def intro: index_of_insert)
  ultimately show thesis
    using assms(1,5) by (intro that [of h]) (auto simp: lru_rep_def)
qed

lemma rep_touch:
  assumes "lru_rep c (as1 @ a # as2)"
  obtains h1 h2 where "splice_out (lc_heap c) a = Some h1" "push_top h1 (lc_head c) a = Some h2"
    "dat h2 = dat (lc_heap c)" "lru_rep (c\<lparr>lc_heap := h2\<rparr>) (a # as1 @ as2)"
proof -
  have ch: "chain (lc_heap c) (lc_head c) (lc_tail c) (as1 @ a # as2)"
    using assms by (simp add: lru_rep_def)
  then obtain h1 where h1: "splice_out (lc_heap c) a = Some h1"
      "chain h1 (lc_head c) (lc_tail c) (as1 @ as2)" "dat h1 = dat (lc_heap c)"
    by (rule chain_splice_out)
  have "a \<notin> set (lc_head c # (as1 @ as2) @ [lc_tail c])" "dat h1 a \<noteq> None"
    using ch by (auto simp: chain_def h1(3))
  then obtain h2 where h2: "push_top h1 (lc_head c) a = Some h2"
      "chain h2 (lc_head c) (lc_tail c) (a # as1 @ as2)" "dat h2 = dat h1"
    using chain_push_top [OF h1(2)] by blast
  have "index_of (lc_items c) (dat (lc_heap c)) (a # as1 @ as2)"
    using assms by (auto simp: lru_rep_def intro: index_of_perm)
  with assms h1 h2 show thesis
    by (intro that [of h1 h2]) (auto simp: lru_rep_def)
qed

section \<open>The list specification\<close>

datatype lru_op = AddKey lruKey cacheBlob | Get lruKey | Delete lruKey | DeleteFunc "cacheBlob \<Rightarrow> bool" | Reset | Size

datatype lru_out = Done | Found "cacheBlob option" | Count nat

definition spec_find :: "u64 \<Rightarrow> lruKey \<Rightarrow> (u64 \<times> cacheBlob) list \<Rightarrow> cacheBlob option" where
  "spec_find k key es =
     (case map_of es k of None \<Rightarrow> None | Some b \<Rightarrow> if matchesKey b key then Some b else None)"

definition drop_key :: "u64 \<Rightarrow> (u64 \<times> cacheBlob) list \<Rightarrow> (u64 \<times> cacheBlob) list" where
  "drop_key k es = filter (\<lambda>e. fst e \<noteq> k) es"

definition trim :: "int \<Rightarrow> 'a list \<Rightarrow> 'a list" where
  "trim m xs = (if m \<le> 0 then xs else take (nat m) xs)"

fun lru_spec :: "(lruKey \<Rightarrow> u64) \<Rightarrow> int \<Rightarrow> lru_op \<Rightarrow> (u64 \<times> cacheBlob) list \<Rightarrow> lru_out \<times> (u64 \<times> cacheBlob) list" where
  "lru_spec H m (AddKey key b) es =
     (let es' = (H key, b) # drop_key (H key) es
      in (Done, if spec_find (H key) key es = None then trim m es' else es'))"
| "lru_spec H m (Get key) es =
     (case spec_find (H key) key es of
        None \<Rightarrow> (Found None, es)
      | Some b \<Rightarrow> (Found (Some b), (H key, b) # drop_key (H key) es))"
| "lru_spec H m (Delete key) es =
     (Done, if spec_find (H key) key es = None then es else drop_key (H key) es)"
| "lru_spec H m (DeleteFunc f) es = (Done, filter (\<lambda>e. \<not> f (snd e)) es)"
| "lru_spec H m Reset es = (Done, [])"
| "lru_spec H m Size es = (Count (length es), es)"

fun lru_step :: "(lruKey \<Rightarrow> u64) \<Rightarrow> lru_op \<Rightarrow> lruCache \<Rightarrow> (lru_out \<times> lruCache) option" where
  "lru_step H (AddKey key b) c = map_option (Pair Done) (lru_addKey H c key b)"
| "lru_step H (Get key) c = map_option (\<lambda>(b, c'). (Found b, c')) (lru_get H c key)"
| "lru_step H (Delete key) c = map_option (Pair Done) (lru_delete H c key)"
| "lru_step H (DeleteFunc f) c = map_option (Pair Done) (lru_deleteFunc (\<lambda>it. f (it_blob it)) c)"
| "lru_step H Reset c = Some (Done, lru_reset c)"
| "lru_step H Size c = Some (Count (lru_size c), c)"

section \<open>The simulation\<close>

lemma rep_dat: "lru_rep c as \<Longrightarrow> a \<in> set as \<Longrightarrow> \<exists>k b. dat (lc_heap c) a = Some (k, b)"
  by (fastforce simp: lru_rep_def chain_def)

lemma rep_split:
  assumes "lru_rep c as" "map_of (lc_items c) k = Some a"
  obtains as1 as2 b where "as = as1 @ a # as2" "dat (lc_heap c) a = Some (k, b)"
    "map_of (entries (dat (lc_heap c)) as) k = Some b"
proof -
  from lru_rep_find [OF assms(1)] assms(2)
  have a: "a \<in> set as" "map_option fst (dat (lc_heap c) a) = Some k" by simp_all
  then obtain b where b: "dat (lc_heap c) a = Some (k, b)" by (cases "dat (lc_heap c) a") auto
  with a(1) have "(k, b) \<in> set (entries (dat (lc_heap c)) as)"
    by (force simp: entries_def)
  with lru_rep_distinct [OF assms(1)] have "map_of (entries (dat (lc_heap c)) as) k = Some b"
    by (rule map_of_is_SomeI)
  with b split_list [OF a(1)] show thesis by (metis that)
qed

lemma rep_no_key:
  assumes "lru_rep c as" "map_of (lc_items c) k = None"
  shows "k \<notin> fst ` set (entries (dat (lc_heap c)) as)" "map_of (entries (dat (lc_heap c)) as) k = None"
proof -
  have "fst (the (dat (lc_heap c) a)) \<noteq> k" if "a \<in> set as" for a
  proof
    assume "fst (the (dat (lc_heap c) a)) = k"
    with rep_dat [OF assms(1) that] have "map_option fst (dat (lc_heap c) a) = Some k" by auto
    with lru_rep_find [OF assms(1), of k a] that assms(2) show False by simp
  qed
  then show "k \<notin> fst ` set (entries (dat (lc_heap c)) as)"
    by (simp add: entries_def image_image image_iff) metis
  then show "map_of (entries (dat (lc_heap c)) as) k = None" by (simp add: map_of_eq_None_iff)
qed

lemma drop_key_no_key: "k \<notin> fst ` set es \<Longrightarrow> drop_key k es = es"
  unfolding drop_key_def by (rule filter_no_key)

lemma find_none:
  assumes "lru_rep c as" "spec_find k key (entries (dat (lc_heap c)) as) = None"
  shows "lru_find c k key = Some None"
proof (cases "map_of (lc_items c) k")
  case None
  then show ?thesis by (simp add: lru_find_def)
next
  case (Some a)
  from rep_split [OF assms(1) Some] obtain b where "dat (lc_heap c) a = Some (k, b)"
    "map_of (entries (dat (lc_heap c)) as) k = Some b" by metis
  with assms(2) Some show ?thesis
    by (auto simp: lru_find_def spec_find_def elim!: dat_SomeE split: if_splits)
qed

lemma find_some:
  assumes "lru_rep c as" "spec_find k key (entries (dat (lc_heap c)) as) = Some b"
  obtains as1 a as2 where "lru_find c k key = Some (Some a)" "as = as1 @ a # as2" "dat (lc_heap c) a = Some (k, b)"
proof (cases "map_of (lc_items c) k")
  case None
  with rep_no_key [OF assms(1) None] assms(2) show thesis by (simp add: spec_find_def)
next
  case (Some a)
  from rep_split [OF assms(1) Some] obtain as1 as2 b' where
    a: "as = as1 @ a # as2" "dat (lc_heap c) a = Some (k, b')"
      "map_of (entries (dat (lc_heap c)) as) k = Some b'" by metis
  with assms(2) have "b' = b" "matchesKey b key" by (auto simp: spec_find_def split: if_splits)
  with a Some show thesis
    by (intro that [of a as1 as2]) (auto simp: lru_find_def elim!: dat_SomeE)
qed

lemma entries_front:
  assumes "lru_rep c (as1 @ a # as2)" "dat (lc_heap c) a = Some (k, b)"
  shows "entries (dat (lc_heap c)) (a # as1 @ as2) = (k, b) # drop_key k (entries (dat (lc_heap c)) (as1 @ a # as2))"
  using entries_remove [OF assms] assms(2) by (simp add: drop_key_def)

lemma touch_some:
  assumes "lru_rep c as" "spec_find k key (entries (dat (lc_heap c)) as) = Some b"
  obtains a as' c' where "lru_touch c k key = Some (Some a, c')" "lru_rep c' (a # as')"
    "dat (lc_heap c') a = Some (k, b)" "lc_maxItems c' = lc_maxItems c"
    "entries (dat (lc_heap c')) (a # as') = (k, b) # drop_key k (entries (dat (lc_heap c)) as)"
    "k \<notin> fst ` set (entries (dat (lc_heap c')) as')"
proof -
  obtain as1 a as2 where f: "lru_find c k key = Some (Some a)" and as: "as = as1 @ a # as2"
    and d: "dat (lc_heap c) a = Some (k, b)"
    using find_some [OF assms] by metis
  from assms(1) obtain h1 h2 where h: "splice_out (lc_heap c) a = Some h1" "push_top h1 (lc_head c) a = Some h2"
    "dat h2 = dat (lc_heap c)" "lru_rep (c\<lparr>lc_heap := h2\<rparr>) (a # as1 @ as2)"
    unfolding as by (rule rep_touch)
  from lru_rep_distinct [OF h(4)] have "k \<notin> fst ` set (entries (dat (lc_heap c)) (as1 @ as2))"
    using d by (auto simp: h(3))
  with f h d entries_front [OF assms(1) [unfolded as] d] show thesis
    by (intro that [of a "c\<lparr>lc_heap := h2\<rparr>" "as1 @ as2"]) (simp_all add: lru_touch_def as)
qed

lemma chain_cong:
  assumes "chain h hp tp as"
    "\<And>a. a \<in> set (hp # as @ [tp]) \<Longrightarrow> nxt h' a = nxt h a \<and> prv h' a = prv h a \<and> (dat h' a = None \<longleftrightarrow> dat h a = None)"
  shows "chain h' hp tp as"
proof -
  have "linked (nxt h') (prv h') (hp # as @ [tp]) = linked (nxt h) (prv h) (hp # as @ [tp])"
    using assms(2) by (intro linked_cong) (metis in_set_butlastD, simp)
  with assms show ?thesis unfolding chain_def by blast
qed

lemma index_of_cong: "index_of m d as \<Longrightarrow> (\<And>a. a \<in> set as \<Longrightarrow> d' a = d a) \<Longrightarrow> index_of m d' as"
  unfolding index_of_def by metis

lemma rep_alloc:
  assumes "lru_rep c as"
  shows "lru_rep (c\<lparr>lc_heap := (lc_heap c)(lc_fresh c \<mapsto> it), lc_fresh := Suc (lc_fresh c)\<rparr>) as"
proof -
  let ?h = "(lc_heap c)(lc_fresh c \<mapsto> it)"
  have same: "nxt ?h a = nxt (lc_heap c) a" "prv ?h a = prv (lc_heap c) a" "dat ?h a = dat (lc_heap c) a"
    if "a \<in> set (lc_head c # as @ [lc_tail c])" for a
  proof -
    from assms that have "a \<noteq> lc_fresh c" by (auto simp: lru_rep_def)
    then show "nxt ?h a = nxt (lc_heap c) a" "prv ?h a = prv (lc_heap c) a" "dat ?h a = dat (lc_heap c) a"
      by (simp_all add: nxt_def prv_def dat_def)
  qed
  have "chain ?h (lc_head c) (lc_tail c) as"
  proof (rule chain_cong)
    show "chain (lc_heap c) (lc_head c) (lc_tail c) as" using assms by (simp add: lru_rep_def)
    fix a assume "a \<in> set (lc_head c # as @ [lc_tail c])"
    from same [OF this]
    show "nxt ?h a = nxt (lc_heap c) a \<and> prv ?h a = prv (lc_heap c) a \<and> (dat ?h a = None) = (dat (lc_heap c) a = None)"
      by (simp only: simp_thms)
  qed
  moreover have "index_of (lc_items c) (dat ?h) as"
  proof (rule index_of_cong)
    show "index_of (lc_items c) (dat (lc_heap c)) as" using assms by (simp add: lru_rep_def)
  qed (rule same(3), simp)
  ultimately show ?thesis
    using assms by (auto simp: lru_rep_def less_SucI)
qed

lemma rep_resize:
  assumes "lru_rep c as"
  obtains c' where "lru_resize c = Some c'" "lru_rep c' (trim (lc_maxItems c) as)"
    "dat (lc_heap c') = dat (lc_heap c)" "lc_maxItems c' = lc_maxItems c"
proof (cases "lc_maxItems c \<le> 0")
  case True
  with assms show thesis by (intro that [of c]) (simp_all add: lru_resize_def trim_def)
next
  case False
  with rep_shrink [OF assms] show thesis by (auto simp: lru_resize_def trim_def intro: that)
qed

lemma entries_trim: "entries d (trim m as) = trim m (entries d as)"
  by (simp add: entries_def trim_def take_map)

lemma entries_upd: "a \<notin> set as \<Longrightarrow> entries (d(a \<mapsto> v)) as = entries d as"
  unfolding entries_def by (rule map_cong) auto

lemma rep_evict:
  assumes "lru_rep c as"
  obtains c' as' where
    "(case map_of (lc_items c) k of None \<Rightarrow> Some c | Some existing \<Rightarrow> lru_unlink c existing) = Some c'"
    "lru_rep c' as'" "entries (dat (lc_heap c')) as' = drop_key k (entries (dat (lc_heap c)) as)"
    "map_of (lc_items c') k = None" "set as' \<subseteq> set as" "dat (lc_heap c') = dat (lc_heap c)"
    "lc_head c' = lc_head c" "lc_tail c' = lc_tail c" "lc_maxItems c' = lc_maxItems c" "lc_fresh c' = lc_fresh c"
proof (cases "map_of (lc_items c) k")
  case None
  with assms show thesis
    by (intro that [of c as]) (simp_all add: drop_key_no_key rep_no_key)
next
  case (Some a)
  from rep_split [OF assms Some] obtain as1 as2 b where
    as: "as = as1 @ a # as2" and d: "dat (lc_heap c) a = Some (k, b)" by metis
  from assms obtain c' where c': "lru_unlink c a = Some c'" "lru_rep c' (as1 @ as2)"
    "dat (lc_heap c') = dat (lc_heap c)" "lc_head c' = lc_head c" "lc_tail c' = lc_tail c"
    "lc_maxItems c' = lc_maxItems c" "lc_fresh c' = lc_fresh c"
    unfolding as by (rule rep_unlink)
  have e: "entries (dat (lc_heap c')) (as1 @ as2) = drop_key k (entries (dat (lc_heap c)) as)"
    unfolding c'(3) as drop_key_def using assms d unfolding as by (rule entries_remove)
  have "map_of (lc_items c') k = None"
  proof (rule ccontr)
    assume "map_of (lc_items c') k \<noteq> None"
    then obtain x where "map_of (lc_items c') k = Some x" by blast
    from rep_split [OF c'(2) this] obtain b' where "map_of (entries (dat (lc_heap c')) (as1 @ as2)) k = Some b'"
      by metis
    from map_of_SomeD [OF this] show False unfolding e by (simp add: drop_key_def)
  qed
  with Some c' e show thesis by (intro that [of c' "as1 @ as2"]) (auto simp: as)
qed

lemma sim_add:
  assumes "lru_abs m c es"
  shows "\<exists>c'. lru_step H (AddKey key b) c = Some (fst (lru_spec H m (AddKey key b) es), c') \<and>
    lru_abs m c' (snd (lru_spec H m (AddKey key b) es))"
proof -
  from assms obtain as where rep: "lru_rep c as" and es: "es = entries (dat (lc_heap c)) as"
    and m: "lc_maxItems c = m" by (auto simp: lru_abs_def)
  let ?k = "H key"
  show ?thesis
  proof (cases "spec_find ?k key es")
    case None
    let ?it = "new_cacheItem\<lparr>it_hash := ?k, it_blob := b\<rparr>"
    let ?c1 = "c\<lparr>lc_heap := (lc_heap c)(lc_fresh c \<mapsto> ?it), lc_fresh := Suc (lc_fresh c)\<rparr>"
    have new: "lc_fresh c \<notin> set (lc_head c # as @ [lc_tail c])"
      using rep unfolding lru_rep_def by blast
    have d1: "dat (lc_heap ?c1) (lc_fresh c) = Some (?k, b)" by (simp add: dat_def)
    have es1: "entries (dat (lc_heap ?c1)) as = es"
      using new unfolding es entries_def by (auto simp: dat_def)
    obtain c2 as2 where c2:
      "(case map_of (lc_items ?c1) ?k of None \<Rightarrow> Some ?c1 | Some existing \<Rightarrow> lru_unlink ?c1 existing) = Some c2"
      "lru_rep c2 as2" "entries (dat (lc_heap c2)) as2 = drop_key ?k es" "map_of (lc_items c2) ?k = None"
      "set as2 \<subseteq> set as" "dat (lc_heap c2) = dat (lc_heap ?c1)" "lc_head c2 = lc_head c" "lc_tail c2 = lc_tail c"
      "lc_maxItems c2 = m" "lc_fresh c2 = Suc (lc_fresh c)"
      using rep_evict [OF rep_alloc [OF rep, of ?it], of ?k] unfolding es1 by (auto simp: m)
    have "lc_fresh c \<notin> set (lc_head c2 # as2 @ [lc_tail c2])" using new c2(5,7,8) by auto
    then obtain h3 where h3: "push_top (lc_heap c2) (lc_head c2) (lc_fresh c) = Some h3" "dat h3 = dat (lc_heap c2)"
      "lru_rep (c2\<lparr>lc_items := AList.update ?k (lc_fresh c) (lc_items c2), lc_heap := h3\<rparr>) (lc_fresh c # as2)"
      using rep_push [OF c2(2), of "lc_fresh c" ?k b] c2(4,6,10) d1 by auto
    obtain c4 where c4: "lru_resize (c2\<lparr>lc_items := AList.update ?k (lc_fresh c) (lc_items c2), lc_heap := h3\<rparr>) = Some c4"
      "lru_rep c4 (trim m (lc_fresh c # as2))" "dat (lc_heap c4) = dat h3" "lc_maxItems c4 = m"
      using rep_resize [OF h3(3)] by (auto simp: c2(9))
    have "entries (dat (lc_heap c4)) (trim m (lc_fresh c # as2)) = trim m ((?k, b) # drop_key ?k es)"
      using c2(3,6) d1 by (simp add: entries_trim c4(3) h3(2))
    moreover have "lru_addKey H c key b = Some c4"
      using find_none [OF rep] None c2(1) h3(1) c4(1)
      by (simp add: lru_addKey_def lru_touch_def es lru_insert_def)
    ultimately show ?thesis
      using None c4(2,4) by (auto simp: lru_abs_def)
  next
    case (Some b0)
    then obtain a as' c1 where t: "lru_touch c ?k key = Some (Some a, c1)" "lru_rep c1 (a # as')"
      "dat (lc_heap c1) a = Some (?k, b0)" "lc_maxItems c1 = m"
      "entries (dat (lc_heap c1)) (a # as') = (?k, b0) # drop_key ?k es"
      using touch_some [OF rep] unfolding es by (metis m)
    obtain it where it: "lc_heap c1 a = Some it" "it_hash it = ?k" using t(3) by (auto elim: dat_SomeE)
    let ?c2 = "c1\<lparr>lc_heap := (lc_heap c1)(a \<mapsto> it\<lparr>it_blob := b\<rparr>)\<rparr>"
    have d: "dat (lc_heap ?c2) = (dat (lc_heap c1))(a \<mapsto> (?k, b))" "nxt (lc_heap ?c2) = nxt (lc_heap c1)"
      "prv (lc_heap ?c2) = prv (lc_heap c1)"
      using it by (auto simp: dat_def nxt_def prv_def fun_eq_iff)
    have "lru_rep ?c2 (a # as')"
      using t(2,3) d unfolding lru_rep_def chain_def index_of_def by (auto split: if_splits)
    moreover have "a \<notin> set as'" using t(2) by (auto simp: lru_rep_def chain_def)
    then have "entries (dat (lc_heap ?c2)) (a # as') = (?k, b) # drop_key ?k es"
      using t(5) unfolding d(1) by (simp add: entries_upd)
    moreover have "lru_addKey H c key b = Some ?c2"
      by (simp add: lru_addKey_def t(1) it(1))
    ultimately show ?thesis
      using Some t(4) by (auto simp: lru_abs_def)
  qed
qed

lemma sim_get:
  assumes "lru_abs m c es"
  shows "\<exists>c'. lru_step H (Get key) c = Some (fst (lru_spec H m (Get key) es), c') \<and>
    lru_abs m c' (snd (lru_spec H m (Get key) es))"
proof -
  from assms obtain as where rep: "lru_rep c as" and es: "es = entries (dat (lc_heap c)) as"
    and m: "lc_maxItems c = m" by (auto simp: lru_abs_def)
  show ?thesis
  proof (cases "spec_find (H key) key es")
    case None
    with find_none [OF rep] assms show ?thesis by (simp add: lru_get_def lru_touch_def es)
  next
    case (Some b)
    then obtain a as' c1 where t: "lru_touch c (H key) key = Some (Some a, c1)" "lru_rep c1 (a # as')"
      "dat (lc_heap c1) a = Some (H key, b)" "lc_maxItems c1 = m"
      "entries (dat (lc_heap c1)) (a # as') = (H key, b) # drop_key (H key) es"
      using touch_some [OF rep] unfolding es by (metis m)
    from t(3) have "lru_get H c key = Some (Some b, c1)"
      by (auto simp: lru_get_def t(1) elim: dat_SomeE)
    with Some t(2,4,5) show ?thesis by (auto simp: lru_abs_def)
  qed
qed

lemma sim_delete:
  assumes "lru_abs m c es"
  shows "\<exists>c'. lru_step H (Delete key) c = Some (fst (lru_spec H m (Delete key) es), c') \<and>
    lru_abs m c' (snd (lru_spec H m (Delete key) es))"
proof -
  from assms obtain as where rep: "lru_rep c as" and es: "es = entries (dat (lc_heap c)) as"
    and m: "lc_maxItems c = m" by (auto simp: lru_abs_def)
  show ?thesis
  proof (cases "spec_find (H key) key es")
    case None
    with find_none [OF rep] assms show ?thesis by (simp add: lru_delete_def es)
  next
    case (Some b)
    then obtain as1 a as2 where f: "lru_find c (H key) key = Some (Some a)" and as: "as = as1 @ a # as2"
      and d: "dat (lc_heap c) a = Some (H key, b)"
      using find_some [OF rep] unfolding es by metis
    from rep obtain c' where c': "lru_unlink c a = Some c'" "lru_rep c' (as1 @ as2)"
      "dat (lc_heap c') = dat (lc_heap c)" "lc_maxItems c' = m"
      unfolding as m [symmetric] by (rule rep_unlink)
    have "entries (dat (lc_heap c')) (as1 @ as2) = drop_key (H key) es"
      unfolding c'(3) es drop_key_def using rep d unfolding as by (rule entries_remove)
    with Some f c' show ?thesis by (auto simp: lru_abs_def lru_delete_def)
  qed
qed

lemma rep_neighbours:
  assumes "lru_rep c (ps @ qs)" "a = last (lc_head c # ps)" "n = hd (qs @ [lc_tail c])"
  shows "nxt (lc_heap c) a = Some n" "prv (lc_heap c) n = Some a"
proof -
  obtain ys where ys: "qs @ [lc_tail c] = n # ys" using assms(3) by (cases "qs @ [lc_tail c]") auto
  have "lc_head c # (ps @ qs) @ [lc_tail c] = butlast (lc_head c # ps) @ a # n # ys"
    using append_butlast_last_id [of "lc_head c # ps"] assms(2) ys
    by (metis append.assoc append_Cons append_Nil list.distinct(1))
  with assms(1) have "linked (nxt (lc_heap c)) (prv (lc_heap c)) (a # n # ys)"
    using linked_append [of _ _ "butlast (lc_head c # ps)" a "n # ys"] by (simp add: lru_rep_def chain_def)
  then show "nxt (lc_heap c) a = Some n" "prv (lc_heap c) n = Some a" by simp_all
qed

lemma rep_deleteLoop:
  assumes "lru_rep c (ps @ qs)"
  shows "\<exists>c'. lru_deleteLoop (\<lambda>it. f (it_blob it)) c (Some (hd (qs @ [lc_tail c]))) = Some c' \<and>
    lru_rep c' (ps @ filter (\<lambda>a. \<not> f (snd (the (dat (lc_heap c) a)))) qs) \<and>
    dat (lc_heap c') = dat (lc_heap c) \<and> lc_maxItems c' = lc_maxItems c"
  using assms
proof (induction qs arbitrary: c ps)
  case Nil
  then show ?case by (subst lru_deleteLoop.simps) simp
next
  case (Cons a qs)
  have a: "a \<noteq> lc_tail c" using Cons.prems by (auto simp: lru_rep_def chain_def)
  obtain it where it: "lc_heap c a = Some it" "the (dat (lc_heap c) a) = (it_hash it, it_blob it)"
    using rep_dat [OF Cons.prems, of a] by (auto simp: dat_def)
  have "nxt (lc_heap c) a = Some (hd (qs @ [lc_tail c]))"
    using rep_neighbours(1) [of c "ps @ [a]" qs a] Cons.prems by simp
  then have n: "it_next it = Some (hd (qs @ [lc_tail c]))" using it(1) by (simp add: nxt_def)
  show ?case
  proof (cases "f (it_blob it)")
    case True
    from Cons.prems obtain c1 where c1: "lru_unlink c a = Some c1" "lru_rep c1 (ps @ qs)"
      "dat (lc_heap c1) = dat (lc_heap c)" "lc_tail c1 = lc_tail c" "lc_maxItems c1 = lc_maxItems c"
      by (rule rep_unlink)
    with Cons.IH [OF c1(2)] a it n True show ?thesis by (subst lru_deleteLoop.simps) simp
  next
    case False
    have "lru_rep c ((ps @ [a]) @ qs)" using Cons.prems by simp
    from Cons.IH [OF this] a it n False show ?thesis by (subst lru_deleteLoop.simps) simp
  qed
qed

lemma sim_deleteFunc:
  assumes "lru_abs m c es"
  shows "\<exists>c'. lru_step H (DeleteFunc f) c = Some (fst (lru_spec H m (DeleteFunc f) es), c') \<and>
    lru_abs m c' (snd (lru_spec H m (DeleteFunc f) es))"
proof -
  from assms obtain as where rep: "lru_rep c as" and es: "es = entries (dat (lc_heap c)) as"
    and m: "lc_maxItems c = m" by (auto simp: lru_abs_def)
  have "dat (lc_heap c) (lc_head c) \<noteq> None" using rep by (simp add: lru_rep_def chain_def)
  then obtain it where it: "lc_heap c (lc_head c) = Some it" using dat_heap by blast
  have "it_next it = Some (hd (as @ [lc_tail c]))"
    using rep_neighbours(1) [of c "[]" as "lc_head c"] rep it by (simp add: nxt_def)
  moreover from rep_deleteLoop [of c "[]" as f] rep obtain c' where
    "lru_deleteLoop (\<lambda>it. f (it_blob it)) c (Some (hd (as @ [lc_tail c]))) = Some c'"
    "lru_rep c' (filter (\<lambda>a. \<not> f (snd (the (dat (lc_heap c) a)))) as)"
    "dat (lc_heap c') = dat (lc_heap c)" "lc_maxItems c' = lc_maxItems c" by auto
  moreover have "entries d (filter (\<lambda>a. \<not> f (snd (the (d a)))) as) = filter (\<lambda>e. \<not> f (snd e)) (entries d as)" for d
    by (simp add: entries_def filter_map comp_def)
  ultimately show ?thesis
    using it m by (auto simp: lru_deleteFunc_def lru_abs_def es)
qed

lemma sim_reset: "lru_abs m c es \<Longrightarrow> lru_abs m (lru_reset c) []"
  by (auto simp: lru_abs_def lru_rep_def lru_reset_def Let_def chain_def index_of_def nxt_def prv_def dat_def
      intro!: exI [of _ "[]"])

lemma lru_abs_size: "lru_abs m c es \<Longrightarrow> lru_size c = length es"
  by (auto simp: lru_abs_def lru_size_def lru_rep_size entries_def)

interpretation lru: data_refinement "lru_step H" "lru_spec H m" "lru_abs m" for H m
proof (unfold_locales, goal_cases)
  case (1 c a x)
  show ?case
  proof (cases x)
    case (AddKey key b)
    with sim_add [OF 1] show ?thesis by blast
  next
    case (Get key)
    with sim_get [OF 1] show ?thesis by blast
  next
    case (Delete key)
    with sim_delete [OF 1] show ?thesis by blast
  next
    case (DeleteFunc f)
    with sim_deleteFunc [OF 1] show ?thesis by blast
  next
    case Reset
    with sim_reset [OF 1] show ?thesis by simp
  next
    case Size
    with 1 show ?thesis by (simp add: lru_abs_size)
  qed
qed

lemma lru_abs_new: "lru_abs m (newLRUCache m) []"
  by (auto simp: lru_abs_def lru_rep_def newLRUCache_def new_cacheItem_def chain_def index_of_def nxt_def prv_def
      dat_def intro!: exI [of _ "[]"])

section \<open>What the specification guarantees\<close>

text \<open>The entries of a cache that is used as the backends use it: each blob is stored under its own key.\<close>

definition store_ok :: "(lruKey \<Rightarrow> u64) \<Rightarrow> int \<Rightarrow> (u64 \<times> cacheBlob) list \<Rightarrow> bool" where
  "store_ok H m es \<longleftrightarrow>
     distinct (map fst es) \<and> (\<forall>(k, b) \<in> set es. k = H (blob_key b) \<and> matchesKey b (blob_key b)) \<and>
     (0 < m \<longrightarrow> length es \<le> nat m)"

fun op_ok :: "lru_op \<Rightarrow> bool" where
  "op_ok (AddKey key b) \<longleftrightarrow> matchesKey b key"
| "op_ok _ \<longleftrightarrow> True"

lemma matchesKey_key: "matchesKey b key \<Longrightarrow> blob_key b = key"
  by (simp add: matchesKey_iff)

lemma set_trim: "set (trim m xs) \<subseteq> set xs"
  by (auto simp: trim_def dest: in_set_takeD)

lemma distinct_trim: "distinct (map f xs) \<Longrightarrow> distinct (map f (trim m xs))"
  by (simp add: trim_def flip: take_map)

lemma drop_key_simps:
  "set (drop_key k es) \<subseteq> set es" "k \<notin> fst ` set (drop_key k es)"
  "distinct (map fst es) \<Longrightarrow> distinct (map fst (drop_key k es))" "length (drop_key k es) \<le> length es"
  by (auto simp: drop_key_def distinct_map_filter)

lemma length_drop_key: "k \<in> fst ` set es \<Longrightarrow> length (drop_key k es) < length es"
  by (force simp: drop_key_def intro: length_filter_less)

lemma spec_find_SomeD: "spec_find k key es = Some b \<Longrightarrow> (k, b) \<in> set es \<and> matchesKey b key"
  by (auto simp: spec_find_def dest: map_of_SomeD split: option.splits if_splits)

lemma store_ok_front:
  assumes "store_ok H m es" "matchesKey b key"
  shows "spec_find (H key) key es \<noteq> None \<Longrightarrow> store_ok H m ((H key, b) # drop_key (H key) es)"
    "store_ok H m (trim m ((H key, b) # drop_key (H key) es))"
proof -
  let ?es = "(H key, b) # drop_key (H key) es"
  have d: "distinct (map fst ?es)" and c: "\<forall>(k, b) \<in> set ?es. k = H (blob_key b) \<and> matchesKey b (blob_key b)"
    using assms drop_key_simps(1,2) [of "H key" es] drop_key_simps(3) [of es "H key"]
    by (auto simp: store_ok_def matchesKey_key)
  show "store_ok H m (trim m ?es)"
    unfolding store_ok_def
  proof (intro conjI)
    show "distinct (map fst (trim m ?es))" by (rule distinct_trim [OF d])
    show "\<forall>(k, b) \<in> set (trim m ?es). k = H (blob_key b) \<and> matchesKey b (blob_key b)"
      using c set_trim [of m ?es] by blast
  qed (simp add: trim_def)
  assume "spec_find (H key) key es \<noteq> None"
  then have "H key \<in> fst ` set es" by (force dest: spec_find_SomeD)
  from length_drop_key [OF this] d c assms(1) show "store_ok H m ?es"
    by (auto simp: store_ok_def)
qed

lemma store_ok_filter: "store_ok H m es \<Longrightarrow> store_ok H m (filter P es)"
  by (auto simp: store_ok_def distinct_map_filter intro: order_trans [OF length_filter_le])

lemma store_ok_step:
  assumes "store_ok H m es" "op_ok x"
  shows "store_ok H m (snd (lru_spec H m x es))"
proof (cases x)
  case (AddKey key b)
  with assms store_ok_front [OF assms(1), of b key] show ?thesis by (auto simp: Let_def)
next
  case (Get key)
  with assms store_ok_front(1) [OF assms(1)] show ?thesis
    by (auto split: option.splits dest: spec_find_SomeD)
next
  case (Delete key)
  with assms store_ok_filter [OF assms(1)] show ?thesis by (auto simp: drop_key_def)
next
  case (DeleteFunc f)
  with store_ok_filter [OF assms(1)] show ?thesis by simp
qed (use assms in \<open>auto simp: store_ok_def\<close>)

lemma store_ok_run:
  "list_all op_ok xs \<Longrightarrow> store_ok H m es \<Longrightarrow> store_ok H m (snd (run_spec (lru_spec H m) xs es))"
proof (induction xs arbitrary: es)
  case (Cons x xs)
  then have "store_ok H m (snd (lru_spec H m x es))" by (simp add: store_ok_step)
  with Cons show ?case by (simp add: case_prod_beta Let_def)
qed simp

text \<open>The operations that leave the entry \<open>b\<close> with hash \<open>k\<close> alone, and the ones that can push it down.\<close>

fun op_other :: "(lruKey \<Rightarrow> u64) \<Rightarrow> u64 \<Rightarrow> cacheBlob \<Rightarrow> lru_op \<Rightarrow> bool" where
  "op_other H k b (AddKey key' b') \<longleftrightarrow> H key' \<noteq> k"
| "op_other H k b (Get key') \<longleftrightarrow> H key' \<noteq> k"
| "op_other H k b (Delete key') \<longleftrightarrow> H key' \<noteq> k"
| "op_other H k b (DeleteFunc f) \<longleftrightarrow> \<not> f b"
| "op_other H k b Reset \<longleftrightarrow> False"
| "op_other H k b Size \<longleftrightarrow> True"

fun op_uses :: "lru_op \<Rightarrow> bool" where
  "op_uses (AddKey _ _) \<longleftrightarrow> True"
| "op_uses (Get _) \<longleftrightarrow> True"
| "op_uses _ \<longleftrightarrow> False"

definition retained :: "u64 \<Rightarrow> cacheBlob \<Rightarrow> nat \<Rightarrow> (u64 \<times> cacheBlob) list \<Rightarrow> bool" where
  "retained k b n es \<longleftrightarrow>
     (\<exists>us vs. es = us @ (k, b) # vs \<and> length us \<le> n \<and> k \<notin> fst ` set us)"

lemma retained_filter:
  assumes "retained k b n es" "P (k, b)"
  shows "retained k b n (filter P es)"
proof -
  obtain us vs where "es = us @ (k, b) # vs" "length us \<le> n" "k \<notin> fst ` set us"
    using assms(1) unfolding retained_def by blast
  with assms(2) show ?thesis
    unfolding retained_def
    by (intro exI [of _ "filter P us"] exI [of _ "filter P vs"])
       (auto intro: order_trans [OF length_filter_le])
qed

lemma retained_push:
  assumes "retained k b n es" "k' \<noteq> k"
  shows "retained k b (Suc n) ((k', b') # drop_key k' es)"
proof -
  have "retained k b n (drop_key k' es)"
    unfolding drop_key_def using assms by (intro retained_filter) auto
  then obtain us vs where "drop_key k' es = us @ (k, b) # vs" "length us \<le> n" "k \<notin> fst ` set us"
    unfolding retained_def by blast
  with assms(2) show ?thesis
    unfolding retained_def by (intro exI [of _ "(k', b') # us"] exI [of _ vs]) auto
qed

lemma retained_trim:
  assumes "retained k b n es" "m \<le> 0 \<or> int n < m"
  shows "retained k b n (trim m es)"
proof (cases "m \<le> 0")
  case False
  obtain us vs where es: "es = us @ (k, b) # vs" "length us \<le> n" "k \<notin> fst ` set us"
    using assms(1) unfolding retained_def by blast
  obtain j where "nat m - length us = Suc j"
    using False assms(2) es(2) by (cases "nat m - length us") auto
  with False es show ?thesis
    unfolding retained_def trim_def by (intro exI [of _ us] exI [of _ "take j vs"]) auto
qed (use assms in \<open>simp add: trim_def\<close>)

lemma retained_mono: "retained k b n es \<Longrightarrow> n \<le> n' \<Longrightarrow> retained k b n' es"
  unfolding retained_def using order_trans by blast

lemma retained_step:
  assumes "retained k b n es" "op_other H k b x" "op_uses x \<Longrightarrow> m \<le> 0 \<or> int (Suc n) < m"
  shows "retained k b (if op_uses x then Suc n else n) (snd (lru_spec H m x es))"
proof (cases x)
  case (AddKey key' b')
  with assms have "retained k b (Suc n) ((H key', b') # drop_key (H key') es)"
    by (intro retained_push) auto
  with AddKey assms(3) show ?thesis by (auto simp: Let_def intro: retained_trim)
next
  case (Get key')
  with assms show ?thesis
    by (auto split: option.splits intro: retained_push retained_mono [of k b n])
next
  case (Delete key')
  with assms show ?thesis by (auto simp: drop_key_def intro: retained_filter)
next
  case (DeleteFunc f)
  with assms show ?thesis by (auto intro: retained_filter)
qed (use assms in auto)

lemma retained_run:
  "retained k b n es \<Longrightarrow> list_all (op_other H k b) ys \<Longrightarrow>
   m \<le> 0 \<or> int (n + length (filter op_uses ys)) < m \<Longrightarrow>
   retained k b (n + length (filter op_uses ys)) (snd (run_spec (lru_spec H m) ys es))"
proof (induction ys arbitrary: n es)
  case (Cons y ys)
  let ?n = "if op_uses y then Suc n else n"
  have "retained k b ?n (snd (lru_spec H m y es))"
    using Cons.prems by (intro retained_step) auto
  then have "retained k b (?n + length (filter op_uses ys))
      (snd (run_spec (lru_spec H m) ys (snd (lru_spec H m y es))))"
    using Cons.prems by (intro Cons.IH) auto
  then show ?case by (simp add: case_prod_beta Let_def split: if_splits)
qed simp

lemma retained_found:
  assumes "retained k b n es" "matchesKey b key"
  shows "spec_find k key es = Some b"
proof -
  obtain us vs where "es = us @ (k, b) # vs" "k \<notin> fst ` set us"
    using assms(1) unfolding retained_def by blast
  then have "map_of es k = Some b" by (simp add: map_add_def map_of_eq_None_iff [THEN iffD2])
  with assms(2) show ?thesis by (simp add: spec_find_def)
qed

text \<open>
  C14: the linked store implements its list specification. For every sequence of operations on a new
  store of any capacity, no operation dereferences nil or loops forever, every output is the one of
  the specification, in which entries are kept most recently used first, and the linked list and the
  index then hold exactly the entries of the specification.
\<close>

theorem lru_refines:
  "\<exists>c'. run_ops (lru_step H) xs (newLRUCache m) = Some (fst (run_spec (lru_spec H m) xs []), c') \<and>
     lru_abs m c' (snd (run_spec (lru_spec H m) xs []))"
  by (rule lru.run_simulates [OF lru_abs_new])

lemma lru_run_outputs:
  "run_ops (lru_step H) xs (newLRUCache m) = Some (outs, c') \<Longrightarrow> outs = fst (run_spec (lru_spec H m) xs [])"
  using lru.run_simulates [OF lru_abs_new, of H xs m] by auto

text \<open>
  C15: the store keeps what it was given for as long as an LRU cache should. After an entry is added,
  any operations on other keys may follow, garbage collection that spares the entry included: as
  long as fewer of them add or look up entries than the capacity (or there is no capacity), the
  entry is found.
\<close>

theorem lru_retains:
  assumes "matchesKey b key" "list_all (op_other H (H key) b) ys"
    "m \<le> 0 \<or> int (length (filter op_uses ys)) < m"
    "run_ops (lru_step H) (xs @ AddKey key b # ys @ [Get key]) (newLRUCache m) = Some (outs, c')"
  shows "last outs = Found (Some b)"
proof -
  let ?es = "snd (run_spec (lru_spec H m) xs [])"
  let ?es1 = "snd (lru_spec H m (AddKey key b) ?es)"
  let ?es2 = "snd (run_spec (lru_spec H m) ys ?es1)"
  have "retained (H key) b 0 ((H key, b) # drop_key (H key) ?es)"
    unfolding retained_def by (intro exI [of _ "[]"] exI [of _ "drop_key (H key) ?es"]) auto
  then have "retained (H key) b 0 ?es1"
    using assms(3) by (auto simp: Let_def intro: retained_trim)
  then have "retained (H key) b (0 + length (filter op_uses ys)) ?es2"
    using assms(2,3) by (intro retained_run) auto
  then have "spec_find (H key) key ?es2 = Some b"
    using assms(1) by (rule retained_found)
  then have "last (fst (run_spec (lru_spec H m) (xs @ AddKey key b # ys @ [Get key]) [])) = Found (Some b)"
    by (simp add: run_spec_append case_prod_beta Let_def)
  with lru_run_outputs [OF assms(4)] show ?thesis by simp
qed

definition ref_hash :: "lruKey \<Rightarrow> u64" where
  "ref_hash key = of_nat (length (q_Name (k_Question key)))"

definition ref_key2 :: lruKey where
  "ref_key2 = ref_key\<lparr>k_Question := \<lparr>q_Name = ''other.'', q_Qtype = 1, q_Qclass = 1\<rparr>\<rparr>"

lemma ref_hash_other: "ref_hash ref_key2 \<noteq> ref_hash ref_key"
  by (simp add: ref_hash_def ref_key2_def ref_key_def)

lemma ref_lru_run: "\<exists>outs c'. run_ops (lru_step ref_hash) xs (newLRUCache m) = Some (outs, c')"
  using lru.run_simulates [OF lru_abs_new] by blast

theorem lru_retains_witness:
  "\<exists>b outs c'. newCacheBlob ref_lib ref_key ref_answer = Inr b \<and>
     run_ops (lru_step ref_hash) ([] @ AddKey ref_key b # [AddKey ref_key2 b, Size] @ [Get ref_key]) (newLRUCache 2) =
       Some (outs, c') \<and> last outs = Found (Some b)"
proof -
  obtain b where b: "newCacheBlob ref_lib ref_key ref_answer = Inr b" using ref_newCacheBlob by blast
  then have "matchesKey b ref_key" by (simp add: newCacheBlob_matchesKey)
  moreover obtain outs c' where run:
    "run_ops (lru_step ref_hash) ([] @ AddKey ref_key b # [AddKey ref_key2 b, Size] @ [Get ref_key]) (newLRUCache 2) =
       Some (outs, c')" using ref_lru_run by blast
  ultimately have "last outs = Found (Some b)"
    using lru_retains [OF _ _ _ run] ref_hash_other by simp
  with b run show ?thesis by blast
qed

text \<open>The last operation of \<open>xs\<close> on a key was to add \<open>b\<close> for it.\<close>

fun op_drops :: "lruKey \<Rightarrow> lru_op \<Rightarrow> bool" where
  "op_drops key (AddKey key' b') \<longleftrightarrow> key' = key"
| "op_drops key (Delete key') \<longleftrightarrow> key' = key"
| "op_drops key Reset \<longleftrightarrow> True"
| "op_drops key _ \<longleftrightarrow> False"

definition last_added :: "lru_op list \<Rightarrow> lruKey \<Rightarrow> cacheBlob \<Rightarrow> bool" where
  "last_added xs key b \<longleftrightarrow> (\<exists>us vs. xs = us @ AddKey key b # vs \<and> list_all (\<lambda>y. \<not> op_drops key y) vs)"

lemma last_added_snoc:
  assumes "last_added xs key b" "\<not> op_drops key x"
  shows "last_added (xs @ [x]) key b"
proof -
  obtain us vs where "xs = us @ AddKey key b # vs" "list_all (\<lambda>y. \<not> op_drops key y) vs"
    using assms(1) unfolding last_added_def by blast
  with assms(2) show ?thesis
    unfolding last_added_def by (intro exI [of _ us] exI [of _ "vs @ [x]"]) auto
qed

lemma last_added_new: "last_added (xs @ [AddKey key b]) key b"
  unfolding last_added_def by (intro exI [of _ xs] exI [of _ "[]"]) auto

lemma spec_entries_added:
  "list_all op_ok xs \<Longrightarrow> (k, b) \<in> set (snd (run_spec (lru_spec H m) xs [])) \<Longrightarrow> last_added xs (blob_key b) b"
proof (induction xs arbitrary: k b rule: rev_induct)
  case (snoc x xs)
  let ?es = "snd (run_spec (lru_spec H m) xs [])"
  have ok: "store_ok H m ?es" using snoc.prems(1) by (intro store_ok_run) (auto simp: store_ok_def)
  from snoc.prems(2) have mem: "(k, b) \<in> set (snd (lru_spec H m x ?es))"
    by (simp add: run_spec_append case_prod_beta Let_def)
  have IH: "last_added xs (blob_key b') b'" if "(k', b') \<in> set ?es" for k' b'
    using snoc that by auto
  have key: "k' = H (blob_key b')" if "(k', b') \<in> set ?es" for k' b'
    using ok that by (auto simp: store_ok_def)
  show ?case
  proof (cases x)
    case (AddKey key b')
    with mem have "(k, b) = (H key, b') \<or> (k, b) \<in> set (drop_key (H key) ?es)"
      using set_trim by (fastforce simp: Let_def split: if_splits)
    then show ?thesis
    proof
      assume "(k, b) = (H key, b')"
      with AddKey snoc.prems(1) show ?thesis by (auto simp: matchesKey_key last_added_new)
    next
      assume "(k, b) \<in> set (drop_key (H key) ?es)"
      then have "(k, b) \<in> set ?es" "blob_key b \<noteq> key" using key by (auto simp: drop_key_def)
      with AddKey show ?thesis by (intro last_added_snoc IH) auto
    qed
  next
    case (Get key)
    with mem have "(k, b) \<in> set ?es"
      using drop_key_simps(1) by (fastforce split: option.splits dest: spec_find_SomeD)
    with Get show ?thesis by (intro last_added_snoc IH) auto
  next
    case (Delete key)
    have "spec_find (H key) key ?es \<noteq> None" if "(k, b) \<in> set ?es" "blob_key b = key"
    proof -
      have "map_of ?es (H key) = Some b" "matchesKey b key"
        using ok that key [OF that(1)] by (auto simp: store_ok_def)
      then show ?thesis by (simp add: spec_find_def)
    qed
    with mem Delete have "(k, b) \<in> set ?es \<and> blob_key b \<noteq> key"
      using key by (auto simp: drop_key_def split: if_splits)
    with Delete show ?thesis by (intro last_added_snoc IH) auto
  qed (use mem in \<open>auto intro: last_added_snoc IH\<close>)
qed simp

text \<open>
  C16: the store never returns an entry for a key it was not stored under, nor one that has been
  replaced, deleted or flushed: a lookup that finds a blob finds the one the last operation on that
  key added. Hash collisions can only cause misses.
\<close>

theorem lru_sound:
  assumes "list_all op_ok xs" "run_ops (lru_step H) (xs @ [Get key]) (newLRUCache m) = Some (outs, c')"
    "last outs = Found (Some b)"
  shows "last_added xs key b"
proof -
  let ?es = "snd (run_spec (lru_spec H m) xs [])"
  have "spec_find (H key) key ?es = Some b"
    using lru_run_outputs [OF assms(2)] assms(3)
    by (simp add: run_spec_append case_prod_beta Let_def split: option.splits)
  then have "(H key, b) \<in> set ?es" "blob_key b = key"
    using spec_find_SomeD matchesKey_key by blast+
  with spec_entries_added [OF assms(1)] show ?thesis by auto
qed

theorem lru_sound_witness:
  "\<exists>b outs c'. newCacheBlob ref_lib ref_key ref_answer = Inr b \<and>
     run_ops (lru_step ref_hash) ([AddKey ref_key b] @ [Get ref_key]) (newLRUCache 2) = Some (outs, c') \<and>
     last outs = Found (Some b) \<and> last_added [AddKey ref_key b] ref_key b"
proof -
  obtain b where b: "newCacheBlob ref_lib ref_key ref_answer = Inr b" using ref_newCacheBlob by blast
  then have m: "matchesKey b ref_key" by (simp add: newCacheBlob_matchesKey)
  obtain outs c' where run:
    "run_ops (lru_step ref_hash) ([AddKey ref_key b] @ [Get ref_key]) (newLRUCache 2) = Some (outs, c')"
    using ref_lru_run by blast
  then have "outs = fst (run_spec (lru_spec ref_hash 2) ([AddKey ref_key b] @ [Get ref_key]) [])"
    by (rule lru_run_outputs)
  then have l: "last outs = Found (Some b)"
    using m by (simp add: Let_def trim_def drop_key_def spec_find_def)
  moreover have "last_added [AddKey ref_key b] ref_key b"
    by (rule lru_sound [OF _ run l]) (simp add: m)
  ultimately show ?thesis using b run by blast
qed

text \<open>
  A store with a positive capacity never holds more entries than its capacity.
\<close>

theorem lru_bounded:
  assumes "0 < m" "list_all op_ok xs" "run_ops (lru_step H) xs (newLRUCache m) = Some (outs, c')"
  shows "int (lru_size c') \<le> m"
proof -
  have "lru_abs m c' (snd (run_spec (lru_spec H m) xs []))"
    using lru.run_simulates [OF lru_abs_new, of H xs m] assms(3) by auto
  moreover have "store_ok H m (snd (run_spec (lru_spec H m) xs []))"
    using assms(2) by (intro store_ok_run) (auto simp: store_ok_def)
  ultimately show ?thesis
    using assms(1) by (auto simp: lru_abs_size store_ok_def le_nat_iff)
qed

theorem lru_bounded_witness:
  "\<exists>b outs c'. newCacheBlob ref_lib ref_key ref_answer = Inr b \<and>
     run_ops (lru_step ref_hash) [AddKey ref_key b, Reset, AddKey ref_key b] (newLRUCache 1) = Some (outs, c') \<and>
     int (lru_size c') \<le> 1"
proof -
  obtain b where b: "newCacheBlob ref_lib ref_key ref_answer = Inr b" using ref_newCacheBlob by blast
  then have m: "matchesKey b ref_key" by (simp add: newCacheBlob_matchesKey)
  obtain outs c' where run:
    "run_ops (lru_step ref_hash) [AddKey ref_key b, Reset, AddKey ref_key b] (newLRUCache 1) = Some (outs, c')"
    using ref_lru_run by blast
  then have "int (lru_size c') \<le> 1"
    by (rule lru_bounded [rotated 2]) (simp_all add: m)
  with b run show ?thesis by blast
qed

end
