(* ===== verification/CacheFile.thy ===== *)
theory CacheFile
  imports LruRefine
begin

text \<open>
  The cache file: \<^verbatim>\<open>cache-file-raw.go\<close> and the record conversions of \<^verbatim>\<open>lru-cache.go\<close>. The raw format is
  modelled down to its bytes; a JSON file is the list of records its decoder yields, \<^const>\<open>None\<close> for one it
  cannot decode.
\<close>

section \<open>Writing\<close>

text \<open>The loop from \<^verbatim>\<open>tail.prev\<close> to \<^verbatim>\<open>head\<close> of both formats: the blobs, least recently used first.\<close>

partial_function (option) lru_walkBack :: "lruCache \<Rightarrow> link \<Rightarrow> cacheBlob list option" where
  "lru_walkBack c item =
     (if item = Some (lc_head c) then Some []
      else do {
        a \<leftarrow> item;
        it \<leftarrow> lc_heap c a;
        bs \<leftarrow> lru_walkBack c (it_prev it);
        Some (it_blob it # bs)
      })"

definition lru_oldestFirst :: "lruCache \<Rightarrow> cacheBlob list option" where
  "lru_oldestFirst c = do { tl \<leftarrow> lc_heap c (lc_tail c); lru_walkBack c (it_prev tl) }"

definition rawCacheMagic :: "u8 list" where
  "rawCacheMagic = [0, 82, 68, 67]"

abbreviation (input) rawCacheVersion :: u8 where "rawCacheVersion \<equiv> 2"
abbreviation (input) maxRawCacheRecord :: nat where "maxRawCacheRecord \<equiv> 16777216"

definition raw_record :: "cacheBlob \<Rightarrow> u8 list" where
  "raw_record b = PutUint32 (of_nat (length b)) @ b"

definition serializeRaw :: "lruCache \<Rightarrow> u8 list option" where
  "serializeRaw c = do {
     bs \<leftarrow> lru_oldestFirst c;
     Some (rawCacheMagic @ [rawCacheVersion] @
           concat (map raw_record (filter (\<lambda>b. length b \<le> maxRawCacheRecord) bs)))
   }"

definition isRawCacheFile :: "u8 list \<Rightarrow> bool" where
  "isRawCacheFile r \<longleftrightarrow> 4 \<le> length r \<and> take 4 r = rawCacheMagic"

section \<open>Reading\<close>

definition blobFromFile :: "dnslib \<Rightarrow> cacheBlob \<Rightarrow> lruKey option" where
  "blobFromFile L blob =
     (if length blob < blobHdrLen \<or> version blob \<noteq> blobVersion then None
      else if length blob < blobHdrLen + netLen blob + nameLen blob then None
      else case Unpack L (message blob) of
             None \<Rightarrow> None
           | Some _ \<Rightarrow> if q_Name (k_Question (blob_key blob)) = [] then None else Some (blob_key blob))"

function readRaw :: "dnslib \<Rightarrow> (lruKey \<Rightarrow> u64) \<Rightarrow> lruCache \<Rightarrow> u8 list \<Rightarrow> lruCache option" where
  "readRaw L H c r =
     (if length r < 4 then Some c
      else
        let n = unat (get_be (take 4 r) :: u32); r1 = drop 4 r in
        if n < blobHdrLen \<or> maxRawCacheRecord < n then Some c
        else if length r1 < n then Some c
        else case blobFromFile L (take n r1) of
               None \<Rightarrow> readRaw L H c (drop n r1)
             | Some key \<Rightarrow>
                 (case lru_addKey H c key (take n r1) of
                    None \<Rightarrow> None
                  | Some c' \<Rightarrow> readRaw L H c' (drop n r1)))"
  by pat_completeness auto
termination
  by (relation "measure (\<lambda>(L, H, c, r). length r)") auto

declare readRaw.simps [simp del]

definition deserializeRaw ::
  "dnslib \<Rightarrow> (lruKey \<Rightarrow> u64) \<Rightarrow> lruCache \<Rightarrow> u8 list \<Rightarrow> (go_error option \<times> lruCache) option" where
  "deserializeRaw L H c r =
     (if length r < 5 then Some (Some (ErrOther ''failed to read cache file header''), c)
      else if take 4 r \<noteq> rawCacheMagic then Some (Some (ErrOther ''not a raw cache file''), c)
      else if r ! 4 \<noteq> rawCacheVersion then Some (Some (ErrOther ''unsupported raw cache file version''), c)
      else map_option (Pair None) (readRaw L H c (drop 5 r)))"

section \<open>JSON records\<close>

record cacheAnswerJSON =
  aj_Timestamp :: Time
  aj_Expiry :: Time
  aj_PrefetchEligible :: bool
  aj_Msg :: "u8 list"

record cacheItemJSON =
  ij_Key :: lruKey
  ij_Answer :: cacheAnswerJSON

definition newCacheItemJSON :: "cacheBlob \<Rightarrow> cacheItemJSON" where
  "newCacheItemJSON blob =
     \<lparr>ij_Key = blob_key blob,
      ij_Answer = \<lparr>aj_Timestamp = nanoTime (timestamp blob), aj_Expiry = nanoTime (expiry blob),
                   aj_PrefetchEligible = prefetchEligible blob, aj_Msg = message blob\<rparr>\<rparr>"

definition toCacheBlob :: "dnslib \<Rightarrow> cacheItemJSON \<Rightarrow> cacheBlob option" where
  "toCacheBlob L r =
     (if q_Name (k_Question (ij_Key r)) = [] \<or> aj_Msg (ij_Answer r) = [] then None
      else case Unpack L (aj_Msg (ij_Answer r)) of
             None \<Rightarrow> None
           | Some _ \<Rightarrow>
               (case newCacheBlobFromWire (ij_Key r)
                       \<lparr>ca_Timestamp = aj_Timestamp (ij_Answer r), ca_Expiry = aj_Expiry (ij_Answer r),
                        ca_PrefetchEligible = aj_PrefetchEligible (ij_Answer r), ca_Msg = None\<rparr>
                       (aj_Msg (ij_Answer r)) of
                  Inl _ \<Rightarrow> None
                | Inr blob \<Rightarrow> Some blob))"

definition serialize :: "lruCache \<Rightarrow> cacheItemJSON list option" where
  "serialize c = map_option (map newCacheItemJSON) (lru_oldestFirst c)"

fun deserialize ::
  "dnslib \<Rightarrow> (lruKey \<Rightarrow> u64) \<Rightarrow> lruCache \<Rightarrow> cacheItemJSON option list \<Rightarrow> (go_error option \<times> lruCache) option" where
  "deserialize L H c [] = Some (None, c)"
| "deserialize L H c (None # rs) = Some (Some (ErrOther ''json''), c)"
| "deserialize L H c (Some record # rs) =
     (case toCacheBlob L record of
        None \<Rightarrow> deserialize L H c rs
      | Some blob \<Rightarrow>
          (case lru_addKey H c (ij_Key record) blob of
             None \<Rightarrow> None
           | Some c' \<Rightarrow> deserialize L H c' rs))"

section \<open>Reading back a file\<close>

lemma walkBack_rep:
  "lru_rep c (as @ bs) \<Longrightarrow>
   lru_walkBack c (Some (last (lc_head c # as))) = Some (rev (map snd (entries (dat (lc_heap c)) as)))"
proof (induction as arbitrary: bs rule: rev_induct)
  case Nil
  then show ?case by (subst lru_walkBack.simps) simp
next
  case (snoc a as)
  obtain it where it: "lc_heap c a = Some it" "the (dat (lc_heap c) a) = (it_hash it, it_blob it)"
    using rep_dat [OF snoc.prems, of a] by (auto simp: dat_def)
  have "prv (lc_heap c) a = Some (last (lc_head c # as))"
    using rep_neighbours(2) [of c as "a # bs"] snoc.prems by simp
  then have p: "it_prev it = Some (last (lc_head c # as))" using it(1) by (simp add: prv_def)
  have "a \<noteq> lc_head c" using snoc.prems by (auto simp: lru_rep_def chain_def)
  moreover have "lru_walkBack c (Some (last (lc_head c # as))) = Some (rev (map snd (entries (dat (lc_heap c)) as)))"
    using snoc.IH [of "a # bs"] snoc.prems by simp
  ultimately show ?case
    using it p by (subst lru_walkBack.simps) simp
qed

lemma oldestFirst_abs: "lru_abs m c es \<Longrightarrow> lru_oldestFirst c = Some (rev (map snd es))"
proof -
  assume "lru_abs m c es"
  then obtain as where rep: "lru_rep c as" and es: "es = entries (dat (lc_heap c)) as" by (auto simp: lru_abs_def)
  have "dat (lc_heap c) (lc_tail c) \<noteq> None" using rep by (simp add: lru_rep_def chain_def)
  then obtain tl where tl: "lc_heap c (lc_tail c) = Some tl" using dat_heap by blast
  have "prv (lc_heap c) (lc_tail c) = Some (last (lc_head c # as))"
    using rep_neighbours(2) [of c as "[]"] rep by simp
  with tl have "it_prev tl = Some (last (lc_head c # as))" by (simp add: prv_def)
  with walkBack_rep [of c as "[]"] rep tl es show ?thesis
    by (simp add: lru_oldestFirst_def)
qed

text \<open>A blob the reader accepts.\<close>

definition fileable :: "dnslib \<Rightarrow> cacheBlob \<Rightarrow> bool" where
  "fileable L b \<longleftrightarrow> blobFromFile L b = Some (blob_key b) \<and> length b \<le> maxRawCacheRecord"

lemma fileable_length: "fileable L b \<Longrightarrow> blobHdrLen \<le> length b"
  by (auto simp: fileable_def blobFromFile_def split: if_splits)

lemma raw_length: "length b \<le> maxRawCacheRecord \<Longrightarrow> unat (of_nat (length b) :: u32) = length b"
  by (simp add: unat_of_nat)

lemma readRaw_record:
  assumes "fileable L b" "lru_addKey H c (blob_key b) b = Some c'"
  shows "readRaw L H c (raw_record b @ r) = readRaw L H c' r"
  using assms fileable_length [OF assms(1)]
  by (subst readRaw.simps) (simp add: raw_record_def fileable_def raw_length Let_def)

lemma readRaw_junk:
  assumes "fileable L b" "j < length (raw_record b)"
  shows "readRaw L H c (take j (raw_record b)) = Some c"
  using assms fileable_length [OF assms(1)]
  by (subst readRaw.simps) (auto simp: raw_record_def fileable_def raw_length Let_def take_append min_def)

definition adds :: "cacheBlob list \<Rightarrow> lru_op list" where
  "adds bs = map (\<lambda>b. AddKey (blob_key b) b) bs"

lemma adds_append: "adds (xs @ ys) = adds xs @ adds ys"
  by (simp add: adds_def)

lemma adds_single: "adds [b] = [AddKey (blob_key b) b]"
  by (simp add: adds_def)

lemma readRaw_records:
  "lru_abs m c es \<Longrightarrow> list_all (fileable L) bs \<Longrightarrow>
   \<exists>c'. readRaw L H c (concat (map raw_record bs) @ r) = readRaw L H c' r \<and>
     lru_abs m c' (snd (run_spec (lru_spec H m) (adds bs) es))"
proof (induction bs arbitrary: c es)
  case (Cons b bs)
  from sim_add [OF Cons.prems(1), of H "blob_key b" b] obtain c1
    where c1: "lru_addKey H c (blob_key b) b = Some c1" "lru_abs m c1 (snd (lru_spec H m (AddKey (blob_key b) b) es))"
    by auto
  from Cons.IH [OF c1(2)] Cons.prems(2) obtain c' where
    "readRaw L H c1 (concat (map raw_record bs) @ r) = readRaw L H c' r"
    "lru_abs m c' (snd (run_spec (lru_spec H m) (adds bs) (snd (lru_spec H m (AddKey (blob_key b) b) es))))"
    by auto
  with c1(1) Cons.prems(2) show ?case
    by (intro exI [of _ c']) (simp add: readRaw_record adds_def case_prod_beta del: lru_spec.simps)
qed (auto simp: adds_def)

lemma spec_adds:
  assumes "distinct (map (\<lambda>b. H (blob_key b)) bs)" "m \<le> 0 \<or> int (length bs) \<le> m"
  shows "snd (run_spec (lru_spec H m) (adds bs) []) = rev (map (\<lambda>b. (H (blob_key b), b)) bs)"
  using assms
proof (induction bs rule: rev_induct)
  case (snoc b bs)
  let ?es = "rev (map (\<lambda>b. (H (blob_key b), b)) bs)"
  have "H (blob_key b) \<notin> fst ` set ?es" using snoc.prems(1) by (force simp: image_iff)
  then have "drop_key (H (blob_key b)) ?es = ?es" "map_of ?es (H (blob_key b)) = None"
    by (simp_all only: drop_key_no_key map_of_eq_None_iff not_False_eq_True)
  moreover have "trim m ((H (blob_key b), b) # ?es) = (H (blob_key b), b) # ?es"
    using snoc.prems(2) by (auto simp: trim_def)
  moreover have "snd (run_spec (lru_spec H m) (adds bs) []) = ?es"
    using snoc by auto
  ultimately show ?case
    by (simp add: run_spec_append Let_def spec_find_def adds_append adds_single)
qed (simp add: adds_def)

text \<open>A file cut off anywhere is its first records and part of the next one.\<close>

lemma take_records:
  "\<exists>bs1 bs2 j'. bs = bs1 @ bs2 \<and>
     take j (concat (map raw_record bs)) = concat (map raw_record bs1) @
       (case bs2 of [] \<Rightarrow> [] | b # _ \<Rightarrow> take j' (raw_record b)) \<and>
     (case bs2 of [] \<Rightarrow> True | b # _ \<Rightarrow> j' < length (raw_record b)) \<and>
     (length (concat (map raw_record bs)) \<le> j \<longrightarrow> bs2 = [])"
proof (induction bs arbitrary: j)
  case (Cons b bs)
  show ?case
  proof (cases "j < length (raw_record b)")
    case True
    then show ?thesis by (intro exI [of _ "[]"] exI [of _ "b # bs"] exI [of _ j]) auto
  next
    case False
    from Cons.IH [of "j - length (raw_record b)"] obtain bs1 bs2 j' where IH:
      "bs = bs1 @ bs2" "take (j - length (raw_record b)) (concat (map raw_record bs)) =
         concat (map raw_record bs1) @ (case bs2 of [] \<Rightarrow> [] | b # _ \<Rightarrow> take j' (raw_record b))"
      "case bs2 of [] \<Rightarrow> True | b # _ \<Rightarrow> j' < length (raw_record b)"
      "length (concat (map raw_record bs)) \<le> j - length (raw_record b) \<longrightarrow> bs2 = []" by blast
    have "take j (concat (map raw_record (b # bs))) = raw_record b @ take (j - length (raw_record b)) (concat (map raw_record bs))"
      using False by simp
    also have "\<dots> = concat (map raw_record (b # bs1)) @ (case bs2 of [] \<Rightarrow> [] | b # _ \<Rightarrow> take j' (raw_record b))"
      by (simp add: IH(2))
    finally show ?thesis
      using IH(1,3,4) by (intro exI [of _ "b # bs1"] exI [of _ bs2] exI [of _ j']) auto
  qed
qed (auto intro!: exI [of _ "[]"])

text \<open>The entries of a new store after the oldest records of a file were read into it.\<close>

lemma adds_oldest:
  assumes "rev (map snd es) = bs1 @ bs2" "distinct (map (\<lambda>(k, b). H' (blob_key b)) es)" "m' \<le> 0 \<or> int (length es) \<le> m'"
  shows "snd (run_spec (lru_spec H' m') (adds bs1) []) = map (\<lambda>(k, b). (H' (blob_key b), b)) (drop (length bs2) es)"
proof -
  have es1: "map snd (drop (length bs2) es) = rev bs1"
    using assms(1) by (metis append_eq_conv_conj drop_map length_rev rev_append rev_rev_ident)
  have "distinct (map (\<lambda>b. H' (blob_key b)) (rev (map snd es)))"
    using assms(2) by (simp add: rev_map [symmetric] comp_def case_prod_unfold)
  then have "distinct (map (\<lambda>b. H' (blob_key b)) bs1)" unfolding assms(1) by simp
  moreover have "length bs1 \<le> length es" using assms(1) by (metis le_add1 length_append length_map length_rev)
  ultimately have "snd (run_spec (lru_spec H' m') (adds bs1) []) = map (\<lambda>b. (H' (blob_key b), b)) (rev bs1)"
    using assms(3) by (subst spec_adds) (auto simp: rev_map)
  then show ?thesis unfolding es1 [symmetric] by (simp add: comp_def case_prod_unfold)
qed

text \<open>
  C17: a cache written to a raw file and read back, also by a process with another hash seed, holds
  the same entries in the same order of use. A file that was cut off at any point after its header
  is read without an error and gives the entries whose records are complete, which are the least
  recently used ones since they are written first. The entries are assumed readable (their messages
  unpack) and their hashes distinct under the new seed.
\<close>

theorem raw_file_roundtrip:
  assumes "lru_abs m c es" "\<forall>(k, b) \<in> set es. fileable L b"
    "distinct (map (\<lambda>(k, b). H' (blob_key b)) es)" "m' \<le> 0 \<or> int (length es) \<le> m'"
    "serializeRaw c = Some file" "5 \<le> j"
  shows "\<exists>c' i. deserializeRaw L H' (newLRUCache m') (take j file) = Some (None, c') \<and>
    lru_abs m' c' (map (\<lambda>(k, b). (H' (blob_key b), b)) (drop i es)) \<and> (length file \<le> j \<longrightarrow> i = 0)"
proof -
  let ?bs = "rev (map snd es)"
  have ok: "list_all (fileable L) ?bs" using assms(2) by (auto simp: list_all_iff)
  have "filter (\<lambda>b. length b \<le> maxRawCacheRecord) ?bs = ?bs"
    using ok by (auto simp: filter_id_conv list_all_iff fileable_def)
  then have fileq: "file = rawCacheMagic @ [rawCacheVersion] @ concat (map raw_record ?bs)"
    using assms(5) oldestFirst_abs [OF assms(1)] by (simp add: serializeRaw_def)
  obtain bs1 bs2 j' where cut: "?bs = bs1 @ bs2"
    "take (j - 5) (concat (map raw_record ?bs)) = concat (map raw_record bs1) @
       (case bs2 of [] \<Rightarrow> [] | b # _ \<Rightarrow> take j' (raw_record b))"
    "case bs2 of [] \<Rightarrow> True | b # _ \<Rightarrow> j' < length (raw_record b)"
    "length (concat (map raw_record ?bs)) \<le> j - 5 \<longrightarrow> bs2 = []"
    using take_records by blast
  let ?junk = "case bs2 of [] \<Rightarrow> [] | b # _ \<Rightarrow> take j' (raw_record b)"
  from ok have ok1: "list_all (fileable L) bs1" and ok2: "list_all (fileable L) bs2"
    unfolding cut(1) by simp_all
  obtain c' where c': "readRaw L H' (newLRUCache m') (concat (map raw_record bs1) @ ?junk) = readRaw L H' c' ?junk"
    "lru_abs m' c' (snd (run_spec (lru_spec H' m') (adds bs1) []))"
    using readRaw_records [OF lru_abs_new ok1] by blast
  have "readRaw L H' c' ?junk = Some c'"
  proof (cases bs2)
    case Nil
    then show ?thesis by (subst readRaw.simps) simp
  next
    case (Cons b bs)
    with ok2 cut(3) show ?thesis by (simp add: readRaw_junk)
  qed
  moreover have "take j file = rawCacheMagic @ [rawCacheVersion] @ concat (map raw_record bs1) @ ?junk"
    using assms(6) cut(2) by (simp add: fileq rawCacheMagic_def numeral_eq_Suc take_Cons')
  ultimately have "deserializeRaw L H' (newLRUCache m') (take j file) = Some (None, c')"
    using c'(1) by (simp add: deserializeRaw_def rawCacheMagic_def)
  moreover note adds_oldest [OF cut(1) assms(3,4)]
  moreover have "length file \<le> j \<longrightarrow> length bs2 = 0"
    using cut(4) by (auto simp: fileq rawCacheMagic_def)
  ultimately show ?thesis
    using c'(2) by (intro exI [of _ c'] exI [of _ "length bs2"]) simp
qed

lemma ref_fileable: "newCacheBlob ref_lib ref_key ref_answer = Inr b \<Longrightarrow> fileable ref_lib b"
proof -
  assume "newCacheBlob ref_lib ref_key ref_answer = Inr b"
  then have b: "newCacheBlobFromWire ref_key ref_answer (replicate 12 0) = Inr b"
    by (simp add: newCacheBlob_def ref_answer_def ref_lib_def)
  have "length b = 51" using blob_fields(1) [OF b] by (simp add: ref_key_def)
  with blob_roundtrip [OF b] show ?thesis
    by (simp add: fileable_def blobFromFile_def blob_ok_def ref_lib_def ref_key_def)
qed

theorem raw_file_roundtrip_witness:
  "\<exists>b c file c'. newCacheBlob ref_lib ref_key ref_answer = Inr b \<and>
     lru_addKey ref_hash (newLRUCache 2) ref_key b = Some c \<and> serializeRaw c = Some file \<and>
     deserializeRaw ref_lib ref_hash (newLRUCache 0) (take (length file + 5) file) = Some (None, c') \<and>
     lru_abs 0 c' [(ref_hash ref_key, b)]"
proof -
  obtain b where b: "newCacheBlob ref_lib ref_key ref_answer = Inr b" using ref_newCacheBlob by blast
  have key: "blob_key b = ref_key"
    using newCacheBlob_matchesKey [OF b] by (blast intro: matchesKey_key)
  obtain c where c: "lru_addKey ref_hash (newLRUCache 2) ref_key b = Some c" "lru_abs 2 c [(ref_hash ref_key, b)]"
    using sim_add [OF lru_abs_new [of 2], of ref_hash ref_key b]
    by (auto simp: Let_def trim_def drop_key_def spec_find_def)
  obtain "file" where f: "serializeRaw c = Some file"
    using oldestFirst_abs [OF c(2)] by (simp add: serializeRaw_def)
  have "\<exists>c' i. deserializeRaw ref_lib ref_hash (newLRUCache 0) (take (length file + 5) file) = Some (None, c') \<and>
     lru_abs 0 c' (map (\<lambda>(k, b). (ref_hash (blob_key b), b)) (drop i [(ref_hash ref_key, b)])) \<and>
     (length file \<le> length file + 5 \<longrightarrow> i = 0)"
    by (rule raw_file_roundtrip [OF c(2) _ _ _ f]) (simp_all add: ref_fileable [OF b])
  then show ?thesis
    using b c(1) f key by auto
qed

lemma unixNano_nanoTime [simp]: "unixNano (nanoTime n) = n"
  by (simp add: unixNano_def nanoTime_def)

text \<open>
  A stored entry survives the JSON cache file: the record written for it is turned back into the
  same stored form, byte for byte, when it has a name and its message is one the DNS library reads.
\<close>

theorem toCacheBlob_newCacheItemJSON:
  assumes "newCacheBlobFromWire key meta wire = Inr b" "q_Name (k_Question key) \<noteq> []" "wire \<noteq> []"
    "Unpack L wire \<noteq> None"
  shows "toCacheBlob L (newCacheItemJSON b) = Some b"
proof -
  have "newCacheBlobFromWire key \<lparr>ca_Timestamp = nanoTime (timestamp b), ca_Expiry = nanoTime (expiry b),
      ca_PrefetchEligible = prefetchEligible b, ca_Msg = None\<rparr> wire = Inr b"
    using assms(1)
    by (auto simp: newCacheBlobFromWire_def Let_def blob_roundtrip(5-7) [OF assms(1)] split: if_splits)
  with assms(2-4) blob_roundtrip(3,4) [OF assms(1)] show ?thesis
    by (auto simp: toCacheBlob_def newCacheItemJSON_def)
qed

theorem toCacheBlob_newCacheItemJSON_witness:
  "\<exists>b. newCacheBlobFromWire ref_key ref_answer (replicate 12 0) = Inr b \<and>
     toCacheBlob ref_lib (newCacheItemJSON b) = Some b"
proof -
  obtain b where "newCacheBlob ref_lib ref_key ref_answer = Inr b" using ref_newCacheBlob by blast
  then have b: "newCacheBlobFromWire ref_key ref_answer (replicate 12 0) = Inr b"
    by (simp add: newCacheBlob_def ref_answer_def ref_lib_def)
  with toCacheBlob_newCacheItemJSON [OF b, of ref_lib] show ?thesis
    by (simp add: ref_key_def ref_lib_def)
qed

end
