(* ===== verification/MemoryBackend.thy ===== *)
theory MemoryBackend
  imports CacheFile "HOL-Library.Signed_Division"
begin

text \<open>
  The in-memory cache backend, \<^verbatim>\<open>cache-memory.go\<close>, with the ageing of answers from \<^verbatim>\<open>cache.go\<close>. Each
  method runs under the backend's lock or on immutable data, so it is one step on the store. A run-time
  panic is the result \<^const>\<open>None\<close>; for messages with a question it does not happen.
\<close>

section \<open>Ageing\<close>

text \<open>Both arguments are \<^verbatim>\<open>int64\<close> values; the subtraction wraps and the result keeps the low 32 bits.\<close>

definition cacheAge :: "u64 \<Rightarrow> u64 \<Rightarrow> u32" where
  "cacheAge now stored =
     (if sint now \<le> sint stored then 0 else word_of_int (sint (now - stored) sdiv 1000000000))"

text \<open>The loop over one section; \<^const>\<open>None\<close> when a record has aged out.\<close>

fun age_rrs :: "u32 \<Rightarrow> RR list \<Rightarrow> RR list option" where
  "age_rrs age [] = Some []"
| "age_rrs age (a # rr) =
     (if is_opt a then map_option (Cons a) (age_rrs age rr)
      else if age \<ge> rr_Ttl a then None
      else map_option (Cons (set_Ttl (rr_Ttl a - age) a)) (age_rrs age rr))"

definition ageCachedAnswer :: "Msg \<Rightarrow> Msg \<Rightarrow> u32 \<Rightarrow> Msg option" where
  "ageCachedAnswer answer q age =
     (case (age_rrs age (m_Answer answer), age_rrs age (m_Ns answer), age_rrs age (m_Extra answer)) of
        (Some an, Some ns, Some ex) \<Rightarrow>
          Some (answer\<lparr>m_Id := m_Id q, m_Question := m_Question q, m_Answer := an, m_Ns := ns, m_Extra := ex\<rparr>)
      | _ \<Rightarrow> None)"

section \<open>The backend\<close>

record memoryBackend =
  mb_lru :: lruCache
  mb_FileFormat :: string

definition NewMemoryBackend :: "int \<Rightarrow> string \<Rightarrow> memoryBackend" where
  "NewMemoryBackend capacity format = \<lparr>mb_lru = newLRUCache capacity, mb_FileFormat = format\<rparr>"

definition mb_Store :: "dnslib \<Rightarrow> (lruKey \<Rightarrow> u64) \<Rightarrow> memoryBackend \<Rightarrow> Msg \<Rightarrow> cacheAnswer \<Rightarrow> memoryBackend option" where
  "mb_Store L H b query item = do {
     key \<leftarrow> lruKeyFromQuery L query;
     (case newCacheBlob L key item of
        Inl _ \<Rightarrow> Some b
      | Inr blob \<Rightarrow> do { l \<leftarrow> lru_addKey H (mb_lru b) key blob; Some (b\<lparr>mb_lru := l\<rparr>) })
   }"

fun mb_Evict :: "dnslib \<Rightarrow> (lruKey \<Rightarrow> u64) \<Rightarrow> memoryBackend \<Rightarrow> Msg list \<Rightarrow> memoryBackend option" where
  "mb_Evict L H b [] = Some b"
| "mb_Evict L H b (query # queries) = do {
     key \<leftarrow> lruKeyFromQuery L query;
     l \<leftarrow> lru_delete H (mb_lru b) key;
     mb_Evict L H (b\<lparr>mb_lru := l\<rparr>) queries
   }"

text \<open>The answer with its prefetch flag, or nothing on a cache miss.\<close>

definition mb_Lookup ::
  "dnslib \<Rightarrow> (lruKey \<Rightarrow> u64) \<Rightarrow> u64 \<Rightarrow> memoryBackend \<Rightarrow> Msg \<Rightarrow> ((Msg \<times> bool) option \<times> memoryBackend) option" where
  "mb_Lookup L H now b q = do {
     key \<leftarrow> lruKeyFromQuery L q;
     (found, l) \<leftarrow> lru_get H (mb_lru b) key;
     let b1 = b\<lparr>mb_lru := l\<rparr>;
     let miss = map_option (\<lambda>b2. (None, b2)) (mb_Evict L H b1 [q]);
     (case found of
        None \<Rightarrow> Some (None, b1)
      | Some blob \<Rightarrow>
          if sint now > sint (expiry blob) then miss
          else (case Unpack L (message blob) of
                  None \<Rightarrow> miss
                | Some answer \<Rightarrow>
                    (case ageCachedAnswer answer q (cacheAge now (timestamp blob)) of
                       None \<Rightarrow> miss
                     | Some answer' \<Rightarrow> Some (Some (answer', prefetchEligible blob), b1))))
   }"

definition mb_Flush :: "memoryBackend \<Rightarrow> memoryBackend" where
  "mb_Flush b = b\<lparr>mb_lru := lru_reset (mb_lru b)\<rparr>"

text \<open>One round of garbage collection.\<close>

definition mb_GC :: "u64 \<Rightarrow> memoryBackend \<Rightarrow> memoryBackend option" where
  "mb_GC now b = do {
     l \<leftarrow> lru_deleteFunc (\<lambda>item. sint now > sint (expiry (it_blob item))) (mb_lru b);
     Some (b\<lparr>mb_lru := l\<rparr>)
   }"

definition mb_Size :: "memoryBackend \<Rightarrow> nat" where
  "mb_Size b = lru_size (mb_lru b)"

text \<open>
  The content written to and read from the cache file; \<open>enc\<close> and \<open>dec\<close> are the JSON encoder and decoder.
\<close>

definition mb_writeToFile :: "(cacheItemJSON list \<Rightarrow> u8 list) \<Rightarrow> memoryBackend \<Rightarrow> u8 list option" where
  "mb_writeToFile enc b =
     (if mb_FileFormat b = ''raw'' then serializeRaw (mb_lru b)
      else map_option enc (serialize (mb_lru b)))"

definition mb_loadFromFile ::
  "(u8 list \<Rightarrow> cacheItemJSON option list) \<Rightarrow> dnslib \<Rightarrow> (lruKey \<Rightarrow> u64) \<Rightarrow> memoryBackend \<Rightarrow> u8 list \<Rightarrow>
   (go_error option \<times> memoryBackend) option" where
  "mb_loadFromFile dec L H b content = do {
     (err, l) \<leftarrow> (if isRawCacheFile content then deserializeRaw L H (mb_lru b) content
                  else deserialize L H (mb_lru b) (dec content));
     Some (err, b\<lparr>mb_lru := l\<rparr>)
   }"

section \<open>Ageing, declaratively\<close>

lemma age_rrs_Some_iff:
  "age_rrs age rrs = Some rrs' \<longleftrightarrow>
     (\<forall>r \<in> set rrs. \<not> is_opt r \<longrightarrow> age < rr_Ttl r) \<and>
     rrs' = map (\<lambda>r. if is_opt r then r else set_Ttl (rr_Ttl r - age) r) rrs"
proof (induction age rrs arbitrary: rrs' rule: age_rrs.induct)
  case (2 age a rr)
  then show ?case by (auto simp: not_le)
qed auto

definition aged :: "u32 \<Rightarrow> RR \<Rightarrow> RR" where
  "aged age r = (if is_opt r then r else set_Ttl (rr_Ttl r - age) r)"

lemma age_rrs_None_iff: "age_rrs age rrs = None \<longleftrightarrow> (\<exists>r \<in> set rrs. \<not> is_opt r \<and> rr_Ttl r \<le> age)"
  by (induction age rrs rule: age_rrs.induct) auto

lemma ageCachedAnswer_Some_iff:
  "ageCachedAnswer a q age = Some a' \<longleftrightarrow>
     (\<forall>r \<in> set (data_rrs a). age < rr_Ttl r) \<and>
     a' = a\<lparr>m_Id := m_Id q, m_Question := m_Question q, m_Answer := map (aged age) (m_Answer a),
            m_Ns := map (aged age) (m_Ns a), m_Extra := map (aged age) (m_Extra a)\<rparr>"
proof -
  have aged: "(\<lambda>r. if is_opt r then r else set_Ttl (rr_Ttl r - age) r) = aged age"
    by (simp add: aged_def fun_eq_iff)
  show ?thesis
    unfolding ageCachedAnswer_def
    by (auto simp: age_rrs_Some_iff age_rrs_None_iff data_rrs_def all_rrs_def aged not_less
        split: option.splits prod.splits)
qed

lemma cacheAge_exact:
  assumes "sint stored \<le> sint now" "sint now - sint stored < 2 ^ 63"
    "(sint now - sint stored) div 1000000000 < 2 ^ 32"
  shows "unat (cacheAge now stored) = nat ((sint now - sint stored) div 1000000000)"
proof (cases "sint now = sint stored")
  case False
  have diff: "sint (now - stored) = sint now - sint stored"
  proof -
    have "now - stored = word_of_int (sint now - sint stored)" by simp
    then show ?thesis using assms(1,2) sint_word_of_int_64 [of "sint now - sint stored"] by simp
  qed
  show ?thesis
    using False assms unfolding cacheAge_def diff
    by (simp add: signed_divide_int_def unat_eq_nat_uint uint_word_of_int)
qed (simp add: cacheAge_def)

section \<open>The backend over the list specification\<close>

definition mb_ok :: "(lruKey \<Rightarrow> u64) \<Rightarrow> memoryBackend \<Rightarrow> bool" where
  "mb_ok H b \<longleftrightarrow> (\<exists>m es. lru_abs m (mb_lru b) es \<and> store_ok H m es)"

lemma mb_ok_new: "mb_ok H (NewMemoryBackend capacity format)"
  using lru_abs_new [of capacity]
  by (auto simp: mb_ok_def NewMemoryBackend_def store_ok_def intro!: exI [of _ capacity] exI [of _ "[]"])

lemma mb_get:
  assumes "mb_ok H b"
  obtains r l where "lru_get H (mb_lru b) key = Some (r, l)" "mb_ok H (b\<lparr>mb_lru := l\<rparr>)"
    "\<And>blob. r = Some blob \<Longrightarrow> matchesKey blob key"
proof -
  from assms obtain m es where a: "lru_abs m (mb_lru b) es" "store_ok H m es" by (auto simp: mb_ok_def)
  from sim_get [OF a(1), of H key] obtain r l where
    l: "lru_get H (mb_lru b) key = Some (r, l)" "Found r = fst (lru_spec H m (Get key) es)"
      "lru_abs m l (snd (lru_spec H m (Get key) es))" by auto
  moreover have "store_ok H m (snd (lru_spec H m (Get key) es))" using a(2) by (rule store_ok_step) simp
  ultimately show thesis
    by (intro that [of r l]) (auto simp: mb_ok_def split: option.splits dest: spec_find_SomeD)
qed

lemma mb_delete:
  assumes "mb_ok H b"
  obtains l where "lru_delete H (mb_lru b) key = Some l" "mb_ok H (b\<lparr>mb_lru := l\<rparr>)"
proof -
  from assms obtain m es where a: "lru_abs m (mb_lru b) es" "store_ok H m es" by (auto simp: mb_ok_def)
  from sim_delete [OF a(1), of H key] obtain l where
    "lru_delete H (mb_lru b) key = Some l" "lru_abs m l (snd (lru_spec H m (Delete key) es))" by auto
  moreover have "store_ok H m (snd (lru_spec H m (Delete key) es))" using a(2) by (rule store_ok_step) simp
  ultimately show thesis by (intro that [of l]) (auto simp: mb_ok_def)
qed

lemma spec_add_get:
  "matchesKey blob key \<Longrightarrow> spec_find (H key) key (snd (lru_spec H m (AddKey key blob) es)) = Some blob"
  by (auto simp: Let_def spec_find_def trim_def take_Cons')

lemma mb_add_get:
  assumes "mb_ok H b" "matchesKey blob key"
  obtains l l' where "lru_addKey H (mb_lru b) key blob = Some l" "mb_ok H (b\<lparr>mb_lru := l\<rparr>)"
    "lru_get H l key = Some (Some blob, l')"
proof -
  from assms obtain m es where a: "lru_abs m (mb_lru b) es" "store_ok H m es" by (auto simp: mb_ok_def)
  let ?es = "snd (lru_spec H m (AddKey key blob) es)"
  from sim_add [OF a(1), of H key blob] obtain l where
    l: "lru_addKey H (mb_lru b) key blob = Some l" "lru_abs m l ?es" by auto
  moreover have "store_ok H m ?es" using a(2) assms(2) by (intro store_ok_step) simp_all
  moreover obtain l' where "lru_get H l key = Some (Some blob, l')"
    using sim_get [OF l(2), of H key] spec_add_get [OF assms(2), of H m es] by auto
  ultimately show thesis by (intro that [of l l']) (auto simp: mb_ok_def)
qed

text \<open>Messages of one question that the backend can store and read back.\<close>

definition mb_packs :: "dnslib \<Rightarrow> Msg \<Rightarrow> Msg \<Rightarrow> bool" where
  "mb_packs L q m \<longleftrightarrow>
     (\<exists>key wire. lruKeyFromQuery L q = Some key \<and> length (q_Name (k_Question key)) \<le> 65535 \<and>
        length (k_Net key) \<le> 65535 \<and> Pack L m = Some wire \<and> Unpack L wire = Some m)"

lemma lruKeyFromQuery_total: "m_Question q \<noteq> [] \<Longrightarrow> \<exists>key. lruKeyFromQuery L q = Some key"
  by (auto simp: lruKeyFromQuery_def neq_Nil_conv Let_def)

lemma mb_Evict_ok:
  assumes "mb_ok H b" "m_Question q \<noteq> []"
  shows "\<exists>b'. mb_Evict L H b [q] = Some b' \<and> mb_ok H b'"
proof -
  obtain key where "lruKeyFromQuery L q = Some key" using lruKeyFromQuery_total [OF assms(2)] by blast
  moreover obtain l where "lru_delete H (mb_lru b) key = Some l" "mb_ok H (b\<lparr>mb_lru := l\<rparr>)"
    using assms(1) by (rule mb_delete)
  ultimately show ?thesis by auto
qed

lemma mb_Store_ok:
  assumes "mb_ok H b" "m_Question q \<noteq> []"
  shows "\<exists>b'. mb_Store L H b q item = Some b' \<and> mb_ok H b'"
proof -
  obtain key where key: "lruKeyFromQuery L q = Some key" using lruKeyFromQuery_total [OF assms(2)] by blast
  show ?thesis
  proof (cases "newCacheBlob L key item")
    case (Inr blob)
    then have "matchesKey blob key" by (simp add: newCacheBlob_matchesKey)
    with assms(1) obtain l where "lru_addKey H (mb_lru b) key blob = Some l" "mb_ok H (b\<lparr>mb_lru := l\<rparr>)"
      by (rule mb_add_get)
    with key Inr show ?thesis by (auto simp: mb_Store_def)
  qed (use key assms(1) in \<open>simp add: mb_Store_def\<close>)
qed

lemma mb_Lookup_ok:
  assumes "mb_ok H b" "m_Question q \<noteq> []"
  shows "\<exists>r b'. mb_Lookup L H now b q = Some (r, b') \<and> mb_ok H b'"
proof -
  obtain key where key: "lruKeyFromQuery L q = Some key" using lruKeyFromQuery_total [OF assms(2)] by blast
  obtain r l where get: "lru_get H (mb_lru b) key = Some (r, l)" "mb_ok H (b\<lparr>mb_lru := l\<rparr>)"
    using assms(1) by (rule mb_get)
  then obtain b2 where "mb_Evict L H (b\<lparr>mb_lru := l\<rparr>) [q] = Some b2" "mb_ok H b2"
    using mb_Evict_ok assms(2) by blast
  with key get show ?thesis
    by (auto simp: mb_Lookup_def Let_def split: option.splits)
qed

lemma mb_Lookup_Some:
  assumes "mb_Lookup L H now b q = Some (Some (a, pe), b')"
  obtains answer age where "ageCachedAnswer answer q age = Some a"
  using assms
  by (auto simp: mb_Lookup_def Let_def split: option.splits if_splits bind_splits)

lemma mb_Lookup_stored:
  assumes "mb_ok H b" "mb_Store L H b q item = Some b'" "ca_Msg item = Some m" "mb_packs L q m"
    "lruKeyFromQuery L q' = lruKeyFromQuery L q" "sint now \<le> sint (unixNano (ca_Expiry item))"
    "ageCachedAnswer m q' (cacheAge now (unixNano (ca_Timestamp item))) = Some a"
  shows "\<exists>b''. mb_Lookup L H now b' q' = Some (Some (a, ca_PrefetchEligible item), b'')"
proof -
  obtain key wire where key: "lruKeyFromQuery L q = Some key" and len: "length (q_Name (k_Question key)) \<le> 65535"
    "length (k_Net key) \<le> 65535" and wire: "Pack L m = Some wire" "Unpack L wire = Some m"
    using assms(4) by (auto simp: mb_packs_def)
  then obtain blob where w: "newCacheBlobFromWire key item wire = Inr blob" and b: "newCacheBlob L key item = Inr blob"
    using assms(3) by (simp add: newCacheBlob_def newCacheBlobFromWire_def Let_def)
  have "matchesKey blob key" using b by (simp add: newCacheBlob_matchesKey)
  with assms(1) obtain l l' where l: "lru_addKey H (mb_lru b) key blob = Some l" "lru_get H l key = Some (Some blob, l')"
    by (rule mb_add_get)
  with assms(2) key b have b': "b' = b\<lparr>mb_lru := l\<rparr>" by (simp add: mb_Store_def)
  show ?thesis
    using key l(2) wire(2) assms(5-7) by (simp add: mb_Lookup_def b' blob_roundtrip [OF w] Let_def)
qed

lemma mb_Flush_abs: "mb_ok H b \<Longrightarrow> \<exists>m. lru_abs m (mb_lru (mb_Flush b)) []"
  using sim_reset by (fastforce simp: mb_ok_def mb_Flush_def)

lemma mb_Flush_ok: "mb_ok H b \<Longrightarrow> mb_ok H (mb_Flush b)"
  using mb_Flush_abs [of H b] by (force simp: mb_ok_def store_ok_def)

lemma mb_Lookup_empty:
  assumes "lru_abs m (mb_lru b) []" "m_Question q \<noteq> []"
  shows "\<exists>b'. mb_Lookup L H now b q = Some (None, b')"
proof -
  obtain key where "lruKeyFromQuery L q = Some key" using lruKeyFromQuery_total [OF assms(2)] by blast
  with sim_get [OF assms(1), of H key] show ?thesis
    by (auto simp: mb_Lookup_def Let_def spec_find_def)
qed

lemma mb_Lookup_new:
  "m_Question q \<noteq> [] \<Longrightarrow> \<exists>b'. mb_Lookup L H now (NewMemoryBackend capacity format) q = Some (None, b')"
  using lru_abs_new [of capacity] by (intro mb_Lookup_empty) (simp_all add: NewMemoryBackend_def)

lemma mb_Flush_empty:
  "mb_ok H b \<Longrightarrow> m_Question q \<noteq> [] \<Longrightarrow> \<exists>b'. mb_Lookup L H now (mb_Flush b) q = Some (None, b')"
  using mb_Flush_abs mb_Lookup_empty by blast

end
