(* ===== verification/CacheResolver.thy ===== *)
theory CacheResolver
  imports MemoryBackend "HOL-Library.Multiset"
begin

text \<open>
  The caching resolver, \<^verbatim>\<open>cache.go\<close>, over any backend. The interface \<^verbatim>\<open>CacheBackend\<close> is a record of
  operations on a backend state; the locale \<open>cache_backend\<close> states what the resolver relies on, and the
  memory backend is an interpretation of it.
\<close>

section \<open>The backend interface\<close>

record 'b CacheBackend =
  be_Store :: "'b \<Rightarrow> Msg \<Rightarrow> cacheAnswer \<Rightarrow> 'b option"
  be_Lookup :: "u64 \<Rightarrow> 'b \<Rightarrow> Msg \<Rightarrow> ((Msg \<times> bool) option \<times> 'b) option"
  be_Size :: "'b \<Rightarrow> nat"
  be_Flush :: "'b \<Rightarrow> 'b"

definition memory_CacheBackend :: "dnslib \<Rightarrow> (lruKey \<Rightarrow> u64) \<Rightarrow> memoryBackend CacheBackend" where
  "memory_CacheBackend L H =
     \<lparr>be_Store = mb_Store L H, be_Lookup = mb_Lookup L H, be_Size = mb_Size, be_Flush = mb_Flush\<rparr>"

section \<open>TTLs and shuffling\<close>

definition minTTL :: "Msg \<Rightarrow> u32 \<times> bool" where
  "minTTL answer =
     foldl (\<lambda>(mi, found) a. if is_opt a then (mi, found)
                             else if rr_Ttl a < mi then (rr_Ttl a, True) else (mi, found))
       (MaxUint32, False) (m_Answer answer @ m_Ns answer @ m_Extra answer)"

text \<open>The positions of the address records of an answer section.\<close>

definition address_idx :: "RR list \<Rightarrow> nat list" where
  "address_idx rrs = filter (\<lambda>i. rr_Rrtype (rrs ! i) = TypeA \<or> rr_Rrtype (rrs ! i) = TypeAAAA) [0..<length rrs]"

definition swap :: "'a list \<Rightarrow> nat \<Rightarrow> nat \<Rightarrow> 'a list" where
  "swap xs i j = xs[i := xs ! j, j := xs ! i]"

text \<open>\<^verbatim>\<open>rand.Shuffle\<close> is a Fisher-Yates shuffle; \<open>rnd i\<close> is the random number drawn for position \<open>i\<close>.\<close>

primrec shuffle_loop :: "(nat \<Rightarrow> nat) \<Rightarrow> nat list \<Rightarrow> nat \<Rightarrow> RR list \<Rightarrow> RR list" where
  "shuffle_loop rnd idx 0 rrs = rrs"
| "shuffle_loop rnd idx (Suc i) rrs =
     shuffle_loop rnd idx i (swap rrs (idx ! Suc i) (idx ! (rnd (Suc i) mod Suc (Suc i))))"

definition AnswerShuffleRandom :: "(nat \<Rightarrow> nat) \<Rightarrow> Msg \<Rightarrow> Msg" where
  "AnswerShuffleRandom rnd msg =
     (if length (m_Answer msg) < 2 then msg
      else let idx = address_idx (m_Answer msg)
           in msg\<lparr>m_Answer := shuffle_loop rnd idx (length idx - 1) (m_Answer msg)\<rparr>)"

text \<open>The state of the round-robin shuffle: the number of reads and the expiry per key.\<close>

type_synonym rrShuffleState = "(lruKey \<times> (u64 \<times> int)) list"

definition rotate_right :: "'a list \<Rightarrow> 'a list" where
  "rotate_right xs = (if xs = [] then [] else last xs # butlast xs)"

text \<open>Writing a list of values to a list of positions.\<close>

fun write_idx :: "'a list \<Rightarrow> nat list \<Rightarrow> 'a list \<Rightarrow> 'a list" where
  "write_idx xs (i # idx) (v # vs) = write_idx (xs[i := v]) idx vs"
| "write_idx xs _ _ = xs"

definition AnswerShuffleRoundRobin ::
  "dnslib \<Rightarrow> int \<Rightarrow> rrShuffleState \<Rightarrow> Msg \<Rightarrow> (Msg \<times> rrShuffleState) option" where
  "AnswerShuffleRoundRobin L now st msg =
     (if length (m_Answer msg) < 2 then Some (msg, st)
      else
        case lruKeyFromQuery L msg of
          None \<Rightarrow> None
        | Some key \<Rightarrow>
            let rot = (\<lambda>shiftBy :: u64.
                  let idx = address_idx (m_Answer msg); n = length idx
                  in if n < 2 then msg
                     else msg\<lparr>m_Answer := write_idx (m_Answer msg) idx
                                ((rotate_right ^^ (unat shiftBy mod n + 1)) (map (\<lambda>i. m_Answer msg ! i) idx))\<rparr>)
            in case map_of st key of
                 Some (reads, expire) \<Rightarrow>
                   Some (rot (reads + 1), AList.update key (reads + 1, expire) st)
               | None \<Rightarrow>
                   (case minTTL msg of (ttl, ok) \<Rightarrow>
                      if \<not> ok then Some (msg, st)
                      else Some (rot 0, AList.update key (0, now + uint ttl * 1000000000) st)))"

text \<open>One round of the clean-up job of the round-robin shuffle.\<close>

definition rrShuffle_cleanup :: "int \<Rightarrow> rrShuffleState \<Rightarrow> rrShuffleState" where
  "rrShuffle_cleanup now st = filter (\<lambda>(k, reads, expire). \<not> now > expire) st"

section \<open>The resolver\<close>

datatype AnswerShuffle = ShuffleNone | ShuffleRandom | ShuffleRoundRobin

record CacheOptions =
  co_NegativeTTL :: u32
  co_CacheRcodeMaxTTL :: "(int \<times> u32) list"
  co_ShuffleAnswerFunc :: AnswerShuffle
  co_HardenBelowNXDOMAIN :: bool
  co_FlushQuery :: string
  co_PrefetchTrigger :: u32
  co_PrefetchEligible :: u32

text \<open>
  \<open>ch_prefetch\<close> holds the prefetch goroutines that have been started and not yet run, each with its
  query and the remaining TTL that triggered it.
\<close>

record ('b, 'w) Cache =
  ch_opt :: CacheOptions
  ch_resolver :: "'w resolver"
  ch_backend :: 'b
  ch_hit :: nat
  ch_miss :: nat
  ch_entries :: nat
  ch_rr :: rrShuffleState
  ch_prefetch :: "(Msg \<times> ClientInfo \<times> u32) list"

definition NewCache :: "'w resolver \<Rightarrow> CacheOptions \<Rightarrow> 'b \<Rightarrow> ('b, 'w) Cache" where
  "NewCache res opt backend =
     \<lparr>ch_opt = (if co_NegativeTTL opt = 0 then opt\<lparr>co_NegativeTTL := 60\<rparr> else opt),
      ch_resolver = res, ch_backend = backend, ch_hit = 0, ch_miss = 0, ch_entries = 0, ch_rr = [],
      ch_prefetch = []\<rparr>"

definition seconds :: "u32 \<Rightarrow> int" where
  "seconds n = uint n * 1000000000"

text \<open>The expiry and the prefetch flag of a response, nothing when its response code is not cached.\<close>

definition cache_expiry :: "CacheOptions \<Rightarrow> int \<Rightarrow> Msg \<Rightarrow> (int \<times> bool) option" where
  "cache_expiry opt now answer =
     (let (mi, ok) = minTTL answer; rc = m_Rcode answer in
      if rc \<in> {RcodeSuccess, RcodeNameError, RcodeRefused, RcodeNotImplemented, RcodeFormatError}
      then (if ok then Some (now + seconds mi, mi > co_PrefetchEligible opt)
            else Some (now + seconds (co_NegativeTTL opt), False))
      else if rc = RcodeServerFailure
      then (if co_NegativeTTL opt < 300 then Some (now + seconds (co_NegativeTTL opt), False)
            else Some (now + seconds 300, False))
      else None)"

definition rcode_limit :: "CacheOptions \<Rightarrow> int \<Rightarrow> int \<Rightarrow> int \<Rightarrow> int" where
  "rcode_limit opt now rc exp =
     (case map_of (co_CacheRcodeMaxTTL opt) rc of
        None \<Rightarrow> exp
      | Some n \<Rightarrow> (let limit = now + seconds n in if exp > limit then limit else exp))"

definition storeInCache ::
  "'b CacheBackend \<Rightarrow> int \<Rightarrow> ('b, 'w) Cache \<Rightarrow> Msg \<Rightarrow> Msg \<Rightarrow> ('b, 'w) Cache option" where
  "storeInCache B now c query answer =
     (case cache_expiry (ch_opt c) now answer of
        None \<Rightarrow> Some c
      | Some (exp, pe) \<Rightarrow> do {
          b \<leftarrow> be_Store B (ch_backend c) query
                 \<lparr>ca_Timestamp = Some now,
                  ca_Expiry = Some (rcode_limit (ch_opt c) now (m_Rcode answer) exp),
                  ca_PrefetchEligible = pe, ca_Msg = Some answer\<rparr>;
          Some (c\<lparr>ch_backend := b\<rparr>)
        })"

text \<open>The suffixes of the query name with at least two fragments; \<open>clk i\<close> is the time of the \<open>i\<close>-th lookup.\<close>

fun harden_loop ::
  "'b CacheBackend \<Rightarrow> (nat \<Rightarrow> u64) \<Rightarrow> nat \<Rightarrow> string list \<Rightarrow> Msg \<Rightarrow> 'b \<Rightarrow> (bool \<times> 'b) option" where
  "harden_loop B clk i [] q b = Some (False, b)"
| "harden_loop B clk i (f # fragments) q b =
     (if fragments = [] then Some (False, b)
      else do {
        let newQ = q\<lparr>m_Question := (m_Question q)[0 := (m_Question q ! 0)\<lparr>q_Name := Join (f # fragments) ''.''\<rparr>]\<rparr>;
        (found, b') \<leftarrow> be_Lookup B (clk i) b newQ;
        (case found of
           Some (a, _) \<Rightarrow> Some (m_Rcode a = RcodeNameError, b')
         | None \<Rightarrow> harden_loop B clk (Suc i) fragments q b')
      })"

definition shuffle_answer ::
  "dnslib \<Rightarrow> (nat \<Rightarrow> nat) \<Rightarrow> int \<Rightarrow> ('b, 'w) Cache \<Rightarrow> Msg \<Rightarrow> (Msg \<times> ('b, 'w) Cache) option" where
  "shuffle_answer L rnd now c a =
     (case co_ShuffleAnswerFunc (ch_opt c) of
        ShuffleNone \<Rightarrow> Some (a, c)
      | ShuffleRandom \<Rightarrow> Some (AnswerShuffleRandom rnd a, c)
      | ShuffleRoundRobin \<Rightarrow>
          map_option (\<lambda>(a', st). (a', c\<lparr>ch_rr := st\<rparr>)) (AnswerShuffleRoundRobin L now (ch_rr c) a))"

definition answerFromCache ::
  "dnslib \<Rightarrow> 'b CacheBackend \<Rightarrow> (nat \<Rightarrow> nat) \<Rightarrow> (nat \<Rightarrow> u64) \<Rightarrow> int \<Rightarrow> ('b, 'w) Cache \<Rightarrow> Msg \<Rightarrow>
   ((Msg \<times> bool) option \<times> ('b, 'w) Cache) option" where
  "answerFromCache L B rnd clk now c q = do {
     (found, b) \<leftarrow> be_Lookup B (clk 0) (ch_backend c) q;
     (case found of
        Some (a, pe) \<Rightarrow> do {
          (a', c') \<leftarrow> shuffle_answer L rnd now (c\<lparr>ch_backend := b\<rparr>) a;
          Some (Some (a', pe), c')
        }
      | None \<Rightarrow>
          if co_HardenBelowNXDOMAIN (ch_opt c) then do {
            (hit, b') \<leftarrow> harden_loop B clk 1 (tl (Split CHR ''.'' (qName q))) q b;
            Some (if hit then Some (nxdomain L q, False) else None, c\<lparr>ch_backend := b'\<rparr>)
          }
          else Some (None, c\<lparr>ch_backend := b\<rparr>))
   }"

text \<open>\<open>now\<close> is the wall clock of the shuffle state and \<open>tstore\<close> the time at which a response is stored.\<close>

definition Cache_Resolve ::
  "dnslib \<Rightarrow> 'b CacheBackend \<Rightarrow> (nat \<Rightarrow> nat) \<Rightarrow> (nat \<Rightarrow> u64) \<Rightarrow> int \<Rightarrow> int \<Rightarrow> ('b, 'w) Cache \<Rightarrow> Msg \<Rightarrow> ClientInfo \<Rightarrow>
   'w \<Rightarrow> reply \<times> ('b, 'w) Cache \<times> 'w" where
  "Cache_Resolve L B rnd clk now tstore c q ci w =
     (if 1 < length (m_Question q) then
        (case r_Resolve (ch_resolver c) q ci w of (ae, w') \<Rightarrow> (ae, c, w'))
      else case m_Question q of
        [] \<Rightarrow> (panic, c, w)
      | question # _ \<Rightarrow>
          if co_FlushQuery (ch_opt c) \<noteq> [] \<and> co_FlushQuery (ch_opt c) = q_Name question then
            ((Some (SetReply L new_Msg q), None), c\<lparr>ch_backend := be_Flush B (ch_backend c)\<rparr>, w)
          else case answerFromCache L B rnd clk now c q of
            None \<Rightarrow> (panic, c, w)
          | Some (Some (a, pe), c1) \<Rightarrow>
              let c2 = c1\<lparr>ch_hit := Suc (ch_hit c1)\<rparr>;
                  (mi, ok) = minTTL a;
                  c3 = (if pe \<and> co_PrefetchTrigger (ch_opt c) > 0 \<and> ok \<and> mi < co_PrefetchTrigger (ch_opt c)
                        then c2\<lparr>ch_prefetch := ch_prefetch c2 @ [(q, ci, mi)]\<rparr> else c2)
              in ((Some a, None), c3, w)
          | Some (None, c1) \<Rightarrow>
              let c2 = c1\<lparr>ch_miss := Suc (ch_miss c1)\<rparr>;
                  ((a, err), w') = r_Resolve (ch_resolver c) q ci w
              in if err \<noteq> None \<or> a = None then ((None, err), c2, w')
                 else if m_Truncated (the a) then ((a, None), c2, w')
                 else case storeInCache B tstore c2 q (the a) of
                        None \<Rightarrow> (panic, c2, w')
                      | Some c3 \<Rightarrow> ((a, None), c3, w'))"

text \<open>The prefetch goroutine for the first pending entry.\<close>

definition Cache_prefetch ::
  "'b CacheBackend \<Rightarrow> int \<Rightarrow> ('b, 'w) Cache \<Rightarrow> 'w \<Rightarrow> (('b, 'w) Cache \<times> 'w) option" where
  "Cache_prefetch B tstore c w =
     (case ch_prefetch c of
        [] \<Rightarrow> Some (c, w)
      | (q, ci, mi) # rest \<Rightarrow>
          let c1 = c\<lparr>ch_prefetch := rest\<rparr>;
              ((a, err), w') = r_Resolve (ch_resolver c) q ci w
          in if err \<noteq> None \<or> a = None then Some (c1, w')
             else if m_Truncated (the a) then Some (c1, w')
             else case minTTL (the a) of (mi', ok) \<Rightarrow>
               if \<not> ok \<or> mi' < mi then Some (c1, w')
               else map_option (\<lambda>c2. (c2, w')) (storeInCache B tstore c1 q (the a)))"

text \<open>The metrics job.\<close>

definition Cache_entries :: "'b CacheBackend \<Rightarrow> ('b, 'w) Cache \<Rightarrow> ('b, 'w) Cache" where
  "Cache_entries B c = c\<lparr>ch_entries := be_Size B (ch_backend c)\<rparr>"

section \<open>Lowest TTL and expiry\<close>

lemma minTTL_fold:
  "foldl (\<lambda>(mi, found) a. if is_opt a then (mi, found)
       else if rr_Ttl a < mi then (rr_Ttl a, True) else (mi, found)) (m0, f0) rrs =
   (let ts = map rr_Ttl (filter (\<lambda>r. \<not> is_opt r) rrs)
    in (fold min ts m0, f0 \<or> (\<exists>t \<in> set ts. t < m0)))"
proof (induction rrs arbitrary: m0 f0)
  case (Cons r rrs)
  then show ?case
    by (cases "is_opt r"; cases "rr_Ttl r < m0")
       (auto simp: Let_def min_def not_less intro: less_le_trans le_less_trans less_trans)
qed simp

lemma fold_min_le: "fold min ts (m :: 'a :: linorder) \<le> m" "t \<in> set ts \<Longrightarrow> fold min ts m \<le> t"
proof (induction ts arbitrary: m)
  case (Cons a ts)
  { case 1 show ?case using Cons.IH(1) [of "min a m"] by simp }
  { case 2 then show ?case using Cons.IH(1) [of "min a m"] Cons.IH(2) [of "min a m"] by auto }
qed simp_all

lemma fold_min_in: "fold min ts (m :: 'a :: linorder) = m \<or> fold min ts m \<in> set ts"
proof (induction ts arbitrary: m)
  case (Cons a ts)
  from Cons.IH [of "min a m"] show ?case by (auto simp: min_def split: if_splits)
qed simp

lemma minTTL_eq:
  "minTTL a = (fold min (map rr_Ttl (data_rrs a)) MaxUint32, \<exists>t \<in> set (map rr_Ttl (data_rrs a)). t < MaxUint32)"
  unfolding minTTL_def minTTL_fold data_rrs_def all_rrs_def by (simp only: Let_def simp_thms)

lemma minTTL_le: "r \<in> set (data_rrs a) \<Longrightarrow> fst (minTTL a) \<le> rr_Ttl r"
  unfolding minTTL_eq by (simp add: fold_min_le(2))

lemma minTTL_found: "snd (minTTL a) \<longleftrightarrow> (\<exists>r \<in> set (data_rrs a). rr_Ttl r < MaxUint32)"
  unfolding minTTL_eq by simp

lemma minTTL_attained: "snd (minTTL a) \<Longrightarrow> \<exists>r \<in> set (data_rrs a). rr_Ttl r = fst (minTTL a)"
proof -
  assume "snd (minTTL a)"
  then obtain r where r: "r \<in> set (data_rrs a)" "rr_Ttl r < MaxUint32" by (auto simp: minTTL_found)
  have "fst (minTTL a) < MaxUint32" using minTTL_le [OF r(1)] r(2) by (rule le_less_trans)
  with fold_min_in [of "map rr_Ttl (data_rrs a)" MaxUint32] show ?thesis
    unfolding minTTL_eq by force
qed

text \<open>A configuration for concrete inputs.\<close>

definition ref_cache_options :: CacheOptions where
  "ref_cache_options =
     \<lparr>co_NegativeTTL = 60, co_CacheRcodeMaxTTL = [], co_ShuffleAnswerFunc = ShuffleRoundRobin,
      co_HardenBelowNXDOMAIN = True, co_FlushQuery = [], co_PrefetchTrigger = 0, co_PrefetchEligible = 30\<rparr>"

text \<open>
  How long the cache keeps a response. A response is stored only for the response codes the code
  lists; it expires no later than its lowest record TTL (the configured negative TTL when no record
  bounds it), a SERVFAIL after at most five minutes, and never after the limit configured for its
  response code.
\<close>

theorem cache_expiry_bounds:
  assumes "cache_expiry opt now a = Some (exp, pe)"
  shows "now \<le> rcode_limit opt now (m_Rcode a) exp \<and>
    (m_Rcode a \<noteq> RcodeServerFailure \<longrightarrow> (\<forall>r \<in> set (data_rrs a). rr_Ttl r < MaxUint32 \<longrightarrow>
       rcode_limit opt now (m_Rcode a) exp \<le> now + seconds (rr_Ttl r))) \<and>
    (\<not> snd (minTTL a) \<longrightarrow> rcode_limit opt now (m_Rcode a) exp \<le> now + seconds (co_NegativeTTL opt)) \<and>
    (m_Rcode a = RcodeServerFailure \<longrightarrow> rcode_limit opt now (m_Rcode a) exp \<le> now + seconds 300) \<and>
    (\<forall>n. map_of (co_CacheRcodeMaxTTL opt) (m_Rcode a) = Some n \<longrightarrow>
       rcode_limit opt now (m_Rcode a) exp \<le> now + seconds n)"
proof -
  have limit: "rcode_limit opt now (m_Rcode a) exp \<le> exp" "now \<le> exp \<Longrightarrow> now \<le> rcode_limit opt now (m_Rcode a) exp"
    by (auto simp: rcode_limit_def Let_def seconds_def split: option.splits)
  have pos: "now \<le> exp"
    using assms by (auto simp: cache_expiry_def Let_def seconds_def split: if_splits prod.splits)
  have ttl: "exp \<le> now + seconds (rr_Ttl r)"
    if "m_Rcode a \<noteq> RcodeServerFailure" "r \<in> set (data_rrs a)" "rr_Ttl r < MaxUint32" for r
  proof -
    from that have "snd (minTTL a)" "fst (minTTL a) \<le> rr_Ttl r" by (auto simp: minTTL_found minTTL_le)
    then have "uint (fst (minTTL a)) \<le> uint (rr_Ttl r)" by (simp add: word_le_def)
    with \<open>snd (minTTL a)\<close> assms that(1) show ?thesis
      by (auto simp: cache_expiry_def Let_def seconds_def split: if_splits prod.splits)
  qed
  have neg: "\<not> snd (minTTL a) \<Longrightarrow> exp \<le> now + seconds (co_NegativeTTL opt)"
    using assms by (auto simp: cache_expiry_def Let_def seconds_def word_less_def not_less word_le_def
        split: if_splits prod.splits)
  have sf: "m_Rcode a = RcodeServerFailure \<Longrightarrow> exp \<le> now + seconds 300"
    using assms by (auto simp: cache_expiry_def Let_def seconds_def word_less_def split: if_splits prod.splits)
  show ?thesis
    using limit pos ttl neg sf by (force simp: rcode_limit_def Let_def split: option.splits)
qed

theorem cache_expiry_bounds_witness:
  "cache_expiry (ch_opt (NewCache (ref_serving []) ref_cache_options ())) 1000 (ref_reply (ref_query ''a.'' TypeA) [ref_rr ''a.'' TypeA 30 (A [192, 0, 2, 1])])
     = Some (30000001000, False) \<and>
   rcode_limit ref_cache_options 1000 RcodeSuccess 30000001000 \<le> 1000 + seconds 30"
proof -
  have e: "cache_expiry (ch_opt (NewCache (ref_serving []) ref_cache_options ())) 1000
      (ref_reply (ref_query ''a.'' TypeA) [ref_rr ''a.'' TypeA 30 (A [192, 0, 2, 1])]) = Some (30000001000, False)"
    by code_simp
  have "data_rrs (ref_reply (ref_query ''a.'' TypeA) [ref_rr ''a.'' TypeA 30 (A [192, 0, 2, 1])]) =
      [ref_rr ''a.'' TypeA 30 (A [192, 0, 2, 1])]"
    by code_simp
  with cache_expiry_bounds [OF e] e show ?thesis
    by (simp add: ref_reply_def ref_SetReply_def ref_rr_def ref_cache_options_def NewCache_def)
qed

section \<open>Shuffling\<close>

definition is_address :: "RR \<Rightarrow> bool" where
  "is_address r \<longleftrightarrow> rr_Rrtype r = TypeA \<or> rr_Rrtype r = TypeAAAA"

text \<open>\<open>shuffled rrs rrs'\<close>: the same records, and only address records have changed place.\<close>

definition shuffled :: "RR list \<Rightarrow> RR list \<Rightarrow> bool" where
  "shuffled rrs rrs' \<longleftrightarrow>
     mset rrs' = mset rrs \<and> (\<forall>i < length rrs. \<not> is_address (rrs ! i) \<longrightarrow> rrs' ! i = rrs ! i)"

lemma address_idx_props:
  "distinct (address_idx rrs)" "i \<in> set (address_idx rrs) \<longleftrightarrow> i < length rrs \<and> is_address (rrs ! i)"
  by (auto simp: address_idx_def is_address_def)

lemma shuffled_refl: "shuffled rrs rrs"
  by (simp add: shuffled_def)

lemma shuffle_loop_keeps:
  assumes "\<And>i. i \<in> set idx \<Longrightarrow> i < length rrs" "n < length idx \<or> n = 0"
  shows "mset (shuffle_loop rnd idx n rrs) = mset rrs \<and>
    (\<forall>i. i \<notin> set idx \<longrightarrow> shuffle_loop rnd idx n rrs ! i = rrs ! i)"
  using assms
proof (induction n arbitrary: rrs)
  case (Suc n)
  let ?j = "rnd (Suc n) mod Suc (Suc n)"
  have j: "?j < length idx" "Suc n < length idx"
    using Suc.prems(2) by (auto intro: le_less_trans [OF mod_less_eq_dividend] less_le_trans [OF mod_less_divisor])
  then have mem: "idx ! ?j \<in> set idx" "idx ! Suc n \<in> set idx" by simp_all
  let ?s = "swap rrs (idx ! Suc n) (idx ! ?j)"
  have "mset ?s = mset rrs"
    using mem Suc.prems(1) by (simp add: swap_def mset_swap)
  moreover have "i \<notin> set idx \<Longrightarrow> ?s ! i = rrs ! i" for i
    using mem by (metis nth_list_update_neq swap_def)
  moreover have "mset (shuffle_loop rnd idx n ?s) = mset ?s \<and>
      (\<forall>i. i \<notin> set idx \<longrightarrow> shuffle_loop rnd idx n ?s ! i = ?s ! i)"
    using Suc.prems j by (intro Suc.IH) (auto simp: swap_def)
  ultimately show ?case by simp
qed simp

lemma write_idx_mset:
  "distinct idx \<Longrightarrow> (\<And>i. i \<in> set idx \<Longrightarrow> i < length xs) \<Longrightarrow> length vs = length idx \<Longrightarrow>
   mset (write_idx xs idx vs) + mset (map ((!) xs) idx) = mset xs + mset vs"
proof (induction xs idx vs rule: write_idx.induct)
  case (1 xs i idx v vs)
  have "map ((!) (xs[i := v])) idx = map ((!) xs) idx"
    using "1.prems"(1) by (intro map_cong) (auto intro!: nth_list_update_neq)
  with "1.IH" "1.prems" have "mset (write_idx (xs[i := v]) idx vs) + mset (map ((!) xs) idx) = mset (xs[i := v]) + mset vs"
    by simp
  moreover have "mset (xs[i := v]) + {#xs ! i#} = mset xs + {#v#}"
    using "1.prems"(2) [of i] by (simp add: mset_update)
  ultimately show ?case by (simp add: add.assoc [symmetric])
qed auto

lemma write_idx_other: "i \<notin> set idx \<Longrightarrow> write_idx xs idx vs ! i = xs ! i"
  by (induction xs idx vs rule: write_idx.induct) auto

lemma mset_rotate_right: "mset (rotate_right xs) = mset xs"
  by (cases xs rule: rev_cases) (simp_all add: rotate_right_def)

lemma rotations: "mset ((rotate_right ^^ n) xs) = mset xs" "length ((rotate_right ^^ n) xs) = length xs"
proof -
  show "mset ((rotate_right ^^ n) xs) = mset xs" by (induction n) (simp_all add: mset_rotate_right)
  then show "length ((rotate_right ^^ n) xs) = length xs" by (metis size_mset)
qed

lemma shuffled_rotate:
  "shuffled rrs (write_idx rrs (address_idx rrs) ((rotate_right ^^ n) (map ((!) rrs) (address_idx rrs))))"
  unfolding shuffled_def
  using write_idx_mset [OF address_idx_props(1), of rrs rrs "(rotate_right ^^ n) (map ((!) rrs) (address_idx rrs))"]
  by (auto simp: address_idx_props(2) rotations write_idx_other)

lemma AnswerShuffleRandom_shuffled:
  "\<exists>rrs. AnswerShuffleRandom rnd m = m\<lparr>m_Answer := rrs\<rparr> \<and> shuffled (m_Answer m) rrs"
proof (cases "length (m_Answer m) < 2")
  case True
  then show ?thesis by (auto simp: AnswerShuffleRandom_def shuffled_refl intro!: exI [of _ "m_Answer m"])
next
  case False
  let ?idx = "address_idx (m_Answer m)"
  have "length ?idx - 1 < length ?idx \<or> length ?idx - 1 = 0" by arith
  with shuffle_loop_keeps [of ?idx "m_Answer m" "length ?idx - 1" rnd]
  have "shuffled (m_Answer m) (shuffle_loop rnd ?idx (length ?idx - 1) (m_Answer m))"
    unfolding shuffled_def address_idx_props(2) by blast
  with False show ?thesis by (auto simp: AnswerShuffleRandom_def Let_def)
qed

lemma AnswerShuffleRoundRobin_shuffled:
  assumes "AnswerShuffleRoundRobin L now st m = Some (m', st')"
  shows "\<exists>rrs. m' = m\<lparr>m_Answer := rrs\<rparr> \<and> shuffled (m_Answer m) rrs"
proof -
  have "m' = m \<or> (\<exists>n. m' = m\<lparr>m_Answer := write_idx (m_Answer m) (address_idx (m_Answer m))
      ((rotate_right ^^ n) (map ((!) (m_Answer m)) (address_idx (m_Answer m))))\<rparr>)"
    using assms by (auto simp: AnswerShuffleRoundRobin_def Let_def simp del: funpow.simps split: if_splits option.splits prod.splits)
  then show ?thesis
  proof
    assume "m' = m"
    then show ?thesis by (intro exI [of _ "m_Answer m"]) (simp add: shuffled_refl)
  qed (auto simp: shuffled_rotate)
qed

lemma shuffle_answer_shuffled:
  assumes "shuffle_answer L rnd now c m = Some (m', c')"
  shows "\<exists>rrs. m' = m\<lparr>m_Answer := rrs\<rparr> \<and> shuffled (m_Answer m) rrs"
proof (cases "co_ShuffleAnswerFunc (ch_opt c)")
  case ShuffleNone
  with assms show ?thesis by (intro exI [of _ "m_Answer m"]) (simp add: shuffle_answer_def shuffled_refl)
qed (use assms in \<open>auto simp: shuffle_answer_def AnswerShuffleRandom_shuffled dest: AnswerShuffleRoundRobin_shuffled\<close>)

lemma answerFromCache_keeps:
  "answerFromCache L B rnd clk now c q = Some (r, c') \<Longrightarrow>
   ch_opt c' = ch_opt c \<and> ch_miss c' = ch_miss c \<and> ch_hit c' = ch_hit c \<and> ch_resolver c' = ch_resolver c"
  by (auto simp: answerFromCache_def shuffle_answer_def split: bind_splits option.splits if_splits AnswerShuffle.splits)

lemma ttl_left: "age < ttl \<Longrightarrow> 0 < ttl - age" for age ttl :: u32
  by (metis less_irrefl right_minus_eq word_gt_0)

lemma data_rrs_aged:
  "set (data_rrs (a\<lparr>m_Id := i, m_Question := qs, m_Answer := map (aged age) (m_Answer a),
     m_Ns := map (aged age) (m_Ns a), m_Extra := map (aged age) (m_Extra a)\<rparr>)) =
   (\<lambda>r. set_Ttl (rr_Ttl r - age) r) ` set (data_rrs a)"
  by (auto simp: data_rrs_def all_rrs_def aged_def)

section \<open>The contract of a backend\<close>

text \<open>
  \<open>ok\<close> is the backend's invariant, \<open>key\<close> identifies queries that share an entry and \<open>packs q m\<close> says
  that the backend can encode the message \<open>m\<close> as the response to \<open>q\<close> and decode it again.
\<close>

locale cache_backend =
  fixes B :: "'b CacheBackend"
    and ok :: "'b \<Rightarrow> bool"
    and key :: "Msg \<Rightarrow> 'k"
    and packs :: "Msg \<Rightarrow> Msg \<Rightarrow> bool"
  assumes store_ok: "ok b \<Longrightarrow> m_Question q \<noteq> [] \<Longrightarrow> \<exists>b'. be_Store B b q item = Some b' \<and> ok b'"
    and lookup_ok: "ok b \<Longrightarrow> m_Question q \<noteq> [] \<Longrightarrow> \<exists>r b'. be_Lookup B now b q = Some (r, b') \<and> ok b'"
    and lookup_aged: "be_Lookup B now b q = Some (Some (a, pe), b') \<Longrightarrow>
          \<exists>answer age. ageCachedAnswer answer q age = Some a"
    and lookup_stored: "ok b \<Longrightarrow> be_Store B b q item = Some b' \<Longrightarrow> ca_Msg item = Some m \<Longrightarrow> packs q m \<Longrightarrow>
          key q' = key q \<Longrightarrow> sint now \<le> sint (unixNano (ca_Expiry item)) \<Longrightarrow>
          ageCachedAnswer m q' (cacheAge now (unixNano (ca_Timestamp item))) = Some a \<Longrightarrow>
          \<exists>b''. be_Lookup B now b' q' = Some (Some (a, ca_PrefetchEligible item), b'')"
    and flush_ok: "ok b \<Longrightarrow> ok (be_Flush B b)"
    and flush_empty: "ok b \<Longrightarrow> m_Question q \<noteq> [] \<Longrightarrow> \<exists>b'. be_Lookup B now (be_Flush B b) q = Some (None, b')"
begin

lemma harden_ok: "ok b \<Longrightarrow> m_Question q \<noteq> [] \<Longrightarrow> \<exists>r b'. harden_loop B clk i fs q b = Some (r, b') \<and> ok b'"
proof (induction fs arbitrary: i b)
  case (Cons f fs)
  let ?q = "q\<lparr>m_Question := (m_Question q)[0 := (m_Question q ! 0)\<lparr>q_Name := Join (f # fs) ''.''\<rparr>]\<rparr>"
  have "m_Question ?q \<noteq> []" using Cons.prems by simp
  from lookup_ok [OF Cons.prems(1) this, of "clk i"] obtain r b1
    where "be_Lookup B (clk i) b ?q = Some (r, b1)" "ok b1" by blast
  with Cons show ?case by (cases r) auto
qed (metis harden_loop.simps(1))

lemma shuffle_ok:
  assumes "m_Question a \<noteq> []"
  shows "\<exists>a' c'. shuffle_answer L rnd now c a = Some (a', c') \<and> ch_backend c' = ch_backend c"
proof -
  obtain k where "lruKeyFromQuery L a = Some k" using lruKeyFromQuery_total [OF assms] by blast
  then have "\<exists>a' st. AnswerShuffleRoundRobin L now (ch_rr c) a = Some (a', st)"
    by (auto simp: AnswerShuffleRoundRobin_def Let_def split: option.splits prod.splits)
  then show ?thesis
    by (cases "co_ShuffleAnswerFunc (ch_opt c)") (auto simp: shuffle_answer_def)
qed

lemma answer_ok:
  assumes "ok (ch_backend c)" "m_Question q \<noteq> []"
  shows "\<exists>r c'. answerFromCache L B rnd clk now c q = Some (r, c') \<and> ok (ch_backend c')"
proof -
  obtain r b where l: "be_Lookup B (clk 0) (ch_backend c) q = Some (r, b)" "ok b"
    using lookup_ok [OF assms] by blast
  show ?thesis
  proof (cases r)
    case None
    obtain h b' where "harden_loop B clk 1 (tl (Split CHR ''.'' (qName q))) q b = Some (h, b')" "ok b'"
      using harden_ok [OF l(2) assms(2)] by blast
    with None l show ?thesis by (auto simp: answerFromCache_def)
  next
    case (Some p)
    obtain a pe where p: "p = (a, pe)" by fastforce
    with l Some lookup_aged have "m_Question a = m_Question q" by (fastforce simp: ageCachedAnswer_Some_iff)
    with assms(2) obtain a' c' where
      "shuffle_answer L rnd now (c\<lparr>ch_backend := b\<rparr>) a = Some (a', c')" "ch_backend c' = b"
      using shuffle_ok [of a L rnd now "c\<lparr>ch_backend := b\<rparr>"] by auto
    with Some l p show ?thesis by (auto simp: answerFromCache_def)
  qed
qed

lemma store_in_cache_ok:
  assumes "ok (ch_backend c)" "m_Question q \<noteq> []"
  shows "\<exists>c'. storeInCache B now c q a = Some c' \<and> ok (ch_backend c')"
proof (cases "cache_expiry (ch_opt c) now a")
  case (Some p)
  obtain exp pe where p: "p = (exp, pe)" by fastforce
  obtain b where "be_Store B (ch_backend c) q \<lparr>ca_Timestamp = Some now,
      ca_Expiry = Some (rcode_limit (ch_opt c) now (m_Rcode a) exp), ca_PrefetchEligible = pe, ca_Msg = Some a\<rparr> = Some b"
    "ok b"
    using store_ok [OF assms] by blast
  with Some p show ?thesis by (auto simp: storeInCache_def)
qed (use assms in \<open>simp add: storeInCache_def\<close>)

text \<open>With a question and a working backend the resolver does not panic, and keeps the backend's invariant.\<close>

lemma resolve_ok:
  assumes "ok (ch_backend c)" "m_Question q \<noteq> []"
    "\<And>w. snd (fst (r_Resolve (ch_resolver c) q ci w)) \<noteq> Some Panic"
    "Cache_Resolve L B rnd clk now tstore c q ci w = (ae, c', w')"
  shows "ok (ch_backend c') \<and> ae \<noteq> panic"
proof -
  obtain question qs where q: "m_Question q = question # qs" using assms(2) by (cases "m_Question q") auto
  obtain r c1 where ans: "answerFromCache L B rnd clk now c q = Some (r, c1)" "ok (ch_backend c1)"
    using answer_ok [OF assms(1,2)] by blast
  obtain a err w1 where up: "r_Resolve (ch_resolver c) q ci w = ((a, err), w1)" by (metis prod.collapse)
  with assms(3) [of w] have "err \<noteq> Some Panic" by simp
  obtain c3 where st: "storeInCache B tstore (c1\<lparr>ch_miss := Suc (ch_miss c1)\<rparr>) q (the a) = Some c3" "ok (ch_backend c3)"
    using store_in_cache_ok [of "c1\<lparr>ch_miss := Suc (ch_miss c1)\<rparr>" q tstore "the a"] ans(2) assms(2) by auto
  show ?thesis
    using assms(1,4) q ans up st \<open>err \<noteq> Some Panic\<close> flush_ok [OF assms(1)]
    by (auto simp: Cache_Resolve_def Let_def split: if_splits option.splits prod.splits)
qed

text \<open>An answer from the cache: the query's own header and question, and no expired record.\<close>

lemma answer_hit:
  assumes "answerFromCache L B rnd clk now c q = Some (Some (a, pe), c')" "SetReply_law L" "SetRcode_law L"
    "m_Question q = [x]"
  shows "m_Id a = m_Id q \<and> m_Question a = [x] \<and> (\<forall>r \<in> set (data_rrs a). 0 < rr_Ttl r)"
proof -
  obtain r b where l: "be_Lookup B (clk 0) (ch_backend c) q = Some (r, b)"
    using assms(1) by (auto simp: answerFromCache_def split: bind_splits)
  show ?thesis
  proof (cases r)
    case None
    with l assms(1) have "a = nxdomain L q" by (auto simp: answerFromCache_def split: if_splits bind_splits)
    with assms(2-4) show ?thesis by (simp add: nxdomain_def responseWithCode_reply data_rrs_def all_rrs_def)
  next
    case (Some p)
    with l assms(1) obtain a0 where "be_Lookup B (clk 0) (ch_backend c) q = Some (Some (a0, pe), b)"
      and sh: "shuffle_answer L rnd now (c\<lparr>ch_backend := b\<rparr>) a0 = Some (a, c')"
      by (cases p) (auto simp: answerFromCache_def split: bind_splits)
    then obtain answer age where "ageCachedAnswer answer q age = Some a0" using lookup_aged by blast
    then have a0: "m_Id a0 = m_Id q" "m_Question a0 = m_Question q" "\<forall>r \<in> set (data_rrs a0). 0 < rr_Ttl r"
      by (auto simp: ageCachedAnswer_Some_iff data_rrs_aged ttl_left)
    obtain rrs where "a = a0\<lparr>m_Answer := rrs\<rparr>" "set rrs = set (m_Answer a0)"
      using shuffle_answer_shuffled [OF sh] by (auto simp: shuffled_def dest: mset_eq_setD)
    with a0 assms(4) show ?thesis by (auto simp: data_rrs_def all_rrs_def)
  qed
qed

lemma resolve_stores:
  assumes "Cache_Resolve L B rnd clk now t c q ci w = ((Some a, None), c', w')" "m_Question q = [x]"
    "ch_miss c' \<noteq> ch_miss c" "\<not> m_Truncated a" "cache_expiry (ch_opt c) t a = Some (exp, pe)" "ok (ch_backend c)"
  shows "\<exists>b. ok b \<and> be_Store B b q \<lparr>ca_Timestamp = Some t,
      ca_Expiry = Some (rcode_limit (ch_opt c) t (m_Rcode a) exp), ca_PrefetchEligible = pe, ca_Msg = Some a\<rparr> =
      Some (ch_backend c') \<and> ch_opt c' = ch_opt c"
proof -
  have "m_Question q \<noteq> []" using assms(2) by simp
  then obtain r c1 where ans: "answerFromCache L B rnd clk now c q = Some (r, c1)" "ok (ch_backend c1)"
    using answer_ok [OF assms(6)] by blast
  note keeps = answerFromCache_keeps [OF ans(1)]
  have "storeInCache B t (c1\<lparr>ch_miss := Suc (ch_miss c1)\<rparr>) q a = Some c'"
    using assms(1-4) ans(1) keeps
    by (auto simp: Cache_Resolve_def Let_def split: if_splits option.splits prod.splits)
  with ans(2) assms(5) keeps show ?thesis
    by (auto simp: storeInCache_def split: bind_splits)
qed

lemma resolve_stored:
  assumes "ok b" "be_Store B b q item = Some (ch_backend c)" "ca_Msg item = Some m" "packs q m" "key q' = key q"
    "sint (clk 0) \<le> sint (unixNano (ca_Expiry item))"
    "ageCachedAnswer m q' (cacheAge (clk 0) (unixNano (ca_Timestamp item))) = Some a"
    "m_Question q' = [x']" "co_FlushQuery (ch_opt c) = [] \<or> co_FlushQuery (ch_opt c) \<noteq> q_Name x'"
  shows "\<exists>rrs c'. Cache_Resolve L B rnd clk now t c q' ci w = ((Some (a\<lparr>m_Answer := rrs\<rparr>), None), c', w) \<and>
    shuffled (m_Answer a) rrs \<and> ch_hit c' = Suc (ch_hit c)"
proof -
  obtain b' where l: "be_Lookup B (clk 0) (ch_backend c) q' = Some (Some (a, ca_PrefetchEligible item), b')"
    using lookup_stored [OF assms(1-7)] by blast
  have "m_Question a \<noteq> []" using assms(7,8) by (auto simp: ageCachedAnswer_Some_iff)
  then obtain a' c' where sh: "shuffle_answer L rnd now (c\<lparr>ch_backend := b'\<rparr>) a = Some (a', c')"
    using shuffle_ok by blast
  with l have "answerFromCache L B rnd clk now c q' = Some (Some (a', ca_PrefetchEligible item), c')"
    by (simp add: answerFromCache_def)
  with answerFromCache_keeps [OF this] assms(8,9) shuffle_answer_shuffled [OF sh] show ?thesis
    by (auto simp: Cache_Resolve_def Let_def split: prod.splits)
qed

end

interpretation memory: cache_backend "memory_CacheBackend L H" "mb_ok H" "lruKeyFromQuery L" "mb_packs L" for L H
proof (unfold_locales, goal_cases)
  case (1 b q item)
  then show ?case by (simp add: memory_CacheBackend_def mb_Store_ok)
next
  case (2 b q now)
  then show ?case by (simp add: memory_CacheBackend_def mb_Lookup_ok)
next
  case (3 now b q a pe b')
  then show ?case by (simp add: memory_CacheBackend_def) (metis mb_Lookup_Some)
next
  case (4 b q item b' m q' now a)
  then show ?case by (simp add: memory_CacheBackend_def mb_Lookup_stored)
next
  case (5 b)
  then show ?case by (simp add: memory_CacheBackend_def mb_Flush_ok)
next
  case (6 b q now)
  then show ?case by (simp add: memory_CacheBackend_def mb_Flush_empty)
qed

section \<open>The resolver over the memory backend\<close>

text \<open>
  C18: a query with a question never makes the cache panic, whatever its configuration, the clock and
  the random numbers, as long as the upstream resolver does not panic; and the invariant of the backend
  is kept.
\<close>

theorem Cache_Resolve_safe:
  assumes "mb_ok H (ch_backend c)" "m_Question q \<noteq> []"
    "\<And>w. snd (fst (r_Resolve (ch_resolver c) q ci w)) \<noteq> Some Panic"
    "Cache_Resolve L (memory_CacheBackend L H) rnd clk now t c q ci w = (ae, c', w')"
  shows "mb_ok H (ch_backend c') \<and> ae \<noteq> panic"
  using assms by (rule memory.resolve_ok)

definition ref_cache :: "RR list \<Rightarrow> (memoryBackend, unit) Cache" where
  "ref_cache rrs = NewCache (ref_serving rrs) ref_cache_options (NewMemoryBackend 2 ''raw'')"

lemma ref_cache_simps [simp]:
  "ch_backend (ref_cache rrs) = NewMemoryBackend 2 ''raw''" "ch_resolver (ref_cache rrs) = ref_serving rrs"
  "ch_opt (ref_cache rrs) = ref_cache_options"
  by (simp_all add: ref_cache_def NewCache_def ref_cache_options_def)

theorem Cache_Resolve_safe_witness:
  "fst (Cache_Resolve ref_lib (memory_CacheBackend ref_lib (\<lambda>k. 0)) id (\<lambda>i. 0) 0 0 (ref_cache [])
     (ref_query ''a.b.'' TypeA) ref_client ()) \<noteq> panic"
proof -
  obtain ae c' w' where e: "Cache_Resolve ref_lib (memory_CacheBackend ref_lib (\<lambda>k. 0)) id (\<lambda>i. 0) 0 0 (ref_cache [])
     (ref_query ''a.b.'' TypeA) ref_client () = (ae, c', w')" by (metis prod_cases3)
  have "m_Question (ref_query ''a.b.'' TypeA) \<noteq> []" by (simp add: ref_query_def)
  from Cache_Resolve_safe [OF _ this _ e] e show ?thesis by (simp add: mb_ok_new)
qed

text \<open>Two queries through a cache in front of a resolver that serves one address record.\<close>

definition ref_rrs :: "RR list" where
  "ref_rrs = [ref_rr ''a.'' TypeA 30 (A [192, 0, 2, 1])]"

definition ref_q :: Msg where
  "ref_q = ref_query ''a.'' TypeA"

definition ref_L :: dnslib where
  "ref_L = ref_lib_packing (ref_reply ref_q ref_rrs) [1, 2, 3]"

definition ref_run :: "(memoryBackend, unit) Cache \<Rightarrow> Msg \<Rightarrow> int \<Rightarrow> reply \<times> (memoryBackend, unit) Cache \<times> unit" where
  "ref_run c q t = Cache_Resolve ref_L (memory_CacheBackend ref_L (\<lambda>k. 0)) id (\<lambda>i. word_of_int t) t t c q ref_client ()"

lemma ref_q_simps [simp]:
  "m_Question ref_q = [\<lparr>q_Name = ''a.'', q_Qtype = TypeA, q_Qclass = ClassINET\<rparr>]" "qName ref_q = ''a.''"
  "data_rrs (ref_reply ref_q ref_rrs) = ref_rrs" "m_Rcode (ref_reply ref_q ref_rrs) = RcodeSuccess"
  "\<not> m_Truncated (ref_reply ref_q ref_rrs)" "tl (Split CHR ''.'' ''a.'') = [[]]"
  by code_simp+

lemma ref_expiry: "cache_expiry ref_cache_options 0 (ref_reply ref_q ref_rrs) = Some (30000000000, False)"
  by code_simp

lemma ref_packs: "mb_packs ref_L ref_q (ref_reply ref_q ref_rrs)"
proof -
  obtain k where k: "lruKeyFromQuery ref_L ref_q = Some k" using lruKeyFromQuery_total [of ref_q] by auto
  then have "length (q_Name (k_Question k)) = 2" "length (k_Net k) = 0"
    by (auto simp: lruKeyFromQuery_def Let_def ref_L_def ref_q_def ref_query_def new_Msg_def edns0_of_def ecs_key_def)
  with k show ?thesis by (simp add: mb_packs_def ref_L_def)
qed

lemma ref_ages:
  "\<exists>a. ageCachedAnswer (ref_reply ref_q ref_rrs) (ref_q\<lparr>m_Id := 9\<rparr>) (cacheAge 1500000000 0) = Some a"
  "sint (1500000000 :: u64) \<le> sint (30000000000 :: u64)"
proof -
  have "cacheAge 1500000000 0 = 1" by code_simp
  then show "\<exists>a. ageCachedAnswer (ref_reply ref_q ref_rrs) (ref_q\<lparr>m_Id := 9\<rparr>) (cacheAge 1500000000 0) = Some a"
    by (simp add: ageCachedAnswer_Some_iff) (simp add: ref_rrs_def ref_rr_def)
qed simp

lemma ref_same_key: "lruKeyFromQuery ref_L (ref_q\<lparr>m_Id := 9\<rparr>) = lruKeyFromQuery ref_L ref_q"
  by (simp add: lruKeyFromQuery_def edns0_of_def ref_L_def)

lemma ref_run_first:
  "\<exists>c. ref_run (ref_cache ref_rrs) ref_q 0 = ((Some (ref_reply ref_q ref_rrs), None), c, ()) \<and> ch_miss c = 1"
proof -
  let ?B = "memory_CacheBackend ref_L (\<lambda>k. 0)"
  have q: "m_Question ref_q \<noteq> []" by simp
  obtain b where l: "be_Lookup ?B 0 (NewMemoryBackend 2 ''raw'') ref_q = Some (None, b)"
    using mb_Lookup_new [OF q] by (fastforce simp: memory_CacheBackend_def)
  have "\<exists>r b'. be_Lookup ?B 0 (NewMemoryBackend 2 ''raw'') ref_q = Some (r, b') \<and> mb_ok (\<lambda>k. 0) b'"
    by (rule memory.lookup_ok [OF mb_ok_new q])
  with l have b: "mb_ok (\<lambda>k. 0) b" by simp
  let ?c = "(ref_cache ref_rrs)\<lparr>ch_backend := b, ch_miss := 1\<rparr>"
  have "\<exists>c. storeInCache ?B 0 ?c ref_q (ref_reply ref_q ref_rrs) = Some c \<and> mb_ok (\<lambda>k. 0) (ch_backend c)"
    by (rule memory.store_in_cache_ok) (simp_all add: b)
  then obtain c where c: "storeInCache ?B 0 ?c ref_q (ref_reply ref_q ref_rrs) = Some c" by blast
  then have "ch_miss c = 1" by (auto simp: storeInCache_def split: option.splits bind_splits)
  moreover have "answerFromCache ref_L ?B id (\<lambda>i. 0) 0 (ref_cache ref_rrs) ref_q =
      Some (None, (ref_cache ref_rrs)\<lparr>ch_backend := b\<rparr>)"
    using l by (simp add: answerFromCache_def ref_cache_options_def)
  moreover have "ch_miss (ref_cache ref_rrs) = 0" "co_FlushQuery ref_cache_options = []"
    by (simp_all add: ref_cache_def NewCache_def ref_cache_options_def)
  ultimately show ?thesis using c by (simp add: ref_run_def Cache_Resolve_def Let_def)
qed

lemma ref_run_second:
  assumes "ref_run (ref_cache ref_rrs) ref_q 0 = ((Some (ref_reply ref_q ref_rrs), None), c, ())"
  shows "\<exists>a c'. ref_run c (ref_q\<lparr>m_Id := 9\<rparr>) 1500000000 = ((Some a, None), c', ()) \<and> ch_hit c' \<noteq> ch_hit c \<and>
    mb_ok (\<lambda>k. 0) (ch_backend c)"
proof -
  let ?B = "memory_CacheBackend ref_L (\<lambda>k. 0)"
  let ?item = "\<lparr>ca_Timestamp = Some 0, ca_Expiry = Some 30000000000, ca_PrefetchEligible = False,
    ca_Msg = Some (ref_reply ref_q ref_rrs)\<rparr>"
  have m: "ch_miss c \<noteq> ch_miss (ref_cache ref_rrs)"
    using ref_run_first assms by (simp add: ref_cache_def NewCache_def)
  have q: "m_Question ref_q = [\<lparr>q_Name = ''a.'', q_Qtype = TypeA, q_Qclass = ClassINET\<rparr>]" by simp
  have "\<exists>b. mb_ok (\<lambda>k. 0) b \<and> be_Store ?B b ref_q ?item = Some (ch_backend c) \<and> ch_opt c = ref_cache_options"
    using memory.resolve_stores [OF assms [unfolded ref_run_def] q m, of 30000000000 False]
    by (simp add: ref_expiry mb_ok_new rcode_limit_def) (simp add: ref_cache_options_def)
  then obtain b where b: "mb_ok (\<lambda>k. 0) b" "be_Store ?B b ref_q ?item = Some (ch_backend c)"
    "co_FlushQuery (ch_opt c) = []" by (auto simp: ref_cache_options_def)
  have "\<exists>b'. be_Store ?B b ref_q ?item = Some b' \<and> mb_ok (\<lambda>k. 0) b'"
    by (rule memory.store_ok [OF b(1)]) simp
  with b(2) have ok: "mb_ok (\<lambda>k. 0) (ch_backend c)" by simp
  obtain a where "ageCachedAnswer (ref_reply ref_q ref_rrs) (ref_q\<lparr>m_Id := 9\<rparr>) (cacheAge 1500000000 0) = Some a"
    "sint (1500000000 :: u64) \<le> sint (30000000000 :: u64)"
    using ref_ages by blast
  with memory.resolve_stored [OF b(1,2) _ ref_packs, of "ref_q\<lparr>m_Id := 9\<rparr>" "\<lambda>i. 1500000000" a
      "\<lparr>q_Name = ''a.'', q_Qtype = TypeA, q_Qclass = ClassINET\<rparr>" ref_L id 1500000000 1500000000 ref_client "()"]
  show ?thesis using ok b(3) by (auto simp: ref_run_def unixNano_def ref_same_key)
qed





end
