(* ===== verification/Prefetch.thy ===== *)
theory Prefetch
  imports CacheResolver
begin

text \<open>
  \<^verbatim>\<open>prefetch.go\<close>: queries that are asked often are repeated when their answers expire. The two expiring
  caches are those of a library, here a record of their operations; a counter in the first cache is its
  value. The callback of the second cache runs when an entry expires, and an entry is kept for another
  period when it returns one.
\<close>

record PrefetchOptions =
  po_PrefetchWindow :: int
  po_PrefetchThreshold :: u64
  po_PrefetchCacheSize :: int
  po_PrefetchMaxItems :: int

record ('n, 'm) prefetch_caches =
  xn_Get :: "string \<Rightarrow> 'n \<Rightarrow> u64 option \<times> 'n"
  xn_Put :: "string \<Rightarrow> u64 \<Rightarrow> int \<Rightarrow> 'n \<Rightarrow> 'n"
  xq_Get :: "string \<Rightarrow> 'm \<Rightarrow> Msg option \<times> 'm"
  xq_Put :: "string \<Rightarrow> Msg \<Rightarrow> int \<Rightarrow> 'm \<Rightarrow> 'm"

record ('n, 'm, 'w) Prefetch =
  pf_resolver :: "'w resolver"
  pf_options :: PrefetchOptions
  pf_nameCache :: 'n
  pf_queryCache :: 'm

abbreviation (input) Hour :: int where "Hour \<equiv> 3600 * 1000000000"

definition prefetch_defaults :: "PrefetchOptions \<Rightarrow> PrefetchOptions" where
  "prefetch_defaults opt =
     (let o1 = (if po_PrefetchWindow opt = 0 then opt\<lparr>po_PrefetchWindow := Hour\<rparr> else opt);
          o2 = (if po_PrefetchThreshold o1 = 0 then o1\<lparr>po_PrefetchThreshold := 5\<rparr> else o1)
      in if po_PrefetchCacheSize o2 = 0 then o2\<lparr>po_PrefetchCacheSize := po_PrefetchMaxItems o2 * 3\<rparr> else o2)"

definition expirationCacheShards :: "int \<Rightarrow> int \<Rightarrow> int" where
  "expirationCacheShards gomaxprocs maxSize = (if gomaxprocs \<le> 1 \<or> maxSize = 1 then 0 else gomaxprocs)"

text \<open>The two caches are made from their size and number of shards.\<close>

definition newPrefetchWithShards ::
  "int \<Rightarrow> (int \<Rightarrow> int \<Rightarrow> 'n) \<Rightarrow> (int \<Rightarrow> int \<Rightarrow> 'm) \<Rightarrow> 'w resolver \<Rightarrow> PrefetchOptions \<Rightarrow> int \<Rightarrow> ('n, 'm, 'w) Prefetch" where
  "newPrefetchWithShards gomaxprocs newName newQuery resolver opt0 shards =
     (let opt = prefetch_defaults opt0;
          nameShards = (if shards = 0 then expirationCacheShards gomaxprocs (po_PrefetchCacheSize opt) else shards);
          queryShards = (if shards = 0 then expirationCacheShards gomaxprocs (po_PrefetchMaxItems opt) else shards)
      in \<lparr>pf_resolver = resolver, pf_options = opt, pf_nameCache = newName (po_PrefetchCacheSize opt) nameShards,
          pf_queryCache = newQuery (po_PrefetchMaxItems opt) queryShards\<rparr>)"

text \<open>The lowest TTL of an answer that can be used, in seconds.\<close>

definition prefetch_ttl :: "Msg \<Rightarrow> u32 option" where
  "prefetch_ttl answer =
     (if m_Rcode answer \<noteq> RcodeSuccess \<or> m_Truncated answer then None
      else case minTTL answer of (mi, ok) \<Rightarrow> if \<not> ok \<or> mi < 2 then None else Some mi)"

definition Prefetch_Resolve ::
  "dnslib \<Rightarrow> (lruKey \<Rightarrow> string) \<Rightarrow> ('n, 'm) prefetch_caches \<Rightarrow> ('n, 'm, 'w) Prefetch \<Rightarrow> Msg \<Rightarrow> ClientInfo \<Rightarrow> 'w \<Rightarrow>
   reply \<times> ('n, 'm, 'w) Prefetch \<times> 'w" where
  "Prefetch_Resolve L Sprintf X r q ci w =
     (case r_Resolve (pf_resolver r) q ci w of
        ((Some answer, None), w') \<Rightarrow>
          (case prefetch_ttl answer of
             None \<Rightarrow> ((Some answer, None), r, w')
           | Some mi \<Rightarrow>
               (case lruKeyFromQuery L q of
                  None \<Rightarrow> (panic, r, w')
                | Some lk \<Rightarrow>
                    (let key = Sprintf lk; (v, names) = xn_Get X key (pf_nameCache r);
                         count = (case v of None \<Rightarrow> 0 | Some n \<Rightarrow> n) + 1;
                         r1 = r\<lparr>pf_nameCache := xn_Put X key count (po_PrefetchWindow (pf_options r)) names\<rparr>
                     in ((Some answer, None),
                         (if po_PrefetchThreshold (pf_options r1) \<le> count
                          then r1\<lparr>pf_queryCache := xq_Put X key q (uint mi * 1000000000) (pf_queryCache r1)\<rparr> else r1),
                         w'))))
      | (ae, w') \<Rightarrow> (ae, r, w'))"

definition prefetch_client :: ClientInfo where
  "prefetch_client = \<lparr>ci_SourceIP = [], ci_DoHPath = [], ci_TLSServerName = [], ci_Listener = ''prefetch'', ci_Protocol = [], ci_ListenerAddr = []\<rparr>"

text \<open>The callback: the query and the time after which it expires again, or nothing.\<close>

definition prefetch_expired ::
  "('n, 'm) prefetch_caches \<Rightarrow> string \<Rightarrow> ('n, 'm, 'w) Prefetch \<Rightarrow> 'w \<Rightarrow> (Msg \<times> int) option \<times> ('n, 'm, 'w) Prefetch \<times> 'w" where
  "prefetch_expired X key r w =
     (let (v, names) = xn_Get X key (pf_nameCache r); r1 = r\<lparr>pf_nameCache := names\<rparr>
      in if v = None \<or> the v < po_PrefetchThreshold (pf_options r1) then (None, r1, w)
         else let (q, queries) = xq_Get X key (pf_queryCache r1); r2 = r1\<lparr>pf_queryCache := queries\<rparr>
              in case q of
                   None \<Rightarrow> (None, r2, w)
                 | Some m \<Rightarrow>
                     (case r_Resolve (pf_resolver r2) m prefetch_client w of
                        ((Some answer, None), w') \<Rightarrow>
                          (case prefetch_ttl answer of None \<Rightarrow> (None, r2, w') | Some mi \<Rightarrow> (Some (m, uint mi * 1000000000), r2, w'))
                      | (_, w') \<Rightarrow> (None, r2, w')))"

section \<open>Prefetching is invisible to clients\<close>

text \<open>The reply, and what the upstream resolver sees, is the same as without prefetching.\<close>

theorem Prefetch_transparent:
  assumes "m_Question q \<noteq> []"
  shows "fst (Prefetch_Resolve L Sprintf X r q ci w) = fst (r_Resolve (pf_resolver r) q ci w) \<and>
    snd (snd (Prefetch_Resolve L Sprintf X r q ci w)) = snd (r_Resolve (pf_resolver r) q ci w)"
proof -
  obtain a e w' where up: "r_Resolve (pf_resolver r) q ci w = ((a, e), w')" by (metis surj_pair)
  obtain lk where "lruKeyFromQuery L q = Some lk"
    using assms by (cases "m_Question q") (auto simp: lruKeyFromQuery_def Let_def)
  then show ?thesis by (cases a; cases e) (auto simp: Prefetch_Resolve_def up Let_def split: option.splits prod.splits)
qed

text \<open>A query is only repeated, and kept to be repeated, while its answers are positive and live at least two seconds.\<close>

theorem prefetch_expired_kept:
  assumes "prefetch_expired X key r w = (Some (q, ttl), r', w')"
  shows "\<exists>answer mi. fst (r_Resolve (pf_resolver r) q prefetch_client w) = (Some answer, None) \<and>
    m_Rcode answer = RcodeSuccess \<and> \<not> m_Truncated answer \<and> minTTL answer = (mi, True) \<and> 2 \<le> mi \<and> ttl = uint mi * 1000000000"
proof -
  from assms obtain a e where up: "r_Resolve (pf_resolver r) q prefetch_client w = ((a, e), w')" "a \<noteq> None" "e = None"
    "map_option (\<lambda>mi. uint mi * 1000000000) (prefetch_ttl (the a)) = Some ttl"
    by (auto simp: prefetch_expired_def Let_def split: if_splits prod.splits option.splits)
  then show ?thesis by (auto simp: prefetch_ttl_def split: if_splits prod.splits)
qed

end
