(* ===== verification/Pipeline.thy ===== *)
theory Pipeline
  imports RefLib "HOL-Library.Monad_Syntax"
begin

text \<open>
  \<^verbatim>\<open>pipeline.go\<close>: many queries share one upstream connection. Clients offer requests on a channel; one
  goroutine opens connections on demand, and for each connection a writer sends queries under fresh
  identifiers and a reader matches responses to them. The goroutines are the rules of a transition system
  and interleave freely. Requests are numbered; a pointer to a request is its number. What the connection
  delivers, when it fails, and when timers fire is unconstrained.
\<close>

section \<open>Requests and the queue in flight\<close>

record request =
  pr_q :: Msg
  pr_a :: "Msg option"
  pr_id :: u16
  pr_err :: "go_error option"
  pr_done :: bool

definition newRequest :: "Msg \<Rightarrow> request" where
  "newRequest q = \<lparr>pr_q = q, pr_a = None, pr_id = 0, pr_err = None, pr_done = False\<rparr>"

record inFlightQueue =
  iq_requests :: "(u16, nat) gomap"
  iq_maxLen :: nat

text \<open>
  The goroutine of a client: in its first \<^verbatim>\<open>select\<close>, in its second, or returned. The writer waits for a
  request, writes a query, or has ended.
\<close>

datatype client = Offering | Waiting | Returned reply

datatype writer = Idle | Writing nat Msg | Stopped

record pconn =
  pc_writer :: writer
  pc_reading :: bool
  pc_done :: bool

record pipelineMetrics =
  px_query :: nat
  px_response :: "int \<Rightarrow> nat"
  px_err :: "string \<Rightarrow> nat"
  px_maxQueueLen :: nat

record pipeline =
  ps_reqs :: "request list"
  ps_clients :: "client list"
  ps_requeued :: "nat list"
  ps_inFlight :: inFlightQueue
  ps_conn :: "pconn option"
  ps_metrics :: pipelineMetrics
  ps_panic :: bool

definition NewPipeline :: pipeline where
  "NewPipeline =
     \<lparr>ps_reqs = [], ps_clients = [], ps_requeued = [], ps_inFlight = \<lparr>iq_requests = [], iq_maxLen = 0\<rparr>, ps_conn = None,
      ps_metrics = \<lparr>px_query = 0, px_response = (\<lambda>_. 0), px_err = (\<lambda>_. 0), px_maxQueueLen = 0\<rparr>, ps_panic = False\<rparr>"

definition pipeline_err :: "string \<Rightarrow> pipeline \<Rightarrow> pipeline" where
  "pipeline_err e s = s\<lparr>ps_metrics := (ps_metrics s)\<lparr>px_err := (px_err (ps_metrics s))(e := Suc (px_err (ps_metrics s) e))\<rparr>\<rparr>"

text \<open>Closing the channel of a request that is already closed panics.\<close>

definition markDone :: "nat \<Rightarrow> Msg option \<Rightarrow> go_error option \<Rightarrow> pipeline \<Rightarrow> pipeline" where
  "markDone i a err s =
     (let r = ps_reqs s ! i
      in if pr_done r then s\<lparr>ps_panic := True\<rparr>
         else s\<lparr>ps_reqs := (ps_reqs s)[i := r\<lparr>pr_a := map_option (\<lambda>m. m\<lparr>m_Id := m_Id (pr_q r)\<rparr>) a, pr_err := err, pr_done := True\<rparr>]\<rparr>)"

definition waitFor :: "request \<Rightarrow> reply" where
  "waitFor r =
     (case (pr_err r, pr_a r) of
        (None, Some a) \<Rightarrow> (case validateResponseQuestion (pr_q r) a of Some err \<Rightarrow> (None, Some err) | None \<Rightarrow> (Some a, None))
      | (err, a) \<Rightarrow> (a, err))"

abbreviation set_queue :: "(u16, nat) gomap \<Rightarrow> pipeline \<Rightarrow> pipeline" where
  "set_queue m s \<equiv> s\<lparr>ps_inFlight := (ps_inFlight s)\<lparr>iq_requests := m\<rparr>\<rparr>"

abbreviation queue :: "pipeline \<Rightarrow> (u16, nat) gomap" where
  "queue s \<equiv> iq_requests (ps_inFlight s)"

text \<open>The loop for a free identifier, on the random numbers it draws; \<open>None\<close> while all of them are in use.\<close>

fun fresh_id :: "(u16, nat) gomap \<Rightarrow> u16 list \<Rightarrow> u16 option" where
  "fresh_id m [] = None"
| "fresh_id m (x # xs) = (if map_of m x = None then Some x else fresh_id m xs)"

definition inFlight_add :: "u16 list \<Rightarrow> nat \<Rightarrow> pipeline \<Rightarrow> (Msg option \<times> pipeline) option" where
  "inFlight_add ids i s =
     (if 65535 \<le> length (queue s) then Some (None, s)
      else do {
        x \<leftarrow> fresh_id (queue s) ids;
        let m = AList.update x i (queue s);
        Some (Some ((pr_q (ps_reqs s ! i))\<lparr>m_Id := x\<rparr>),
              s\<lparr>ps_reqs := (ps_reqs s)[i := (ps_reqs s ! i)\<lparr>pr_id := x\<rparr>],
                ps_inFlight := \<lparr>iq_requests = m, iq_maxLen = max (iq_maxLen (ps_inFlight s)) (length m)\<rparr>\<rparr>)
      })"

definition inFlight_get :: "Msg \<Rightarrow> pipeline \<Rightarrow> nat option \<times> pipeline" where
  "inFlight_get a s =
     (case map_of (queue s) (m_Id a) of
        None \<Rightarrow> (None, s)
      | Some i \<Rightarrow> (Some i, set_queue (AList.delete (m_Id a) (queue s)) s))"

definition inFlight_delete :: "nat \<Rightarrow> pipeline \<Rightarrow> pipeline" where
  "inFlight_delete i s =
     (let x = pr_id (ps_reqs s ! i)
      in if map_of (queue s) x = Some i then set_queue (AList.delete x (queue s)) s else s)"

definition inFlight_drain :: "go_error \<Rightarrow> pipeline \<Rightarrow> pipeline" where
  "inFlight_drain err s = fold (\<lambda>(x, i) s. set_queue (AList.delete x (queue s)) (markDone i None (Some err) s)) (queue s) s"

section \<open>Goroutines\<close>

subsection \<open>Clients\<close>

definition set_client :: "nat \<Rightarrow> client \<Rightarrow> pipeline \<Rightarrow> pipeline" where
  "set_client i c s = s\<lparr>ps_clients := (ps_clients s)[i := c]\<rparr>"

definition Pipeline_Resolve :: "Msg \<Rightarrow> pipeline \<Rightarrow> pipeline" where
  "Pipeline_Resolve q s = s\<lparr>ps_reqs := ps_reqs s @ [newRequest q], ps_clients := ps_clients s @ [Offering]\<rparr>"

definition timeout_reply :: "nat \<Rightarrow> pipeline \<Rightarrow> reply" where
  "timeout_reply i s = (None, Some (ErrQueryTimeout (qName (pr_q (ps_reqs s ! i)))))"

definition queue_timeout :: "nat \<Rightarrow> pipeline \<Rightarrow> pipeline" where
  "queue_timeout i s = set_client i (Returned (timeout_reply i s)) (pipeline_err ''querytimeout'' s)"

definition wait_timeout :: "nat \<Rightarrow> pipeline \<Rightarrow> pipeline" where
  "wait_timeout i s = set_client i (Returned (timeout_reply i s)) (pipeline_err ''querytimeout'' (inFlight_delete i s))"

definition client_return :: "nat \<Rightarrow> pipeline \<Rightarrow> pipeline" where
  "client_return i s = set_client i (Returned (waitFor (ps_reqs s ! i))) s"

text \<open>A request is on the channel when its client offers it, or the goroutine that queues it again does.\<close>

definition on_channel :: "nat \<Rightarrow> pipeline \<Rightarrow> bool" where
  "on_channel i s \<longleftrightarrow> i < length (ps_clients s) \<and> (ps_clients s ! i = Offering \<or> i \<in> set (ps_requeued s))"

definition receive :: "nat \<Rightarrow> pipeline \<Rightarrow> pipeline" where
  "receive i s = (if i \<in> set (ps_requeued s) then s\<lparr>ps_requeued := remove1 i (ps_requeued s)\<rparr> else set_client i Waiting s)"

subsection \<open>Connections\<close>

definition dial_failed :: "go_error \<Rightarrow> nat \<Rightarrow> pipeline \<Rightarrow> pipeline" where
  "dial_failed err i s = markDone i None (Some err) (pipeline_err ''open'' (receive i s))"

definition dialed :: "nat \<Rightarrow> pipeline \<Rightarrow> pipeline" where
  "dialed i s =
     (let s1 = receive i s
      in s1\<lparr>ps_conn := Some \<lparr>pc_writer = Idle, pc_reading = True, pc_done = False\<rparr>, ps_requeued := ps_requeued s1 @ [i]\<rparr>)"

definition set_writer :: "writer \<Rightarrow> pipeline \<Rightarrow> pipeline" where
  "set_writer wr s = s\<lparr>ps_conn := map_option (\<lambda>c. c\<lparr>pc_writer := wr\<rparr>) (ps_conn s)\<rparr>"

definition writer_take :: "u16 list \<Rightarrow> nat \<Rightarrow> pipeline \<Rightarrow> pipeline option" where
  "writer_take ids i s = do {
     (query, s1) \<leftarrow> inFlight_add ids i (receive i s);
     Some (case query of
         None \<Rightarrow> pipeline_err ''inflight_full'' (markDone i None (Some ErrInFlightFull) s1)
       | Some m \<Rightarrow> set_writer (Writing i m) (s1\<lparr>ps_metrics := (ps_metrics s1)\<lparr>px_query := Suc (px_query (ps_metrics s1))\<rparr>\<rparr>))
   }"

definition write_failed :: "go_error \<Rightarrow> nat \<Rightarrow> Msg \<Rightarrow> pipeline \<Rightarrow> pipeline" where
  "write_failed err i query s =
     (case inFlight_get query s of
        (found, s1) \<Rightarrow>
          pipeline_err ''send_query'' (set_writer Stopped (if found \<noteq> None then markDone i None (Some err) s1 else s1)))"

definition reader_got :: "Msg \<Rightarrow> pipeline \<Rightarrow> pipeline" where
  "reader_got a s =
     (case inFlight_get a s of
        (None, s1) \<Rightarrow> pipeline_err ''unexpected_a'' s1
      | (Some i, s1) \<Rightarrow>
          (let s2 = markDone i (Some a) None
                (s1\<lparr>ps_metrics := (ps_metrics s1)\<lparr>px_response := (px_response (ps_metrics s1))
                       (m_Rcode a := Suc (px_response (ps_metrics s1) (m_Rcode a)))\<rparr>\<rparr>)
           in s2\<lparr>ps_metrics := (ps_metrics s2)\<lparr>px_maxQueueLen := max (px_maxQueueLen (ps_metrics s2)) (iq_maxLen (ps_inFlight s2))\<rparr>\<rparr>))"

text \<open>The reader ends on an error: none is counted for the idle timeout.\<close>

definition reader_failed :: "string option \<Rightarrow> pipeline \<Rightarrow> pipeline" where
  "reader_failed e s =
     (let s1 = s\<lparr>ps_conn := map_option (\<lambda>c. c\<lparr>pc_reading := False, pc_done := True\<rparr>) (ps_conn s)\<rparr>
      in case e of None \<Rightarrow> s1 | Some name \<Rightarrow> pipeline_err name s1)"

definition reconnect :: "pipeline \<Rightarrow> pipeline" where
  "reconnect s = (inFlight_drain (ErrOther ''upstream connection closed with request in flight'') s)\<lparr>ps_conn := None\<rparr>"

subsection \<open>Interleaving\<close>

inductive pipeline_step :: "pipeline \<Rightarrow> pipeline \<Rightarrow> bool" where
  query: "pipeline_step s (Pipeline_Resolve q s)"
| queue_timeout: "i < length (ps_clients s) \<Longrightarrow> ps_clients s ! i = Offering \<Longrightarrow> pipeline_step s (queue_timeout i s)"
| wait_timeout: "i < length (ps_clients s) \<Longrightarrow> ps_clients s ! i = Waiting \<Longrightarrow> pipeline_step s (wait_timeout i s)"
| return: "i < length (ps_clients s) \<Longrightarrow> ps_clients s ! i = Waiting \<Longrightarrow> pr_done (ps_reqs s ! i) \<Longrightarrow>
    pipeline_step s (client_return i s)"
| dial_failed: "ps_conn s = None \<Longrightarrow> on_channel i s \<Longrightarrow> pipeline_step s (dial_failed err i s)"
| dialed: "ps_conn s = None \<Longrightarrow> on_channel i s \<Longrightarrow> pipeline_step s (dialed i s)"
| take: "ps_conn s = Some c \<Longrightarrow> pc_writer c = Idle \<Longrightarrow> on_channel i s \<Longrightarrow> writer_take ids i s = Some s' \<Longrightarrow> pipeline_step s s'"
| written: "ps_conn s = Some c \<Longrightarrow> pc_writer c = Writing i query \<Longrightarrow> pipeline_step s (set_writer Idle s)"
| write_failed: "ps_conn s = Some c \<Longrightarrow> pc_writer c = Writing i query \<Longrightarrow> pipeline_step s (write_failed err i query s)"
| writer_done: "ps_conn s = Some c \<Longrightarrow> pc_writer c = Idle \<Longrightarrow> pc_done c \<Longrightarrow> pipeline_step s (set_writer Stopped s)"
| got: "ps_conn s = Some c \<Longrightarrow> pc_reading c \<Longrightarrow> pipeline_step s (reader_got a s)"
| reader_failed: "ps_conn s = Some c \<Longrightarrow> pc_reading c \<Longrightarrow> pipeline_step s (reader_failed e s)"
| reconnect: "ps_conn s = Some c \<Longrightarrow> pc_writer c = Stopped \<Longrightarrow> \<not> pc_reading c \<Longrightarrow> pipeline_step s (reconnect s)"

section \<open>Invariant\<close>

definition reply_ok :: "Msg \<Rightarrow> reply \<Rightarrow> bool" where
  "reply_ok q reply \<longleftrightarrow>
     (\<exists>err. reply = (None, Some err)) \<or>
     (\<exists>a. reply = (Some a, None) \<and> m_Id a = m_Id q \<and> validateResponseQuestion q a = None)"

definition done_ok :: "request \<Rightarrow> bool" where
  "done_ok r \<longleftrightarrow>
     (\<exists>a. pr_a r = Some a \<and> pr_err r = None \<and> m_Id a = m_Id (pr_q r)) \<or> pr_a r = None \<and> pr_err r \<noteq> None"

definition in_queue :: "pipeline \<Rightarrow> nat \<Rightarrow> bool" where
  "in_queue s i \<longleftrightarrow> map_of (queue s) (pr_id (ps_reqs s ! i)) = Some i"

text \<open>
  A request is in one place: on the channel, in the queue, in the hands of a goroutine, or completed. Those in
  the hands of a goroutine are in \<open>H\<close>.
\<close>

definition preq_ok :: "nat set \<Rightarrow> pipeline \<Rightarrow> nat \<Rightarrow> bool" where
  "preq_ok H s i \<longleftrightarrow>
     (case ps_clients s ! i of
        Offering \<Rightarrow> \<not> pr_done (ps_reqs s ! i) \<and> i \<notin> set (ps_requeued s) \<and> \<not> in_queue s i \<and> i \<notin> H
      | Waiting \<Rightarrow> pr_done (ps_reqs s ! i) \<or> i \<in> set (ps_requeued s) \<or> in_queue s i \<or> i \<in> H
      | Returned reply \<Rightarrow> reply_ok (pr_q (ps_reqs s ! i)) reply) \<and>
     (i \<in> set (ps_requeued s) \<longrightarrow> \<not> pr_done (ps_reqs s ! i) \<and> \<not> in_queue s i \<and> i \<notin> H) \<and>
     (i \<in> H \<longrightarrow> \<not> pr_done (ps_reqs s ! i) \<and> \<not> in_queue s i) \<and>
     (pr_done (ps_reqs s ! i) \<longrightarrow> done_ok (ps_reqs s ! i))"

definition writer_ok :: "pipeline \<Rightarrow> bool" where
  "writer_ok s \<longleftrightarrow>
     (case ps_conn s of
        None \<Rightarrow> queue s = []
      | Some c \<Rightarrow>
          (case pc_writer c of
             Writing i query \<Rightarrow> i < length (ps_reqs s) \<and> (\<forall>j. map_of (queue s) (m_Id query) = Some j \<longrightarrow> j = i)
           | _ \<Rightarrow> True))"

definition queue_ok :: "pipeline \<Rightarrow> bool" where
  "queue_ok s \<longleftrightarrow> gomap_ok (queue s) \<and>
     (\<forall>(x, i) \<in> set (queue s). i < length (ps_reqs s) \<and> pr_id (ps_reqs s ! i) = x \<and> \<not> pr_done (ps_reqs s ! i))"

definition pipeline_ok :: "nat set \<Rightarrow> pipeline \<Rightarrow> bool" where
  "pipeline_ok H s \<longleftrightarrow>
     \<not> ps_panic s \<and> length (ps_clients s) = length (ps_reqs s) \<and> distinct (ps_requeued s) \<and>
     set (ps_requeued s) \<union> H \<subseteq> {..<length (ps_reqs s)} \<and> queue_ok s \<and>
     (\<forall>i < length (ps_reqs s). preq_ok H s i) \<and> writer_ok s"

lemma preq_ok_other:
  "preq_ok H s j \<Longrightarrow> ps_clients s' ! j = ps_clients s ! j \<Longrightarrow> ps_reqs s' ! j = ps_reqs s ! j \<Longrightarrow>
     j \<in> set (ps_requeued s') \<longleftrightarrow> j \<in> set (ps_requeued s) \<Longrightarrow> in_queue s' j = in_queue s j \<Longrightarrow> j \<in> H' \<longleftrightarrow> j \<in> H \<Longrightarrow>
     preq_ok H' s' j"
  by (simp add: preq_ok_def cong: client.case_cong)

text \<open>It is enough to look at the request a step is about.\<close>

lemma pipeline_ok_at:
  assumes "pipeline_ok H s" "\<not> ps_panic s'" "length (ps_reqs s') = length (ps_reqs s)" "length (ps_clients s') = length (ps_clients s)"
    "distinct (ps_requeued s')" "set (ps_requeued s') \<union> H' \<subseteq> {..<length (ps_reqs s)}" "queue_ok s'" "writer_ok s'"
    "\<And>j. j \<noteq> i \<Longrightarrow> ps_clients s' ! j = ps_clients s ! j \<and> ps_reqs s' ! j = ps_reqs s ! j \<and>
       (j \<in> set (ps_requeued s') \<longleftrightarrow> j \<in> set (ps_requeued s)) \<and> in_queue s' j = in_queue s j \<and> (j \<in> H' \<longleftrightarrow> j \<in> H)"
    "i < length (ps_reqs s) \<Longrightarrow> preq_ok H s i \<Longrightarrow> preq_ok H' s' i"
  shows "pipeline_ok H' s'"
  unfolding pipeline_ok_def
proof (intro conjI allI impI)
  fix j assume j: "j < length (ps_reqs s')"
  then have "preq_ok H s j" using assms(1,3) by (simp add: pipeline_ok_def)
  then show "preq_ok H' s' j" using assms(3) assms(9) [of j] assms(10) j by (cases "j = i") (auto intro: preq_ok_other [of H s j])
qed (use assms in \<open>simp_all add: pipeline_ok_def\<close>)

lemma pipeline_ok_metrics [simp]: "pipeline_ok H (s\<lparr>ps_metrics := m\<rparr>) = pipeline_ok H s"
  by (simp add: pipeline_ok_def queue_ok_def preq_ok_def in_queue_def writer_ok_def cong: client.case_cong option.case_cong writer.case_cong)

lemma pipeline_ok_err [simp]: "pipeline_ok H (pipeline_err e s) = pipeline_ok H s"
  by (simp add: pipeline_err_def)

lemma pipeline_ok_new: "pipeline_ok {} NewPipeline"
  by (simp add: pipeline_ok_def queue_ok_def writer_ok_def NewPipeline_def)

lemma pipeline_okD:
  "pipeline_ok H s \<Longrightarrow> \<not> ps_panic s" "pipeline_ok H s \<Longrightarrow> length (ps_clients s) = length (ps_reqs s)"
  "pipeline_ok H s \<Longrightarrow> distinct (ps_requeued s)" "pipeline_ok H s \<Longrightarrow> set (ps_requeued s) \<subseteq> {..<length (ps_reqs s)}"
  "pipeline_ok H s \<Longrightarrow> H \<subseteq> {..<length (ps_reqs s)}" "pipeline_ok H s \<Longrightarrow> queue_ok s" "pipeline_ok H s \<Longrightarrow> writer_ok s"
  "pipeline_ok H s \<Longrightarrow> j < length (ps_reqs s) \<Longrightarrow> preq_ok H s j"
  by (simp_all add: pipeline_ok_def)

lemma queue_okD:
  assumes "queue_ok s" "map_of (queue s) x = Some i"
  shows "i < length (ps_reqs s) \<and> pr_id (ps_reqs s ! i) = x \<and> \<not> pr_done (ps_reqs s ! i)"
  using assms map_of_SomeD [OF assms(2)] by (auto simp: queue_ok_def)

lemma held_ok:
  assumes "pipeline_ok H s" "i \<in> H"
  shows "i < length (ps_reqs s)" "\<not> pr_done (ps_reqs s ! i)" "\<not> in_queue s i" "i \<notin> set (ps_requeued s)"
    "ps_clients s ! i \<noteq> Offering" "map_of (queue s) x \<noteq> Some i" "(x, i) \<notin> set (queue s)"
proof -
  show i: "i < length (ps_reqs s)" using pipeline_okD(5) [OF assms(1)] assms(2) by blast
  show r: "\<not> pr_done (ps_reqs s ! i)" "\<not> in_queue s i" "i \<notin> set (ps_requeued s)" "ps_clients s ! i \<noteq> Offering"
    using pipeline_okD(8) [OF assms(1) i] assms(2) by (auto simp: preq_ok_def)
  show m: "map_of (queue s) x \<noteq> Some i"
    using queue_okD [OF pipeline_okD(6) [OF assms(1)], of x i] r(2) by (auto simp: in_queue_def)
  have "gomap_ok (queue s)" using pipeline_okD(6) [OF assms(1)] by (simp add: queue_ok_def)
  with m show "(x, i) \<notin> set (queue s)" using map_of_is_SomeI by metis
qed

lemma queue_ok_update:
  assumes "queue_ok s" "\<And>x. (x, i) \<notin> set (queue s)"
  shows "queue_ok (s\<lparr>ps_reqs := (ps_reqs s)[i := r]\<rparr>)"
proof -
  have "j \<noteq> i" if "(x, j) \<in> set (queue s)" for x j using assms(2) that by blast
  with assms(1) show ?thesis by (fastforce simp: queue_ok_def)
qed

lemma queue_ok_delete: "queue_ok s \<Longrightarrow> queue_ok (set_queue (AList.delete x (queue s)) s)"
proof -
  assume "queue_ok s"
  moreover have "set (AList.delete x (queue s)) \<subseteq> set (queue s)" by (auto simp: AList.delete_eq)
  ultimately show ?thesis unfolding queue_ok_def by auto
qed

lemma receive_ok:
  assumes "pipeline_ok {} s" "on_channel i s"
  shows "pipeline_ok {i} (receive i s)"
proof (rule pipeline_ok_at [OF assms(1), where i = i])
  note ok = pipeline_okD [OF assms(1)]
  show "queue_ok (receive i s)" "writer_ok (receive i s)"
    using ok(6,7) by (simp_all add: receive_def set_client_def queue_ok_def writer_ok_def cong: option.case_cong writer.case_cong)
  show "preq_ok {i} (receive i s) i" if "i < length (ps_reqs s)" "preq_ok {} s i"
    using that assms(2) ok(2,3) by (auto simp: preq_ok_def receive_def set_client_def on_channel_def in_queue_def split: client.splits)
  show "set (ps_requeued (receive i s)) \<union> {i} \<subseteq> {..<length (ps_reqs s)}"
    using assms(2) ok(2,4) by (auto simp: receive_def set_client_def on_channel_def dest: notin_set_remove1)
qed (use pipeline_okD [OF assms(1)] in \<open>auto simp: receive_def set_client_def in_queue_def\<close>)

lemma markDone_ok:
  assumes "pipeline_ok {i} s" "done_ok ((ps_reqs s ! i)\<lparr>pr_a := map_option (\<lambda>m. m\<lparr>m_Id := m_Id (pr_q (ps_reqs s ! i))\<rparr>) a, pr_err := err, pr_done := True\<rparr>)"
    (is "done_ok ?r")
  shows "pipeline_ok {} (markDone i a err s)"
proof -
  let ?s = "s\<lparr>ps_reqs := (ps_reqs s)[i := ?r]\<rparr>"
  note ok = pipeline_okD [OF assms(1)] and held = held_ok [OF assms(1) singletonI]
  have "pipeline_ok {} ?s"
  proof (rule pipeline_ok_at [OF assms(1), where i = i])
    show "queue_ok ?s" using ok(6) held(7) by (rule queue_ok_update)
    show "writer_ok ?s" using ok(7) by (simp add: writer_ok_def cong: option.case_cong writer.case_cong)
    show "preq_ok {} ?s i" if "i < length (ps_reqs s)" "preq_ok {i} s i"
      using that assms(2) held by (auto simp: preq_ok_def in_queue_def split: client.splits)
  qed (use ok in \<open>auto simp: in_queue_def\<close>)
  moreover have "markDone i a err s = ?s" using held(2) by (simp add: markDone_def Let_def)
  ultimately show ?thesis by simp
qed

lemma requeue_ok:
  assumes "pipeline_ok {i} s" "ps_conn s = None"
  shows "pipeline_ok {} (s\<lparr>ps_conn := Some \<lparr>pc_writer = Idle, pc_reading = True, pc_done = False\<rparr>, ps_requeued := ps_requeued s @ [i]\<rparr>)"
    (is "pipeline_ok {} ?s")
proof (rule pipeline_ok_at [OF assms(1), where i = i])
  note ok = pipeline_okD [OF assms(1)] and held = held_ok [OF assms(1) singletonI]
  show "queue_ok ?s" "writer_ok ?s" using ok(6) by (simp_all add: queue_ok_def writer_ok_def)
  show "preq_ok {} ?s i" if "i < length (ps_reqs s)" "preq_ok {i} s i"
    using that held by (auto simp: preq_ok_def in_queue_def split: client.splits)
  show "distinct (ps_requeued ?s)" "set (ps_requeued ?s) \<union> {} \<subseteq> {..<length (ps_reqs s)}" using ok(3,4) held(1,4) by auto
qed (use pipeline_okD [OF assms(1)] in \<open>auto simp: in_queue_def\<close>)

lemma fresh_id_free: "fresh_id m ids = Some x \<Longrightarrow> map_of m x = None"
  by (induction m ids rule: fresh_id.induct) (auto split: if_splits)

lemma update_absent: "map_of m k = None \<Longrightarrow> AList.update k v m = m @ [(k, v)]"
  by (induction m) (auto split: if_splits)

lemma inFlight_add_ok:
  assumes "pipeline_ok {i} s" "inFlight_add ids i s = Some (Some query, s')" "ps_conn s = Some c" "pc_writer c = Idle"
  shows "pipeline_ok {} (set_writer (Writing i query) s')"
proof -
  note ok = pipeline_okD [OF assms(1)] and held = held_ok [OF assms(1) singletonI]
  from assms(2) obtain x where x: "fresh_id (queue s) ids = Some x" and q: "query = (pr_q (ps_reqs s ! i))\<lparr>m_Id := x\<rparr>" and
    s': "s' = s\<lparr>ps_reqs := (ps_reqs s)[i := (ps_reqs s ! i)\<lparr>pr_id := x\<rparr>],
      ps_inFlight := \<lparr>iq_requests = AList.update x i (queue s),
        iq_maxLen = max (iq_maxLen (ps_inFlight s)) (length (AList.update x i (queue s)))\<rparr>\<rparr>"
    by (auto simp: inFlight_add_def Let_def bind_eq_Some_conv split: if_splits)
  let ?s = "set_writer (Writing i query) s'"
  have free: "map_of (queue s) x = None" using x by (rule fresh_id_free)
  have set: "set (AList.update x i (queue s)) = insert (x, i) (set (queue s))"
    using free by (simp add: update_absent)
  show ?thesis
  proof (rule pipeline_ok_at [OF assms(1), where i = i])
    have "queue_ok (s\<lparr>ps_reqs := (ps_reqs s)[i := (ps_reqs s ! i)\<lparr>pr_id := x\<rparr>]\<rparr>)"
      using ok(6) held(7) by (rule queue_ok_update)
    then show "queue_ok ?s" using held(1,2) by (auto simp: queue_ok_def s' set_writer_def set)
    show "writer_ok ?s" using held(1) assms(3,4) free by (auto simp: writer_ok_def s' set_writer_def q update_conv')
    show "preq_ok {} ?s i" if "i < length (ps_reqs s)" "preq_ok {i} s i"
      using that held by (auto simp: preq_ok_def in_queue_def s' set_writer_def update_conv' split: client.splits)
  qed (use ok free in \<open>auto simp: in_queue_def s' set_writer_def update_conv'\<close>)
qed

lemma inFlight_get_ok:
  assumes "pipeline_ok {} s" "inFlight_get a s = (Some i, s')"
  shows "pipeline_ok {i} s' \<and> ps_reqs s' = ps_reqs s \<and> ps_conn s' = ps_conn s"
proof -
  note ok = pipeline_okD [OF assms(1)]
  from assms(2) have i: "map_of (queue s) (m_Id a) = Some i" and s': "s' = set_queue (AList.delete (m_Id a) (queue s)) s"
    by (auto simp: inFlight_get_def split: option.splits)
  note r = queue_okD [OF ok(6) i]
  have "pipeline_ok {i} s'"
  proof (rule pipeline_ok_at [OF assms(1), where i = i])
    show "queue_ok s'" unfolding s' using ok(6) by (rule queue_ok_delete)
    show "writer_ok s'" using ok(7) by (auto simp: writer_ok_def s' delete_conv' split: option.splits writer.splits)
    show "preq_ok {i} s' i" if "i < length (ps_reqs s)" "preq_ok {} s i"
      using that r i by (auto simp: preq_ok_def in_queue_def s' delete_conv' split: client.splits)
    show "ps_clients s' ! j = ps_clients s ! j \<and> ps_reqs s' ! j = ps_reqs s ! j \<and>
       (j \<in> set (ps_requeued s') \<longleftrightarrow> j \<in> set (ps_requeued s)) \<and> in_queue s' j = in_queue s j \<and> (j \<in> {i} \<longleftrightarrow> j \<in> {})" if "j \<noteq> i" for j
      using that i by (auto simp: s' in_queue_def delete_conv')
  qed (use ok r in \<open>auto simp: s'\<close>)
  then show ?thesis by (simp add: s')
qed

lemma inFlight_get_None: "inFlight_get a s = (None, s') \<Longrightarrow> s' = s"
  by (simp add: inFlight_get_def split: option.splits)

lemma done_ok_err [simp]: "done_ok (r\<lparr>pr_a := None, pr_err := Some e, pr_done := d\<rparr>)"
  by (simp add: done_ok_def)

lemma done_ok_answer [simp]: "done_ok (r\<lparr>pr_a := Some (a\<lparr>m_Id := m_Id (pr_q r)\<rparr>), pr_err := None, pr_done := d\<rparr>)"
  by (simp add: done_ok_def)

lemma reply_ok_waitFor: "done_ok r \<Longrightarrow> reply_ok (pr_q r) (waitFor r)"
  by (auto simp: done_ok_def reply_ok_def waitFor_def split: option.splits)

text \<open>The change of a client that is not on the channel.\<close>

lemma set_client_ok:
  assumes "pipeline_ok {} s" "ps_clients s ! i = Waiting \<or> ps_clients s ! i = Offering" "reply_ok (pr_q (ps_reqs s ! i)) reply"
  shows "pipeline_ok {} (set_client i (Returned reply) s)"
proof (rule pipeline_ok_at [OF assms(1), where i = i])
  note ok = pipeline_okD [OF assms(1)]
  show "queue_ok (set_client i (Returned reply) s)" "writer_ok (set_client i (Returned reply) s)"
    using ok(6,7) by (simp_all add: set_client_def queue_ok_def writer_ok_def cong: option.case_cong writer.case_cong)
  show "preq_ok {} (set_client i (Returned reply) s) i" if "i < length (ps_reqs s)" "preq_ok {} s i"
    using that assms(2,3) ok(2) by (auto simp: preq_ok_def set_client_def in_queue_def)
qed (use pipeline_okD [OF assms(1)] in \<open>auto simp: set_client_def in_queue_def\<close>)

lemma wait_timeout_ok:
  assumes "pipeline_ok {} s" "ps_clients s ! i = Waiting" "i < length (ps_clients s)"
  shows "pipeline_ok {} (wait_timeout i s)"
proof -
  note ok = pipeline_okD [OF assms(1)]
  have reply: "reply_ok q (timeout_reply i s)" for q by (simp add: reply_ok_def timeout_reply_def)
  show ?thesis
  proof (cases "map_of (queue s) (pr_id (ps_reqs s ! i)) = Some i")
    case False
    then show ?thesis
      using set_client_ok [of "pipeline_err ''querytimeout'' s" i "timeout_reply i s"] assms(1,2) reply
      by (simp add: wait_timeout_def inFlight_delete_def Let_def pipeline_err_def)
  next
    case True
    let ?s = "set_client i (Returned (timeout_reply i s)) (set_queue (AList.delete (pr_id (ps_reqs s ! i)) (queue s)) s)"
    have "pipeline_ok {} ?s"
    proof (rule pipeline_ok_at [OF assms(1), where i = i])
      show "queue_ok ?s" using queue_ok_delete [OF ok(6)] by (simp add: queue_ok_def set_client_def)
      show "writer_ok ?s" using ok(7) by (auto simp: writer_ok_def set_client_def delete_conv' split: option.splits writer.splits)
      show "preq_ok {} ?s i" if "i < length (ps_reqs s)" "preq_ok {} s i"
        using that assms(3) reply by (auto simp: preq_ok_def set_client_def in_queue_def delete_conv' split: client.splits)
      show "ps_clients ?s ! j = ps_clients s ! j \<and> ps_reqs ?s ! j = ps_reqs s ! j \<and>
         (j \<in> set (ps_requeued ?s) \<longleftrightarrow> j \<in> set (ps_requeued s)) \<and> in_queue ?s j = in_queue s j \<and> (j \<in> {} \<longleftrightarrow> j \<in> {})" if "j \<noteq> i" for j
        using that True by (auto simp: set_client_def in_queue_def delete_conv')
    qed (use ok in \<open>auto simp: set_client_def\<close>)
    moreover have "wait_timeout i s = ?s\<lparr>ps_metrics := ps_metrics (pipeline_err ''querytimeout'' s)\<rparr>"
      using True by (simp add: wait_timeout_def inFlight_delete_def Let_def pipeline_err_def set_client_def)
    ultimately show ?thesis by simp
  qed
qed

lemma set_writer_ok:
  "pipeline_ok {} s \<Longrightarrow> ps_conn s = Some c \<Longrightarrow> wr = Idle \<or> wr = Stopped \<Longrightarrow> pipeline_ok {} (set_writer wr s)"
  by (auto simp: pipeline_ok_def queue_ok_def preq_ok_def in_queue_def writer_ok_def set_writer_def cong: client.case_cong)

lemma drain_ok:
  assumes "pipeline_ok {} s" "ps_conn s = Some c" "pc_writer c = Stopped"
  shows "pipeline_ok {} (fold (\<lambda>(x, i) s. set_queue (AList.delete x (queue s)) (markDone i None (Some err) s)) (queue s) s) \<and>
    queue (fold (\<lambda>(x, i) s. set_queue (AList.delete x (queue s)) (markDone i None (Some err) s)) (queue s) s) = [] \<and>
    ps_conn (fold (\<lambda>(x, i) s. set_queue (AList.delete x (queue s)) (markDone i None (Some err) s)) (queue s) s) = Some c"
  using assms
proof (induction "queue s" arbitrary: s)
  case (Cons xi m)
  obtain x i where xi: "xi = (x, i)" by (cases xi)
  have q: "queue s = (x, i) # m" using Cons.hyps(2) xi by simp
  let ?a = "new_Msg\<lparr>m_Id := x\<rparr>"
  let ?s = "set_queue (AList.delete x (queue s)) s"
  have "gomap_ok (queue s)" using pipeline_okD(6) [OF Cons.prems(1)] by (simp add: queue_ok_def)
  then have del: "AList.delete x (queue s) = m" using q by (simp add: AList.delete_eq filter_id_conv) force
  have "inFlight_get ?a s = (Some i, ?s)" using q by (simp add: inFlight_get_def)
  then have "pipeline_ok {i} ?s" using inFlight_get_ok [OF Cons.prems(1)] by blast
  then have "pipeline_ok {} (markDone i None (Some err) ?s)" by (rule markDone_ok) simp
  moreover have "set_queue (AList.delete x (queue s)) (markDone i None (Some err) s) = markDone i None (Some err) ?s"
    by (simp add: markDone_def Let_def)
  moreover have "queue (markDone i None (Some err) ?s) = m" "ps_conn (markDone i None (Some err) ?s) = Some c"
    using del Cons.prems(2) by (simp_all add: markDone_def Let_def)
  ultimately show ?case
    using Cons.hyps(1) [of "markDone i None (Some err) ?s"] Cons.prems(3) q by simp
qed simp

lemma receive_conn [simp]: "ps_conn (receive i s) = ps_conn s"
  by (simp add: receive_def set_client_def)

lemma markDone_conn [simp]: "ps_conn (markDone i a err s) = ps_conn s" "ps_conn (pipeline_err e s) = ps_conn s"
  by (simp_all add: markDone_def pipeline_err_def Let_def)

lemma Pipeline_Resolve_ok:
  assumes "pipeline_ok {} s"
  shows "pipeline_ok {} (Pipeline_Resolve q s)" (is "pipeline_ok _ ?s")
proof -
  note ok = pipeline_okD [OF assms]
  let ?n = "length (ps_reqs s)"
  have old: "preq_ok {} ?s j" if "j < ?n" for j
    using ok(8) [OF that] that ok(2)
    by (auto intro!: preq_ok_other [of "{}" s] simp: Pipeline_Resolve_def in_queue_def nth_append)
  have "\<not> in_queue ?s ?n" using queue_okD [OF ok(6)] by (fastforce simp: in_queue_def Pipeline_Resolve_def)
  with ok(2,4) have new: "preq_ok {} ?s ?n"
    by (auto simp: preq_ok_def Pipeline_Resolve_def nth_append newRequest_def)
  have "queue_ok ?s" using ok(6) by (auto simp: queue_ok_def Pipeline_Resolve_def nth_append)
  moreover have "writer_ok ?s" using ok(7)
    by (auto simp: writer_ok_def Pipeline_Resolve_def split: option.splits writer.splits)
  ultimately show ?thesis using ok old new
    by (auto simp: pipeline_ok_def Pipeline_Resolve_def less_Suc_eq)
qed

lemma writer_take_ok:
  assumes "pipeline_ok {} s" "on_channel i s" "writer_take ids i s = Some s'" "ps_conn s = Some c" "pc_writer c = Idle"
  shows "pipeline_ok {} s'"
proof -
  note held = receive_ok [OF assms(1,2)]
  from assms(3) obtain query s1 where add: "inFlight_add ids i (receive i s) = Some (query, s1)"
    by (auto simp: writer_take_def bind_eq_Some_conv)
  show ?thesis
  proof (cases query)
    case None
    with add have "s1 = receive i s" by (auto simp: inFlight_add_def Let_def bind_eq_Some_conv split: if_splits)
    with None add assms(3) markDone_ok [OF held] show ?thesis by (auto simp: writer_take_def)
  next
    case (Some m)
    have "pipeline_ok {} (set_writer (Writing i m) s1)"
      using inFlight_add_ok [OF held add [unfolded Some]] assms(4,5) by simp
    moreover have "s' = (set_writer (Writing i m) s1)\<lparr>ps_metrics := (ps_metrics s1)\<lparr>px_query := Suc (px_query (ps_metrics s1))\<rparr>\<rparr>"
      using add Some assms(3) by (cases s1) (auto simp: writer_take_def set_writer_def)
    ultimately show ?thesis by simp
  qed
qed

lemma write_failed_ok:
  assumes "pipeline_ok {} s" "ps_conn s = Some c" "pc_writer c = Writing i query"
  shows "pipeline_ok {} (write_failed err i query s)"
proof -
  obtain found s1 where g: "inFlight_get query s = (found, s1)" by fastforce
  show ?thesis
  proof (cases found)
    case None
    then show ?thesis using g inFlight_get_None assms(1,2) set_writer_ok by (fastforce simp: write_failed_def)
  next
    case (Some j)
    have "j = i" using pipeline_okD(7) [OF assms(1)] assms(2,3) g Some
      by (auto simp: writer_ok_def inFlight_get_def split: option.splits)
    then have "pipeline_ok {i} s1" "ps_conn s1 = Some c" using inFlight_get_ok [OF assms(1) g [unfolded Some]] assms(2) by simp_all
    then have "pipeline_ok {} (set_writer Stopped (markDone i None (Some err) s1))"
      by (intro set_writer_ok [of _ c] markDone_ok) simp_all
    then show ?thesis using g Some by (simp add: write_failed_def)
  qed
qed

lemma reader_got_ok:
  assumes "pipeline_ok {} s"
  shows "pipeline_ok {} (reader_got a s)"
proof -
  obtain found s1 where g: "inFlight_get a s = (found, s1)" by fastforce
  show ?thesis
  proof (cases found)
    case None
    then show ?thesis using g inFlight_get_None assms by (fastforce simp: reader_got_def)
  next
    case (Some i)
    then have "pipeline_ok {i} s1" using inFlight_get_ok [OF assms g [unfolded Some]] by simp
    then have "pipeline_ok {i} (s1\<lparr>ps_metrics := m\<rparr>)" for m by simp
    then have "pipeline_ok {} (markDone i (Some a) None (s1\<lparr>ps_metrics := m\<rparr>))" for m by (rule markDone_ok) simp
    then show ?thesis using g Some by (simp add: reader_got_def Let_def)
  qed
qed

lemma reader_failed_ok:
  assumes "pipeline_ok {} s" "ps_conn s = Some c"
  shows "pipeline_ok {} (reader_failed e s)"
proof -
  have "pipeline_ok {} (s\<lparr>ps_conn := Some (c\<lparr>pc_reading := False, pc_done := True\<rparr>)\<rparr>)"
    using assms by (auto simp: pipeline_ok_def queue_ok_def preq_ok_def in_queue_def writer_ok_def cong: client.case_cong writer.case_cong)
  then show ?thesis using assms(2) by (simp add: reader_failed_def Let_def split: option.split)
qed

lemma reconnect_ok:
  assumes "pipeline_ok {} s" "ps_conn s = Some c" "pc_writer c = Stopped"
  shows "pipeline_ok {} (reconnect s)"
proof -
  let ?s = "inFlight_drain (ErrOther ''upstream connection closed with request in flight'') s"
  have "pipeline_ok {} ?s \<and> queue ?s = []" using drain_ok [OF assms] by (simp add: inFlight_drain_def)
  then have "pipeline_ok {} (?s\<lparr>ps_conn := None\<rparr>)"
    by (auto simp: pipeline_ok_def queue_ok_def preq_ok_def in_queue_def writer_ok_def cong: client.case_cong)
  then show ?thesis by (simp add: reconnect_def)
qed

lemma pipeline_step_ok: "pipeline_step s s' \<Longrightarrow> pipeline_ok {} s \<Longrightarrow> pipeline_ok {} s'"
proof (induction rule: pipeline_step.induct)
  case (queue_timeout i s)
  then show ?case
    using set_client_ok [of "pipeline_err ''querytimeout'' s" i "timeout_reply i s"]
    by (simp add: queue_timeout_def reply_ok_def timeout_reply_def pipeline_err_def)
next
  case (return i s)
  have "done_ok (ps_reqs s ! i)"
    using pipeline_okD(2,8) [OF return.prems] return.hyps by (auto simp: preq_ok_def)
  then show ?case using set_client_ok [OF return.prems, of i] return.hyps reply_ok_waitFor by (simp add: client_return_def)
next
  case (dial_failed s i err)
  then show ?case using markDone_ok receive_ok by (simp add: dial_failed_def)
next
  case (dialed s i)
  then show ?case using requeue_ok [OF receive_ok] by (simp add: dialed_def Let_def)
qed (simp_all add: Pipeline_Resolve_ok wait_timeout_ok writer_take_ok set_writer_ok write_failed_ok reader_got_ok reader_failed_ok reconnect_ok)

interpretation pipeline_steps: step_invariant pipeline_step "pipeline_ok {}"
  by unfold_locales (rule pipeline_step_ok)

lemmas pipeline_reachable_ok = pipeline_steps.steps_inv [OF _ pipeline_ok_new]

section \<open>Every request is completed once\<close>

text \<open>
  C28: However clients, the writer, the reader, timers and failures of the connection interleave, no request is
  completed twice, which would panic on the second close of its channel. A client that has returned has an
  error, or an answer with the identifier of its own query that answers the question of its query. A client
  that waits has a completed request, or one that is queued again for the next writer, or one in flight under
  the identifier that was chosen for it; when there is no connection none is in flight, so no request is lost.
\<close>

theorem Pipeline_completes_once:
  assumes "pipeline_step\<^sup>*\<^sup>* NewPipeline s"
  shows "\<not> ps_panic s \<and> (ps_conn s = None \<longrightarrow> queue s = []) \<and>
    (\<forall>i < length (ps_clients s). case ps_clients s ! i of
        Returned reply \<Rightarrow> reply_ok (pr_q (ps_reqs s ! i)) reply
      | Waiting \<Rightarrow> pr_done (ps_reqs s ! i) \<or> i \<in> set (ps_requeued s) \<or> in_queue s i
      | Offering \<Rightarrow> \<not> pr_done (ps_reqs s ! i))"
proof -
  note ok = pipeline_okD [OF pipeline_reachable_ok [OF assms]]
  have "ps_conn s = None \<longrightarrow> queue s = []" using ok(7) by (auto simp: writer_ok_def)
  moreover have "case ps_clients s ! i of
        Returned reply \<Rightarrow> reply_ok (pr_q (ps_reqs s ! i)) reply
      | Waiting \<Rightarrow> pr_done (ps_reqs s ! i) \<or> i \<in> set (ps_requeued s) \<or> in_queue s i
      | Offering \<Rightarrow> \<not> pr_done (ps_reqs s ! i)" if "i < length (ps_clients s)" for i
    using ok(8) [of i] ok(2) that by (auto simp: preq_ok_def split: client.splits)
  ultimately show ?thesis using ok(1) by blast
qed

text \<open>A run with one query: it opens a connection, is sent with the identifier 9, answered and returned.\<close>

definition ref_sent :: pipeline where
  "ref_sent = the (writer_take [9] 0 (dialed 0 (Pipeline_Resolve (ref_query ''a.'' TypeA) NewPipeline)))"

definition ref_answered :: pipeline where
  "ref_answered = client_return 0 (reader_got (ref_query ''a.'' TypeA\<lparr>m_Id := 9, m_Response := True\<rparr>) (set_writer Idle ref_sent))"

lemma ref_sent_reached: "pipeline_step\<^sup>*\<^sup>* NewPipeline ref_sent"
proof -
  let ?s1 = "Pipeline_Resolve (ref_query ''a.'' TypeA) NewPipeline"
  have "pipeline_step NewPipeline ?s1" by (rule pipeline_step.query)
  moreover have "pipeline_step ?s1 (dialed 0 ?s1)"
    by (rule pipeline_step.dialed) (simp_all add: Pipeline_Resolve_def NewPipeline_def on_channel_def)
  moreover have "pipeline_step (dialed 0 ?s1) ref_sent"
    by (rule pipeline_step.take [where i = 0 and ids = "[9]" and c = "\<lparr>pc_writer = Idle, pc_reading = True, pc_done = False\<rparr>"])
      (simp_all add: ref_sent_def Pipeline_Resolve_def NewPipeline_def on_channel_def dialed_def receive_def set_client_def
        writer_take_def inFlight_add_def Let_def)
  ultimately show ?thesis by (meson converse_rtranclp_into_rtranclp rtranclp.rtrancl_refl)
qed

lemma ref_sent_simps: "ps_conn ref_sent = Some \<lparr>pc_writer = Writing 0 (ref_query ''a.'' TypeA\<lparr>m_Id := 9\<rparr>), pc_reading = True, pc_done = False\<rparr>"
  "queue ref_sent = [(9, 0)]" "ps_clients ref_sent = [Waiting]"
  "ps_reqs ref_sent = [(newRequest (ref_query ''a.'' TypeA))\<lparr>pr_id := 9\<rparr>]"
  by (simp_all add: ref_sent_def Pipeline_Resolve_def NewPipeline_def dialed_def receive_def set_client_def
        writer_take_def inFlight_add_def Let_def set_writer_def newRequest_def)

lemma ref_answered_reached: "pipeline_step\<^sup>*\<^sup>* NewPipeline ref_answered"
proof -
  let ?a = "ref_query ''a.'' TypeA\<lparr>m_Id := 9, m_Response := True\<rparr>"
  have "pipeline_step ref_sent (set_writer Idle ref_sent)"
    using ref_sent_simps(1) by (rule pipeline_step.written) simp
  moreover have "pipeline_step (set_writer Idle ref_sent) (reader_got ?a (set_writer Idle ref_sent))"
    by (rule pipeline_step.got [where c = "\<lparr>pc_writer = Idle, pc_reading = True, pc_done = False\<rparr>"]) (simp_all add: ref_sent_simps set_writer_def)
  moreover have "pipeline_step (reader_got ?a (set_writer Idle ref_sent)) ref_answered"
    unfolding ref_answered_def
    by (rule pipeline_step.return) (simp_all add: ref_sent_simps set_writer_def reader_got_def inFlight_get_def markDone_def newRequest_def Let_def)
  ultimately show ?thesis using ref_sent_reached by (meson rtranclp.rtrancl_into_rtrancl)
qed

theorem Pipeline_completes_once_witness:
  "\<exists>a. ps_clients ref_answered = [Returned (Some a, None)] \<and> m_Id a = 7 \<and>
     validateResponseQuestion (ref_query ''a.'' TypeA) a = None \<and> \<not> ps_panic ref_answered"
  using Pipeline_completes_once [OF ref_answered_reached]
  by (simp add: ref_answered_def ref_sent_simps client_return_def set_client_def set_writer_def reader_got_def inFlight_get_def
      markDone_def newRequest_def Let_def waitFor_def validateResponseQuestion_def ref_query_def new_Msg_def)

end
