(* ===== verification/Loaders.thy ===== *)
theory Loaders
  imports RefLib
begin

text \<open>
  Where blocklists get their rules: \<^verbatim>\<open>blocklistloader.go\<close>, \<^verbatim>\<open>blocklistloader-static.go\<close>,
  \<^verbatim>\<open>blocklistloader-local.go\<close> and \<^verbatim>\<open>blocklistloader-http.go\<close>. A loader hands the rules over one by one to
  a function that builds a database, here a function on the state \<open>'a\<close> of the database under
  construction. What the code reads from outside is the record \<open>world\<close>: the lines \<^verbatim>\<open>bufio.Scanner\<close>
  delivers of a file or an HTTP response, with the error the reader ends with, and what goes wrong
  when the cached copy of a list is written.
\<close>

section \<open>The outside\<close>

type_synonym stream = "string list \<times> go_error option"

record world =
  wd_files :: "string \<Rightarrow> go_error + stream"
  wd_http :: "string \<Rightarrow> go_error + (int \<times> stream)"
  wd_cacheFilename :: "string \<Rightarrow> string \<Rightarrow> string"
  wd_tmpErr :: "go_error option"
  wd_writeErr :: "go_error option"

section \<open>Reading rules\<close>

fun scanRules :: "stream \<Rightarrow> (string \<Rightarrow> 'a \<Rightarrow> go_error option \<times> 'a) \<Rightarrow> 'a \<Rightarrow> go_error option \<times> 'a" where
  "scanRules ([], rerr) fn s = (rerr, s)"
| "scanRules (r # rules, rerr) fn s =
     (case fn r s of
        (None, s') \<Rightarrow> scanRules (rules, rerr) fn s'
      | (Some e, s') \<Rightarrow> (Some e, s'))"

definition readRulesFile ::
  "world \<Rightarrow> string \<Rightarrow> (string \<Rightarrow> 'a \<Rightarrow> go_error option \<times> 'a) \<Rightarrow> 'a \<Rightarrow> go_error option \<times> 'a" where
  "readRulesFile w name fn s =
     (case wd_files w name of Inl e \<Rightarrow> (Some e, s) | Inr r \<Rightarrow> scanRules r fn s)"

definition listFailed :: "bool \<Rightarrow> bool \<Rightarrow> ('a \<Rightarrow> 'a) \<Rightarrow> go_error \<Rightarrow> 'a \<Rightarrow> go_error option \<times> 'a" where
  "listFailed allowFailure loaded reset err s =
     (if \<not> allowFailure \<or> loaded then (Some err, s) else (None, reset s))"

section \<open>The loaders\<close>

record FileLoaderData =
  fl_filename :: string
  fl_AllowFailure :: bool
  fl_loaded :: bool

record HTTPLoaderData =
  hl_url :: string
  hl_CacheDir :: string
  hl_AllowFailure :: bool
  hl_fromDisk :: bool
  hl_loaded :: bool

datatype BlocklistLoader =
    StaticLoader "string list"
  | FileLoader FileLoaderData
  | HTTPLoader HTTPLoaderData

definition NewStaticLoader :: "string list \<Rightarrow> BlocklistLoader" where
  "NewStaticLoader rules = StaticLoader rules"

definition NewFileLoader :: "string \<Rightarrow> bool \<Rightarrow> BlocklistLoader" where
  "NewFileLoader filename allowFailure =
     FileLoader \<lparr>fl_filename = filename, fl_AllowFailure = allowFailure, fl_loaded = False\<rparr>"

definition NewHTTPLoader :: "string \<Rightarrow> string \<Rightarrow> bool \<Rightarrow> BlocklistLoader" where
  "NewHTTPLoader url cacheDir allowFailure =
     HTTPLoader \<lparr>hl_url = url, hl_CacheDir = cacheDir, hl_AllowFailure = allowFailure,
                 hl_fromDisk = (cacheDir \<noteq> []), hl_loaded = False\<rparr>"

text \<open>
  The download, \<^verbatim>\<open>HTTPLoader.read\<close> after the cached copy was tried. With a cache directory the rules
  are written to a temporary file on the way past (\<^verbatim>\<open>cacheWhileReading\<close>), which replaces the cached
  copy once the whole list has been read and written.
\<close>

definition http_upstream ::
  "world \<Rightarrow> HTTPLoaderData \<Rightarrow> (string \<Rightarrow> 'a \<Rightarrow> go_error option \<times> 'a) \<Rightarrow> 'a \<Rightarrow> (go_error option \<times> 'a) \<times> world" where
  "http_upstream w l fn s =
     (case wd_http w (hl_url l) of
        Inl e \<Rightarrow> ((Some e, s), w)
      | Inr (status, body) \<Rightarrow>
          if status < 200 \<or> 299 < status then ((Some (ErrOther ''status''), s), w)
          else if hl_CacheDir l = [] \<or> wd_tmpErr w \<noteq> None then (scanRules body fn s, w)
          else case scanRules body fn s of
                 (Some scanErr, s') \<Rightarrow> ((Some scanErr, s'), w)
               | (None, s') \<Rightarrow>
                   ((None, s'),
                    if wd_writeErr w \<noteq> None then w
                    else w\<lparr>wd_files := (wd_files w)
                              (wd_cacheFilename w (hl_CacheDir l) (hl_url l) := Inr (fst body, None))\<rparr>))"

definition http_read ::
  "world \<Rightarrow> HTTPLoaderData \<Rightarrow> ('a \<Rightarrow> 'a) \<Rightarrow> (string \<Rightarrow> 'a \<Rightarrow> go_error option \<times> 'a) \<Rightarrow> 'a \<Rightarrow>
   (go_error option \<times> 'a) \<times> world" where
  "http_read w l reset fn s =
     (if hl_fromDisk l then
        (case readRulesFile w (wd_cacheFilename w (hl_CacheDir l) (hl_url l)) fn s of
           (None, s') \<Rightarrow> ((None, s'), w)
         | (Some e, s') \<Rightarrow> http_upstream w l fn (reset s'))
      else http_upstream w l fn s)"

fun Load ::
  "world \<Rightarrow> BlocklistLoader \<Rightarrow> ('a \<Rightarrow> 'a) \<Rightarrow> (string \<Rightarrow> 'a \<Rightarrow> go_error option \<times> 'a) \<Rightarrow> 'a \<Rightarrow>
   (go_error option \<times> 'a) \<times> BlocklistLoader \<times> world" where
  "Load w (StaticLoader rules) reset fn s = (scanRules (rules, None) fn s, StaticLoader rules, w)"
| "Load w (FileLoader l) reset fn s =
     (case readRulesFile w (fl_filename l) fn s of
        (Some e, s') \<Rightarrow> (listFailed (fl_AllowFailure l) (fl_loaded l) reset e s', FileLoader l, w)
      | (None, s') \<Rightarrow> ((None, s'), FileLoader (l\<lparr>fl_loaded := True\<rparr>), w))"
| "Load w (HTTPLoader l) reset fn s =
     (let ((err, s'), w') = http_read w l reset fn s; l' = l\<lparr>hl_fromDisk := False\<rparr>
      in case err of
           Some e \<Rightarrow> (listFailed (hl_AllowFailure l) (hl_loaded l) reset e s', HTTPLoader l', w')
         | None \<Rightarrow> ((None, s'), HTTPLoader (l'\<lparr>hl_loaded := True\<rparr>), w'))"

section \<open>Whole lists\<close>

text \<open>Feeding every rule of a list, when none of them is refused.\<close>

primrec feed :: "(string \<Rightarrow> 'a \<Rightarrow> go_error option \<times> 'a) \<Rightarrow> string list \<Rightarrow> 'a \<Rightarrow> 'a option" where
  "feed fn [] s = Some s"
| "feed fn (r # rules) s = (case fn r s of (None, s') \<Rightarrow> feed fn rules s' | (Some e, s') \<Rightarrow> None)"

lemma scanRules_None_iff: "scanRules (rules, rerr) fn s = (None, s') \<longleftrightarrow> rerr = None \<and> feed fn rules s = Some s'"
  by (induction rules arbitrary: s) (auto split: prod.splits option.splits)

lemma feed_append: "feed fn (xs @ ys) s = (case feed fn xs s of None \<Rightarrow> None | Some s' \<Rightarrow> feed fn ys s')"
  by (induction xs arbitrary: s) (auto split: prod.splits option.splits)

lemma feed_invariant:
  "feed fn rules s = Some s' \<Longrightarrow> P s \<Longrightarrow> (\<And>r s s'. r \<in> set rules \<Longrightarrow> fn r s = (None, s') \<Longrightarrow> P s \<Longrightarrow> P s') \<Longrightarrow> P s'"
proof (induction rules arbitrary: s)
  case (Cons r rules)
  from Cons.prems(1) obtain s1 where s1: "fn r s = (None, s1)" "feed fn rules s1 = Some s'"
    by (auto split: prod.splits option.splits)
  moreover have "P s1" using Cons.prems(2,3) s1(1) by (meson list.set_intros(1))
  ultimately show ?case using Cons.IH Cons.prems(3) by (meson list.set_intros(2))
qed simp

text \<open>The complete lists a loader can find outside.\<close>

fun offered :: "world \<Rightarrow> BlocklistLoader \<Rightarrow> string list \<Rightarrow> bool" where
  "offered w (StaticLoader rules') rules \<longleftrightarrow> rules = rules'"
| "offered w (FileLoader l) rules \<longleftrightarrow> wd_files w (fl_filename l) = Inr (rules, None)"
| "offered w (HTTPLoader l) rules \<longleftrightarrow>
     hl_fromDisk l \<and> wd_files w (wd_cacheFilename w (hl_CacheDir l) (hl_url l)) = Inr (rules, None) \<or>
     (\<exists>status. wd_http w (hl_url l) = Inr (status, rules, None) \<and> 200 \<le> status \<and> status \<le> 299)"

fun may_start_empty :: "BlocklistLoader \<Rightarrow> bool" where
  "may_start_empty (StaticLoader rules) \<longleftrightarrow> False"
| "may_start_empty (FileLoader l) \<longleftrightarrow> fl_AllowFailure l \<and> \<not> fl_loaded l"
| "may_start_empty (HTTPLoader l) \<longleftrightarrow> hl_AllowFailure l \<and> \<not> hl_loaded l"

lemma readRulesFile_None:
  "readRulesFile w name fn s = (None, s') \<Longrightarrow> \<exists>rules. wd_files w name = Inr (rules, None) \<and> feed fn rules s = Some s'"
  by (auto simp: readRulesFile_def scanRules_None_iff split: sum.splits)

lemma http_upstream_None:
  assumes "http_upstream w l fn s = ((None, s'), w')"
  shows "\<exists>status rules. wd_http w (hl_url l) = Inr (status, rules, None) \<and> 200 \<le> status \<and> status \<le> 299 \<and>
    feed fn rules s = Some s'"
  using assms
  by (auto simp: http_upstream_def scanRules_None_iff not_less split: sum.splits if_splits prod.splits option.splits)

lemma http_read_None:
  assumes "http_read w l (\<lambda>_. s0) fn s0 = ((None, s'), w')"
  shows "\<exists>rules. offered w (HTTPLoader l) rules \<and> feed fn rules s0 = Some s'"
proof (cases "hl_fromDisk l")
  case True
  obtain err s1 where r: "readRulesFile w (wd_cacheFilename w (hl_CacheDir l) (hl_url l)) fn s0 = (err, s1)"
    by fastforce
  show ?thesis
  proof (cases err)
    case None
    with r True assms show ?thesis by (auto simp: http_read_def dest: readRulesFile_None)
  next
    case (Some e)
    with r True assms have "http_upstream w l fn s0 = ((None, s'), w')" by (simp add: http_read_def)
    from http_upstream_None [OF this] show ?thesis by auto
  qed
next
  case False
  with assms have "http_upstream w l fn s0 = ((None, s'), w')" by (simp add: http_read_def)
  from http_upstream_None [OF this] show ?thesis by auto
qed

lemma Load_cases:
  assumes "Load w l (\<lambda>_. s0) fn s0 = ((None, s), l', w')"
  shows "\<exists>rules. (offered w l rules \<or> may_start_empty l \<and> rules = []) \<and> feed fn rules s0 = Some s"
proof (cases l)
  case (StaticLoader rules)
  with assms show ?thesis by (auto simp: scanRules_None_iff)
next
  case (FileLoader d)
  with assms show ?thesis
    by (auto simp: listFailed_def split: prod.splits option.splits if_splits dest: readRulesFile_None)
next
  case (HTTPLoader d)
  obtain err s1 w1 where r: "http_read w d (\<lambda>_. s0) fn s0 = ((err, s1), w1)" by (metis prod.collapse)
  show ?thesis
  proof (cases err)
    case None
    with r have "\<exists>rules. offered w l rules \<and> feed fn rules s0 = Some s1"
      unfolding HTTPLoader by (intro http_read_None) simp
    with r None assms HTTPLoader show ?thesis by (auto simp: Let_def)
  next
    case (Some e)
    with r assms HTTPLoader show ?thesis by (auto simp: Let_def listFailed_def split: if_splits)
  qed
qed

text \<open>
  C25: a database is built from a whole list or from nothing. When loading succeeds, the database under
  construction holds exactly the rules of one complete list the loader can reach, never those of a
  list that broke off, or it is empty, which happens only on a first load that is allowed to fail.
\<close>

theorem Load_whole_list:
  assumes "Load w l (\<lambda>_. s0) fn s0 = ((None, s), l', w')"
  shows "(\<exists>rules. offered w l rules \<and> feed fn rules s0 = Some s) \<or> (may_start_empty l \<and> s = s0)"
  using Load_cases [OF assms] by auto

text \<open>A world with one readable file, for concrete inputs.\<close>

definition ref_world :: world where
  "ref_world =
     \<lparr>wd_files = (\<lambda>f. if f = ''rules'' then Inr ([''a'', ''b''], None) else Inl (ErrOther f)),
      wd_http = (\<lambda>u. Inr (200, [''x'', ''y''], None)), wd_cacheFilename = (@), wd_tmpErr = None, wd_writeErr = None\<rparr>"

theorem Load_whole_list_witness:
  "\<exists>rules. offered ref_world (NewFileLoader ''rules'' True) rules \<and> rules = [''a'', ''b'']"
proof -
  have "Load ref_world (NewFileLoader ''rules'' True) (\<lambda>_. []) (\<lambda>r s. (None, s @ [r])) [] =
      ((None, [''a'', ''b'']), FileLoader \<lparr>fl_filename = ''rules'', fl_AllowFailure = True, fl_loaded = True\<rparr>, ref_world)"
    by (simp add: NewFileLoader_def readRulesFile_def ref_world_def)
  from Load_whole_list [OF this] show ?thesis by (auto simp: NewFileLoader_def ref_world_def)
qed

text \<open>
  The cached copy of a list is the list. After a download with a cache directory that could be
  written, the first load of a new loader reads the same rules from the cached copy, whatever the
  server then answers.
\<close>

theorem http_cache_roundtrip:
  assumes "http_upstream w l fn s = ((None, s1), w1)" "hl_CacheDir l \<noteq> []" "wd_tmpErr w = None" "wd_writeErr w = None"
    "wd_files w2 = wd_files w1" "wd_cacheFilename w2 = wd_cacheFilename w"
  shows "\<exists>l'. Load w2 (NewHTTPLoader (hl_url l) (hl_CacheDir l) allow) reset fn s = ((None, s1), l', w2)"
proof -
  obtain status rules where h: "wd_http w (hl_url l) = Inr (status, rules, None)" "200 \<le> status" "status \<le> 299"
    "feed fn rules s = Some s1"
    using http_upstream_None [OF assms(1)] by blast
  then have "wd_files w1 (wd_cacheFilename w (hl_CacheDir l) (hl_url l)) = Inr (rules, None)"
    using assms(1-4) by (auto simp: http_upstream_def split: if_splits option.splits prod.splits)
  with h(4) assms(2,5,6) show ?thesis
    by (simp add: NewHTTPLoader_def http_read_def readRulesFile_def scanRules_None_iff [THEN iffD2] Let_def)
qed

theorem http_cache_roundtrip_witness:
  "\<exists>w1 l'. http_upstream ref_world \<lparr>hl_url = ''u'', hl_CacheDir = ''d'', hl_AllowFailure = False, hl_fromDisk = False,
      hl_loaded = False\<rparr> (\<lambda>r s. (None, s @ [r])) [] = ((None, [''x'', ''y'']), w1) \<and>
    Load (w1\<lparr>wd_http := \<lambda>u. Inl (ErrOther u)\<rparr>) (NewHTTPLoader ''u'' ''d'' False) id (\<lambda>r s. (None, s @ [r])) [] =
      ((None, [''x'', ''y'']), l', w1\<lparr>wd_http := \<lambda>u. Inl (ErrOther u)\<rparr>)"
proof -
  let ?l = "\<lparr>hl_url = ''u'', hl_CacheDir = ''d'', hl_AllowFailure = False, hl_fromDisk = False, hl_loaded = False\<rparr>"
  obtain w1 where w1: "http_upstream ref_world ?l (\<lambda>r s. (None, s @ [r])) [] = ((None, [''x'', ''y'']), w1)"
    "wd_cacheFilename w1 = (@)"
    by (simp add: http_upstream_def ref_world_def)
  from http_cache_roundtrip [OF w1(1), of "w1\<lparr>wd_http := \<lambda>u. Inl (ErrOther u)\<rparr>" False id] w1
  show ?thesis by (simp add: ref_world_def)
qed

end
