(* ===== verification/NetParse.thy ===== *)
theory NetParse
  imports Net
begin

text \<open>
  The parsing functions of the Go standard library the configuration code uses: numbers
  (\<^verbatim>\<open>strconv\<close>), IP addresses and networks (\<^verbatim>\<open>net/netip\<close>, \<^verbatim>\<open>net\<close>), and host-port pairs.
\<close>

section \<open>Numbers\<close>

definition is_digit :: "char \<Rightarrow> bool" where
  "is_digit c \<longleftrightarrow> of_char c \<ge> (48 :: nat) \<and> of_char c \<le> (57 :: nat)"

definition digit_val :: "char \<Rightarrow> nat" where
  "digit_val c = of_char c - 48"

definition digits_val :: "string \<Rightarrow> nat" where
  "digits_val s = foldl (\<lambda>n c. 10 * n + digit_val c) 0 s"

definition all_digits :: "string \<Rightarrow> bool" where
  "all_digits s \<longleftrightarrow> s \<noteq> [] \<and> list_all is_digit s"

text \<open>\<^verbatim>\<open>strconv.Atoi\<close> (64-bit \<^verbatim>\<open>int\<close>) and \<^verbatim>\<open>strconv.ParseUint(s, 10, bits)\<close>.\<close>

definition Atoi :: "string \<Rightarrow> int option" where
  "Atoi s =
     (let (neg, d) = (case s of c # cs \<Rightarrow> if c = CHR ''-'' then (True, cs)
                                          else if c = CHR ''+'' then (False, cs) else (False, s)
                      | [] \<Rightarrow> (False, s));
          n = int (digits_val d)
      in if \<not> all_digits d then None
         else if neg then (if n \<le> 2 ^ 63 then Some (- n) else None)
         else (if n < 2 ^ 63 then Some n else None))"

definition ParseUint :: "nat \<Rightarrow> string \<Rightarrow> nat option" where
  "ParseUint bits s = (if all_digits s \<and> digits_val s < 2 ^ bits then Some (digits_val s) else None)"

lemma digit_char [simp]: "n < 10 \<Longrightarrow> is_digit (char_of (48 + n))" "n < 10 \<Longrightarrow> digit_val (char_of (48 + n)) = n"
  by (simp_all add: is_digit_def digit_val_def of_char_of)

lemma digits_val_append: "digits_val (s @ [c]) = 10 * digits_val s + digit_val c"
  by (simp add: digits_val_def)

lemma Itoa_digits [simp]: "all_digits (Itoa n)"
proof (induction n rule: Itoa.induct)
  case (1 n)
  then show ?case
    by (cases "n < 10") (simp_all add: all_digits_def Itoa.simps [of n])
qed

lemma digits_val_Itoa [simp]: "digits_val (Itoa n) = n"
proof (induction n rule: Itoa.induct)
  case (1 n)
  show ?case
  proof (cases "n < 10")
    case True
    then show ?thesis by (simp add: Itoa.simps [of n] digits_val_def)
  next
    case False
    with 1 show ?thesis by (simp add: Itoa.simps [of n] digits_val_append)
  qed
qed

section \<open>IP addresses\<close>

text \<open>\<^verbatim>\<open>parseIPv4Fields\<close>: four decimal fields without leading zeros.\<close>

definition ipv4_field :: "string \<Rightarrow> bool" where
  "ipv4_field f \<longleftrightarrow> all_digits f \<and> (1 < length f \<longrightarrow> hd f \<noteq> CHR ''0'') \<and> digits_val f \<le> 255"

definition parseIPv4Fields :: "string \<Rightarrow> u8 list option" where
  "parseIPv4Fields s =
     (let fs = Split CHR ''.'' s in
      if length fs = 4 \<and> list_all ipv4_field fs then Some (map (\<lambda>f. of_nat (digits_val f)) fs) else None)"

definition hex_val :: "char \<Rightarrow> nat option" where
  "hex_val c =
     (let n = of_char c :: nat in
      if 48 \<le> n \<and> n \<le> 57 then Some (n - 48)
      else if 97 \<le> n \<and> n \<le> 102 then Some (n - 87)
      else if 65 \<le> n \<and> n \<le> 70 then Some (n - 55) else None)"

text \<open>The leading hexadecimal number of a string: its digit count, its value and what follows.\<close>

fun hex_prefix :: "string \<Rightarrow> nat \<Rightarrow> nat \<Rightarrow> nat \<times> nat \<times> string" where
  "hex_prefix [] k acc = (k, acc, [])"
| "hex_prefix (c # s) k acc =
     (case hex_val c of None \<Rightarrow> (k, acc, c # s) | Some d \<Rightarrow> hex_prefix s (Suc k) (16 * acc + d))"

lemma hex_prefix_length: "hex_prefix s k acc = (k', acc', s') \<Longrightarrow> k' + length s' = k + length s"
  by (induction s k acc rule: hex_prefix.induct) (auto split: option.splits)

text \<open>
  The loop of \<^verbatim>\<open>parseIPv6\<close>: \<open>b\<close> are the bytes so far, \<open>e\<close> the position of the ellipsis. It returns the
  bytes, the position of the ellipsis and the unread rest.
\<close>

function ipv6_loop :: "string \<Rightarrow> u8 list \<Rightarrow> nat option \<Rightarrow> (u8 list \<times> nat option \<times> string) option" where
  "ipv6_loop s b e =
     (if 16 \<le> length b then Some (b, e, s)
      else
        case hex_prefix s 0 0 of (off, acc, s1) \<Rightarrow>
          if off = 0 \<or> 4 < off then None
          else if s1 \<noteq> [] \<and> hd s1 = CHR ''.'' then
            (if (e = None \<and> length b \<noteq> 12) \<or> 16 < length b + 4 then None
             else case parseIPv4Fields s of None \<Rightarrow> None | Some f \<Rightarrow> Some (b @ f, e, []))
          else
            let b1 = b @ [of_nat (acc div 256), of_nat (acc mod 256)] in
            (case s1 of
               [] \<Rightarrow> Some (b1, e, [])
             | c # s2 \<Rightarrow>
                 if c \<noteq> CHR '':'' \<or> s2 = [] then None
                 else if hd s2 = CHR '':'' then
                   (if e \<noteq> None then None
                    else if tl s2 = [] then Some (b1, Some (length b1), [])
                    else ipv6_loop (tl s2) b1 (Some (length b1)))
                 else ipv6_loop s2 b1 e))"
  by pat_completeness auto
termination
  by (relation "measure (\<lambda>(s, b, e). 16 - length b)") auto

declare ipv6_loop.simps [simp del]

definition parseIPv6 :: "string \<Rightarrow> u8 list option" where
  "parseIPv6 s =
     (let start = take 2 s = ''::'';
          s' = (if start then drop 2 s else s)
      in if start \<and> s' = [] then Some (replicate 16 0)
         else
           case ipv6_loop s' [] (if start then Some 0 else None) of
             None \<Rightarrow> None
           | Some (b, e, rest) \<Rightarrow>
               if rest \<noteq> [] then None
               else if length b < 16 then
                 (case e of None \<Rightarrow> None
                  | Some i \<Rightarrow> Some (take i b @ replicate (16 - length b) 0 @ drop i b))
               else if e \<noteq> None then None else Some b)"

text \<open>
  \<^verbatim>\<open>netip.ParseAddr\<close> for addresses without a zone: the address as four or sixteen bytes. The callers
  below refuse a zone, so a string with \<^verbatim>\<open>%\<close> in it is refused here.
\<close>

definition ParseAddr :: "string \<Rightarrow> u8 list option" where
  "ParseAddr s =
     (if CHR ''%'' \<in> set s then None
      else case dropWhile (\<lambda>c. c \<noteq> CHR ''.'' \<and> c \<noteq> CHR '':'') s of
             [] \<Rightarrow> None
           | c # _ \<Rightarrow> if c = CHR ''.'' then parseIPv4Fields s else parseIPv6 s)"

definition ParseIP :: "string \<Rightarrow> IP" where
  "ParseIP s = (case ParseAddr s of None \<Rightarrow> [] | Some b \<Rightarrow> To16 b)"

definition cut :: "char \<Rightarrow> string \<Rightarrow> (string \<times> string) option" where
  "cut d s = (if d \<in> set s then Some (takeWhile (\<lambda>c. c \<noteq> d) s, tl (dropWhile (\<lambda>c. c \<noteq> d) s)) else None)"

definition ParseCIDR :: "string \<Rightarrow> (IP \<times> IPNet) option" where
  "ParseCIDR s =
     (case cut CHR ''/'' s of
        None \<Rightarrow> None
      | Some (addr, m) \<Rightarrow>
          (case ParseAddr addr of
             None \<Rightarrow> None
           | Some b \<Rightarrow>
               (if \<not> all_digits m \<or> 8 * length b < digits_val m then None
                else let mm = CIDRMask (int (digits_val m)) (int (8 * length b))
                     in Some (To16 b, \<lparr>n_IP = Mask (To16 b) mm, n_Mask = mm\<rparr>))))"

section \<open>Host and port\<close>

text \<open>\<^verbatim>\<open>net.SplitHostPort\<close>.\<close>

definition last_index :: "char \<Rightarrow> string \<Rightarrow> nat option" where
  "last_index d s = (if d \<in> set s then Some (length s - 1 - length (takeWhile (\<lambda>c. c \<noteq> d) (rev s))) else None)"

definition SplitHostPort :: "string \<Rightarrow> (string \<times> string) option" where
  "SplitHostPort s =
     (case last_index CHR '':'' s of
        None \<Rightarrow> None
      | Some i \<Rightarrow>
          if hd s = CHR ''['' then
            (let e = length (takeWhile (\<lambda>c. c \<noteq> CHR '']'') s) in
             if CHR '']'' \<notin> set s \<or> e + 1 \<noteq> i then None
             else if CHR ''['' \<in> set (drop 1 s) \<or> CHR '']'' \<in> set (drop (e + 1) s) then None
             else Some (drop 1 (take e s), drop (i + 1) s))
          else if CHR '':'' \<in> set (take i s) then None
          else if CHR ''['' \<in> set s \<or> CHR '']'' \<in> set s then None
          else Some (take i s, drop (i + 1) s))"

end
