(* ===== verification/IpDB.thy ===== *)
theory IpDB
  imports Loaders NetParse "HOL-Library.Code_Target_Nat"
begin

text \<open>
  The databases that match IP addresses: the bit trie of \<^verbatim>\<open>ip-blocklist-trie.go\<close>, the network lists of
  \<^verbatim>\<open>cidr-db.go\<close>, the location and ASN lists of \<^verbatim>\<open>geoip-db.go\<close> and \<^verbatim>\<open>asn-db.go\<close> over a MaxMind file, whose
  reader is a parameter, and their combination \<^verbatim>\<open>ip-db-multi.go\<close>. An index out of range is \<^const>\<open>None\<close>.
\<close>

record BlocklistMatch =
  bm_List :: string
  bm_Rule :: string

definition GetList :: "BlocklistMatch option \<Rightarrow> string" where
  "GetList m = (case m of None \<Rightarrow> ''none'' | Some m \<Rightarrow> bm_List m)"

definition GetRule :: "BlocklistMatch option \<Rightarrow> string" where
  "GetRule m = (case m of None \<Rightarrow> ''none'' | Some m \<Rightarrow> bm_Rule m)"

section \<open>The trie\<close>

datatype ipBlocklistNode =
  IPNode (ip_left: "ipBlocklistNode option") (ip_right: "ipBlocklistNode option") (ip_leaf: bool)

abbreviation new_ipBlocklistNode :: ipBlocklistNode where
  "new_ipBlocklistNode \<equiv> IPNode None None False"

text \<open>The root of a trie, nil in a new one.\<close>

type_synonym ipBlocklistTrie = "ipBlocklistNode option"

definition bitMask :: "u8 list" where
  "bitMask = [128, 64, 32, 16, 8, 4, 2, 1]"

definition ip_bit :: "IP \<Rightarrow> nat \<Rightarrow> nat option" where
  "ip_bit ip n =
     (let byteIndex = n div 8; bitIndex = n mod 8
      in if length ip \<le> byteIndex then None
         else Some (if ip ! byteIndex AND bitMask ! bitIndex = 0 then 0 else 1))"

function ip_add_loop :: "IP \<Rightarrow> nat \<Rightarrow> nat \<Rightarrow> ipBlocklistNode \<Rightarrow> ipBlocklistNode option" where
  "ip_add_loop ip i prefix p =
     (if prefix \<le> i \<or> ip_leaf p then Some (IPNode None None True)
      else do {
        b \<leftarrow> ip_bit ip i;
        if b = 1 then do {
          n \<leftarrow> ip_add_loop ip (Suc i) prefix (case ip_right p of None \<Rightarrow> new_ipBlocklistNode | Some n \<Rightarrow> n);
          Some (IPNode (ip_left p) (Some n) (ip_leaf p))
        }
        else do {
          n \<leftarrow> ip_add_loop ip (Suc i) prefix (case ip_left p of None \<Rightarrow> new_ipBlocklistNode | Some n \<Rightarrow> n);
          Some (IPNode (Some n) (ip_right p) (ip_leaf p))
        }
      })"
  by pat_completeness auto
termination
  by (relation "measure (\<lambda>(ip, i, prefix, p). prefix - i)") auto

declare ip_add_loop.simps [simp del]

definition ip_trie_add :: "ipBlocklistTrie \<Rightarrow> IPNet \<Rightarrow> ipBlocklistTrie option" where
  "ip_trie_add t n =
     map_option Some
       (ip_add_loop (n_IP n) 0 (fst (MaskSize (n_Mask n))) (case t of None \<Rightarrow> new_ipBlocklistNode | Some p \<Rightarrow> p))"

definition ruleString :: "IP \<Rightarrow> nat \<Rightarrow> string" where
  "ruleString ip maskBits =
     (let sz = (if To4 ip = [] then 128 else 32); m = CIDRMask (int maskBits) sz
      in IPNet_String \<lparr>n_IP = Mask ip m, n_Mask = m\<rparr>)"

function hasIP_loop :: "IP \<Rightarrow> nat \<Rightarrow> nat \<Rightarrow> ipBlocklistNode \<Rightarrow> (string \<times> bool) option" where
  "hasIP_loop ip i sz p =
     (if sz \<le> i then Some (ruleString ip sz, True)
      else if ip_leaf p then Some (ruleString ip i, True)
      else do {
        b \<leftarrow> ip_bit ip i;
        (case (if b = 1 then ip_right p else ip_left p) of
           None \<Rightarrow> Some ([], False)
         | Some n \<Rightarrow> hasIP_loop ip (Suc i) sz n)
      })"
  by pat_completeness auto
termination
  by (relation "measure (\<lambda>(ip, i, sz, p). sz - i)") auto

declare hasIP_loop.simps [simp del]

definition hasIP :: "ipBlocklistTrie \<Rightarrow> IP \<Rightarrow> (string \<times> bool) option" where
  "hasIP t ip =
     (case t of
        None \<Rightarrow> Some ([], False)
      | Some p \<Rightarrow> if To4 ip = [] then hasIP_loop ip 0 128 p else hasIP_loop (To4 ip) 0 32 p)"

section \<open>Lists of networks\<close>

record CidrDB =
  cd_name :: string
  cd_ip4 :: ipBlocklistTrie
  cd_ip6 :: ipBlocklistTrie
  cd_loader :: BlocklistLoader

text \<open>A rule with a mask suffix appended when it has none.\<close>

definition cidr_suffix :: "string \<Rightarrow> string" where
  "cidr_suffix r =
     (if CHR ''/'' \<in> set r then r
      else if CHR ''.'' \<in> set r then r @ ''/32''
      else if CHR '':'' \<in> set r then r @ ''/128'' else r)"

definition cidr_rule :: "string \<Rightarrow> ipBlocklistTrie \<times> ipBlocklistTrie \<Rightarrow> go_error option \<times> ipBlocklistTrie \<times> ipBlocklistTrie" where
  "cidr_rule r0 tries =
     (let r = TrimSpace r0 in
      if HasPrefix r ''#'' \<or> r = [] then (None, tries)
      else case ParseCIDR (cidr_suffix r) of
             None \<Rightarrow> (Some (ErrInvalidRule r), tries)
           | Some (ip, n) \<Rightarrow>
               if To4 ip = [] then
                 (case ip_trie_add (snd tries) n of None \<Rightarrow> (Some Panic, tries) | Some t \<Rightarrow> (None, fst tries, t))
               else
                 (case ip_trie_add (fst tries) n of None \<Rightarrow> (Some Panic, tries) | Some t \<Rightarrow> (None, t, snd tries)))"

text \<open>The new database or the error, the loader after the load, and the world.\<close>

definition NewCidrDB :: "world \<Rightarrow> string \<Rightarrow> BlocklistLoader \<Rightarrow> (go_error + CidrDB) \<times> BlocklistLoader \<times> world" where
  "NewCidrDB w name loader =
     (case Load w loader (\<lambda>_. (None, None)) cidr_rule (None, None) of
        ((Some err, _), l, w') \<Rightarrow> (Inl err, l, w')
      | ((None, ip4, ip6), l, w') \<Rightarrow> (Inr \<lparr>cd_name = name, cd_ip4 = ip4, cd_ip6 = ip6, cd_loader = l\<rparr>, l, w'))"

type_synonym ip_match = "(BlocklistMatch option \<times> bool) option"

definition CidrDB_Match :: "CidrDB \<Rightarrow> IP \<Rightarrow> ip_match" where
  "CidrDB_Match m ip =
     (if ip = [] then Some (None, False)
      else map_option (\<lambda>(rule, ok). (Some \<lparr>bm_List = cd_name m, bm_Rule = rule\<rparr>, ok))
             (hasIP (if To4 ip = [] then cd_ip6 m else cd_ip4 m) ip))"

section \<open>Location and ASN lists\<close>

text \<open>
  A MaxMind reader: the GeoNames identifiers of an address (continent, country, city, subdivisions)
  and its ASN, or an error. \<open>mm_Open\<close> below is \<^verbatim>\<open>maxminddb.Open\<close>.
\<close>

record maxmind =
  mm_geo :: "IP \<Rightarrow> (u64 \<times> u64 \<times> u64 \<times> u64 list) option"
  mm_asn :: "IP \<Rightarrow> u64 option"

record LocationDB =
  lo_name :: string
  lo_loader :: BlocklistLoader
  lo_geoDB :: maxmind
  lo_geoDBFile :: string
  lo_db :: "u64 list"

definition location_rule :: "string \<Rightarrow> u64 list \<Rightarrow> go_error option \<times> u64 list" where
  "location_rule r0 db =
     (let r = TrimSpace r0 in
      if HasPrefix r ''#'' \<or> r = [] then (None, db)
      else let r' = TrimSpace (hd (Split CHR ''#'' r))
           in case ParseUint 64 r' of
                None \<Rightarrow> (Some (ErrInvalidRule r'), db)
              | Some v \<Rightarrow> (None, List.insert (of_nat v) db))"

definition NewLocationDB ::
  "string \<Rightarrow> (string \<Rightarrow> maxmind option) \<Rightarrow> world \<Rightarrow> string \<Rightarrow> BlocklistLoader \<Rightarrow> string \<Rightarrow>
   (go_error + LocationDB) \<times> BlocklistLoader \<times> world" where
  "NewLocationDB default_file mm_Open w name loader geoDBFile =
     (let f = (if geoDBFile = [] then default_file else geoDBFile) in
      case mm_Open f of
        None \<Rightarrow> (Inl (ErrOther ''open''), loader, w)
      | Some geoDB \<Rightarrow>
          (case Load w loader (\<lambda>_. []) location_rule [] of
             ((Some err, _), l, w') \<Rightarrow> (Inl err, l, w')
           | ((None, db), l, w') \<Rightarrow>
               (Inr \<lparr>lo_name = name, lo_loader = l, lo_geoDB = geoDB, lo_geoDBFile = f, lo_db = db\<rparr>, l, w')))"

definition NewGeoIPDB where
  "NewGeoIPDB = NewLocationDB ''/usr/share/GeoIP/GeoLite2-City.mmdb''"

definition NewASNDB where
  "NewASNDB = NewLocationDB ''/usr/share/GeoIP/GeoLite2-ASN.mmdb''"

definition GeoIPDB_Match :: "LocationDB \<Rightarrow> IP \<Rightarrow> ip_match" where
  "GeoIPDB_Match m ip =
     (case mm_geo (lo_geoDB m) ip of
        None \<Rightarrow> Some (None, False)
      | Some (continent, country, city, subdivisions) \<Rightarrow>
          (case filter (\<lambda>i. i \<in> set (lo_db m)) ([continent, country, city] @ subdivisions) of
             [] \<Rightarrow> Some (None, False)
           | i # _ \<Rightarrow> Some (Some \<lparr>bm_List = lo_name m, bm_Rule = Itoa (unat i)\<rparr>, True)))"

definition ASNDB_Match :: "LocationDB \<Rightarrow> IP \<Rightarrow> ip_match" where
  "ASNDB_Match m ip =
     (case mm_asn (lo_geoDB m) ip of
        None \<Rightarrow> Some (None, False)
      | Some asn \<Rightarrow>
          if asn \<in> set (lo_db m) then Some (Some \<lparr>bm_List = lo_name m, bm_Rule = Itoa (unat asn)\<rparr>, True)
          else Some (None, False))"

section \<open>The interface\<close>

datatype IPBlocklistDB =
    IPCidr CidrDB
  | IPGeo LocationDB
  | IPASN LocationDB
  | IPMulti "IPBlocklistDB list"

fun multi_match :: "('db \<Rightarrow> ('m option \<times> bool) option) \<Rightarrow> 'db list \<Rightarrow> ('m option \<times> bool) option" where
  "multi_match match [] = Some (None, False)"
| "multi_match match (db # dbs) =
     (case match db of
        None \<Rightarrow> None
      | Some (m, ok) \<Rightarrow> if ok then Some (m, ok) else multi_match match dbs)"

lemma multi_match_cong [fundef_cong]:
  "dbs = dbs' \<Longrightarrow> (\<And>db. db \<in> set dbs' \<Longrightarrow> f db = g db) \<Longrightarrow> multi_match f dbs = multi_match g dbs'"
  by (induction dbs arbitrary: dbs') (auto split: option.splits)

fun IPDB_Match :: "IPBlocklistDB \<Rightarrow> IP \<Rightarrow> ip_match" where
  "IPDB_Match (IPCidr m) ip = CidrDB_Match m ip"
| "IPDB_Match (IPGeo m) ip = GeoIPDB_Match m ip"
| "IPDB_Match (IPASN m) ip = ASNDB_Match m ip"
| "IPDB_Match (IPMulti dbs) ip = multi_match (\<lambda>db. IPDB_Match db ip) dbs"

text \<open>
  \<^verbatim>\<open>Reload\<close> returns the new instance (nil when there is none) and an error; the loaders, which the old
  instance shares with the new one, have moved on, so the old instance is returned with its loader
  updated.
\<close>

definition CidrDB_Reload ::
  "world \<Rightarrow> CidrDB \<Rightarrow> (CidrDB option \<times> go_error option) \<times> CidrDB \<times> world" where
  "CidrDB_Reload w m =
     (case NewCidrDB w (cd_name m) (cd_loader m) of
        (Inl err, l, w') \<Rightarrow> ((Some (m\<lparr>cd_loader := l\<rparr>), Some err), m\<lparr>cd_loader := l\<rparr>, w')
      | (Inr db, l, w') \<Rightarrow> ((Some db, None), m\<lparr>cd_loader := l\<rparr>, w'))"

definition LocationDB_Reload ::
  "(world \<Rightarrow> string \<Rightarrow> BlocklistLoader \<Rightarrow> string \<Rightarrow> (go_error + LocationDB) \<times> BlocklistLoader \<times> world) \<Rightarrow>
   (string \<Rightarrow> maxmind option) \<Rightarrow> world \<Rightarrow> LocationDB \<Rightarrow>
   (LocationDB option \<times> go_error option) \<times> LocationDB \<times> world" where
  "LocationDB_Reload new mm_Open w m =
     (case new w (lo_name m) (lo_loader m) (lo_geoDBFile m) of
        (Inl err, l, w') \<Rightarrow>
          (case mm_Open (lo_geoDBFile m) of
             None \<Rightarrow> ((None, Some err), m\<lparr>lo_loader := l\<rparr>, w')
           | Some geoDB \<Rightarrow> ((Some (m\<lparr>lo_loader := l, lo_geoDB := geoDB\<rparr>), Some err), m\<lparr>lo_loader := l\<rparr>, w'))
      | (Inr db, l, w') \<Rightarrow> ((Some db, None), m\<lparr>lo_loader := l\<rparr>, w'))"

text \<open>The loop of \<^verbatim>\<open>MultiIPDB.Reload\<close>: the new databases, or the error of one that has nothing to put in its place.\<close>

fun reload_dbs ::
  "(world \<Rightarrow> 'db \<Rightarrow> ('db option \<times> go_error option) \<times> 'db \<times> world) \<Rightarrow> world \<Rightarrow> 'db list \<Rightarrow>
   (go_error + 'db list) \<times> 'db list \<times> world" where
  "reload_dbs reload w [] = (Inr [], [], w)"
| "reload_dbs reload w (db # dbs) =
     (case reload w db of
        ((None, err), db', w') \<Rightarrow> (Inl (case err of None \<Rightarrow> Panic | Some e \<Rightarrow> e), db' # dbs, w')
      | ((Some n, err), db', w') \<Rightarrow>
          (case reload_dbs reload w' dbs of (r, olds, w'') \<Rightarrow> (map_sum id ((#) n) r, db' # olds, w'')))"

lemma reload_dbs_cong [fundef_cong]:
  "w = w' \<Longrightarrow> dbs = dbs' \<Longrightarrow> (\<And>db w. db \<in> set dbs' \<Longrightarrow> f w db = g w db) \<Longrightarrow> reload_dbs f w dbs = reload_dbs g w' dbs'"
  by (induction dbs arbitrary: w w' dbs') (auto split: prod.splits option.splits)

fun IPDB_Reload ::
  "(string \<Rightarrow> maxmind option) \<Rightarrow> world \<Rightarrow> IPBlocklistDB \<Rightarrow>
   (IPBlocklistDB option \<times> go_error option) \<times> IPBlocklistDB \<times> world" where
  "IPDB_Reload mm_Open w (IPCidr m) =
     (case CidrDB_Reload w m of ((n, err), m', w') \<Rightarrow> ((map_option IPCidr n, err), IPCidr m', w'))"
| "IPDB_Reload mm_Open w (IPGeo m) =
     (case LocationDB_Reload (NewGeoIPDB mm_Open) mm_Open w m of
        ((n, err), m', w') \<Rightarrow> ((map_option IPGeo n, err), IPGeo m', w'))"
| "IPDB_Reload mm_Open w (IPASN m) =
     (case LocationDB_Reload (NewASNDB mm_Open) mm_Open w m of
        ((n, err), m', w') \<Rightarrow> ((map_option IPASN n, err), IPASN m', w'))"
| "IPDB_Reload mm_Open w (IPMulti dbs) =
     (case reload_dbs (IPDB_Reload mm_Open) w dbs of
        (Inl err, olds, w') \<Rightarrow> ((None, Some err), IPMulti olds, w')
      | (Inr news, olds, w') \<Rightarrow> ((Some (IPMulti news), None), IPMulti olds, w'))"

text \<open>One round of \<^verbatim>\<open>refreshDatabase\<close>.\<close>

definition refreshDatabase :: "(world \<Rightarrow> 'db \<Rightarrow> ('db option \<times> go_error option) \<times> 'db \<times> world) \<Rightarrow> world \<Rightarrow> 'db \<Rightarrow> 'db \<times> world" where
  "refreshDatabase reload w db =
     (case reload w db of
        ((Some n, None), _, w') \<Rightarrow> (n, w')
      | (_, old, w') \<Rightarrow> (old, w'))"

section \<open>The trie as a set of prefixes\<close>

lemma bitMask_nth: "k < 8 \<Longrightarrow> (w AND bitMask ! k = 0) \<longleftrightarrow> \<not> bit w (7 - k)" for w :: u8
proof -
  assume "k < 8"
  then consider "k = 0" | "k = 1" | "k = 2" | "k = 3" | "k = 4" | "k = 5" | "k = 6" | "k = 7" by linarith
  then have "bitMask ! k = push_bit (7 - k) 1" by cases (simp_all add: bitMask_def)
  then show ?thesis
    by (simp add: and_exp_eq_0_iff_not_bit push_bit_eq_mult and.commute flip: exp_eq_0_imp_not_bit)
qed

lemma ip_bit_bits: "n < 8 * length ip \<Longrightarrow> ip_bit ip n = Some (if ip_bits ip ! n then 1 else 0)"
  by (simp add: ip_bit_def Let_def nth_ip_bits bitMask_nth less_mult_imp_div_less mult.commute)

fun node_add :: "bool list \<Rightarrow> ipBlocklistNode \<Rightarrow> ipBlocklistNode" where
  "node_add [] p = IPNode None None True"
| "node_add (b # bs) p =
     (if ip_leaf p then IPNode None None True
      else if b then IPNode (ip_left p)
                       (Some (node_add bs (case ip_right p of None \<Rightarrow> new_ipBlocklistNode | Some n \<Rightarrow> n))) False
      else IPNode (Some (node_add bs (case ip_left p of None \<Rightarrow> new_ipBlocklistNode | Some n \<Rightarrow> n))) (ip_right p) False)"

text \<open>The length of the shortest prefix in the trie that covers a bit string.\<close>

fun covered :: "ipBlocklistNode \<Rightarrow> bool list \<Rightarrow> nat option" where
  "covered p [] = (if ip_leaf p then Some 0 else None)"
| "covered p (b # bs) =
     (if ip_leaf p then Some 0
      else case (if b then ip_right p else ip_left p) of
             None \<Rightarrow> None
           | Some n \<Rightarrow> map_option Suc (covered n bs))"

text \<open>Tries of depth at most \<open>k\<close> whose nodes at depth \<open>k\<close> are leaves.\<close>

fun trie_ok :: "nat \<Rightarrow> ipBlocklistNode \<Rightarrow> bool" where
  "trie_ok 0 p \<longleftrightarrow> ip_leaf p"
| "trie_ok (Suc k) p \<longleftrightarrow>
     (\<forall>n. ip_left p = Some n \<longrightarrow> trie_ok k n) \<and> (\<forall>n. ip_right p = Some n \<longrightarrow> trie_ok k n)"

abbreviation starts :: "bool list \<Rightarrow> bool list \<Rightarrow> bool" where
  "starts ps bs \<equiv> take (length ps) bs = ps"

lemma covered_new [simp]: "covered new_ipBlocklistNode bs = None"
  by (cases bs) auto

lemma covered_node_add:
  "length ps \<le> length bs \<Longrightarrow> covered (node_add ps p) bs =
     (if starts ps bs then Some (case covered p bs of None \<Rightarrow> length ps | Some d \<Rightarrow> min d (length ps))
      else covered p bs)"
proof (induction ps p arbitrary: bs rule: node_add.induct)
  case (1 p)
  then show ?case by (cases bs) (auto split: option.splits)
next
  case (2 b ps p)
  then obtain c cs where bs: "bs = c # cs" by (cases bs) auto
  with 2 show ?case by (auto split: option.splits)
qed

lemma trie_ok_node_add:
  "trie_ok k p \<or> p = new_ipBlocklistNode \<Longrightarrow> length ps \<le> k \<Longrightarrow> trie_ok k (node_add ps p)"
proof (induction ps p arbitrary: k rule: node_add.induct)
  case (1 p)
  then show ?case by (cases k) auto
next
  case (2 b ps p)
  then obtain k' where k: "k = Suc k'" "length ps \<le> k'" by (cases k) auto
  with 2 show ?case by (cases b) (auto split: option.splits)
qed

lemma ip_add_loop_bits:
  "prefix \<le> 8 * length ip \<Longrightarrow>
   ip_add_loop ip i prefix p = Some (node_add (drop i (take prefix (ip_bits ip))) p)"
proof (induction ip i prefix p rule: ip_add_loop.induct)
  case (1 ip i prefix p)
  show ?case
  proof (cases "prefix \<le> i \<or> ip_leaf p")
    case True
    then show ?thesis
      by (cases "drop i (take prefix (ip_bits ip))") (auto simp: ip_add_loop.simps [of ip i])
  next
    case False
    with "1.prems" have i: "i < length (take prefix (ip_bits ip))" "i < 8 * length ip" by simp_all
    have d: "drop i (take prefix (ip_bits ip)) = ip_bits ip ! i # drop (Suc i) (take prefix (ip_bits ip))"
      using Cons_nth_drop_Suc [OF i(1)] False by simp
    from False "1.IH"(1,2) "1.prems" show ?thesis
      by (subst ip_add_loop.simps) (auto simp: d ip_bit_bits [OF i(2)])
  qed
qed

lemma hasIP_loop_bits:
  "sz \<le> 8 * length ip \<Longrightarrow> i \<le> sz \<Longrightarrow> trie_ok (sz - i) p \<Longrightarrow>
   hasIP_loop ip i sz p = Some (case covered p (drop i (take sz (ip_bits ip))) of
       None \<Rightarrow> ([], False) | Some d \<Rightarrow> (ruleString ip (i + d), True))"
proof (induction ip i sz p rule: hasIP_loop.induct)
  case (1 ip i sz p)
  show ?case
  proof (cases "sz \<le> i")
    case True
    with "1.prems" show ?thesis by (subst hasIP_loop.simps) simp
  next
    case False
    with "1.prems" have i: "i < length (take sz (ip_bits ip))" "i < 8 * length ip" by simp_all
    have d: "drop i (take sz (ip_bits ip)) = ip_bits ip ! i # drop (Suc i) (take sz (ip_bits ip))"
      using Cons_nth_drop_Suc [OF i(1)] False by simp
    have "sz - i = Suc (sz - Suc i)" using False by simp
    with "1.prems"(3) have ok: "\<forall>n. ip_left p = Some n \<longrightarrow> trie_ok (sz - Suc i) n" "\<forall>n. ip_right p = Some n \<longrightarrow> trie_ok (sz - Suc i) n"
      by simp_all
    show ?thesis
    proof (cases "ip_leaf p")
      case True
      with False show ?thesis by (simp add: hasIP_loop.simps [of ip i] d)
    next
      case False
      with \<open>\<not> sz \<le> i\<close> ok "1.IH" "1.prems" show ?thesis
        by (subst hasIP_loop.simps) (auto simp: d ip_bit_bits [OF i(2)] split: option.splits)
    qed
  qed
qed

section \<open>Networks and prefixes\<close>

text \<open>Networks of \<open>w\<close> bytes with a canonical mask, and the address in the form the lookups use.\<close>

definition net_ok :: "nat \<Rightarrow> IPNet \<Rightarrow> bool" where
  "net_ok w n \<longleftrightarrow>
     length (n_IP n) = w \<and> (\<exists>p \<le> 8 * w. n_Mask n = mask_bytes w p) \<and> (w = 16 \<longrightarrow> To4 (n_IP n) = [])"

definition norm_ip :: "IP \<Rightarrow> IP" where
  "norm_ip ip = (if To4 ip = [] then ip else To4 ip)"

definition prefixLen :: "IPNet \<Rightarrow> nat" where
  "prefixLen n = fst (MaskSize (n_Mask n))"

definition net_bits :: "IPNet \<Rightarrow> bool list" where
  "net_bits n = take (prefixLen n) (ip_bits (n_IP n))"

lemma net_ok_bits:
  assumes "net_ok w n" "w = 4 \<or> w = 16"
  shows "prefixLen n \<le> 8 * w" "length (net_bits n) = prefixLen n" "n_Mask n = mask_bytes w (prefixLen n)"
  using assms by (auto simp: net_ok_def net_bits_def prefixLen_def MaskSize_mask_bytes)

lemma Contains_iff_bits:
  assumes "net_ok w n" "w = 4 \<or> w = 16" "length (norm_ip ip) = w"
  shows "Contains n ip \<longleftrightarrow> starts (net_bits n) (ip_bits (norm_ip ip))"
proof -
  have "networkNumberAndMask n = (n_IP n, n_Mask n)"
    using assms(1,2) net_ok_bits(3) [OF assms(1,2)]
    by (auto simp: networkNumberAndMask_def net_ok_def Let_def)
  then have "Contains n ip \<longleftrightarrow> map2 (AND) (n_IP n) (n_Mask n) = map2 (AND) (norm_ip ip) (n_Mask n)"
    using assms(1,3) by (simp add: Contains_def net_ok_def norm_ip_def Let_def)
  also have "\<dots> \<longleftrightarrow> take (prefixLen n) (ip_bits (n_IP n)) = take (prefixLen n) (ip_bits (norm_ip ip))"
    using assms net_ok_bits(3) [OF assms(1,2)] map2_mask_bytes_eq_iff [of "n_IP n" w "norm_ip ip" "prefixLen n"]
    by (simp add: net_ok_def)
  also have "\<dots> \<longleftrightarrow> starts (net_bits n) (ip_bits (norm_ip ip))"
    using net_ok_bits(2) [OF assms(1,2)] by (auto simp: net_bits_def)
  finally show ?thesis .
qed

text \<open>Which prefix of a set is the shortest one that covers a bit string.\<close>

definition shortest :: "bool list set \<Rightarrow> bool list \<Rightarrow> nat option \<Rightarrow> bool" where
  "shortest S bs r \<longleftrightarrow>
     (case r of
        None \<Rightarrow> \<forall>ps \<in> S. \<not> starts ps bs
      | Some d \<Rightarrow> (\<exists>ps \<in> S. starts ps bs \<and> length ps = d) \<and> (\<forall>ps \<in> S. starts ps bs \<longrightarrow> d \<le> length ps))"

lemma shortest_insert:
  "shortest S bs r \<Longrightarrow> shortest (insert ps S) bs
     (if starts ps bs then Some (case r of None \<Rightarrow> length ps | Some d \<Rightarrow> min d (length ps)) else r)"
  by (cases r) (auto simp: shortest_def min_def)

text \<open>A trie of \<open>w\<close> bytes that holds the prefixes \<open>S\<close>.\<close>

definition trie_holds :: "nat \<Rightarrow> ipBlocklistTrie \<Rightarrow> bool list set \<Rightarrow> bool" where
  "trie_holds w t S \<longleftrightarrow>
     (case t of
        None \<Rightarrow> S = {}
      | Some p \<Rightarrow> trie_ok (8 * w) p \<and> (\<forall>bs. length bs = 8 * w \<longrightarrow> shortest S bs (covered p bs)))"

lemma ip_trie_add_holds:
  assumes "trie_holds w t S" "net_ok w n" "w = 4 \<or> w = 16"
  shows "\<exists>t'. ip_trie_add t n = Some t' \<and> trie_holds w t' (insert (net_bits n) S)"
proof -
  let ?p = "case t of None \<Rightarrow> new_ipBlocklistNode | Some p \<Rightarrow> p"
  have new: "trie_ok (8 * w) new_ipBlocklistNode" using assms(3) by (cases "8 * w") auto
  have p: "trie_ok (8 * w) ?p" "\<And>bs. length bs = 8 * w \<Longrightarrow> shortest S bs (covered ?p bs)"
    using assms(1) new by (auto simp: trie_holds_def shortest_def split: option.splits)
  note bits = net_ok_bits [OF assms(2,3)]
  have "ip_trie_add t n = Some (Some (node_add (net_bits n) ?p))"
    using assms(2) bits(1) by (simp add: ip_trie_add_def ip_add_loop_bits net_ok_def net_bits_def flip: prefixLen_def)
  moreover have "shortest (insert (net_bits n) S) bs (covered (node_add (net_bits n) ?p) bs)" if "length bs = 8 * w" for bs
    using shortest_insert [OF p(2) [OF that], of "net_bits n"] covered_node_add [of "net_bits n" bs ?p] bits(1,2) that
    by simp
  moreover have "trie_ok (8 * w) (node_add (net_bits n) ?p)"
    using p(1) bits(1,2) by (intro trie_ok_node_add) simp_all
  ultimately show ?thesis by (simp add: trie_holds_def)
qed

lemma hasIP_holds:
  assumes "trie_holds w t (net_bits ` N)" "\<forall>n \<in> N. net_ok w n" "w = 4 \<or> w = 16" "length (norm_ip ip) = w"
  shows "\<exists>rule ok. hasIP t ip = Some (rule, ok) \<and> (ok \<longleftrightarrow> (\<exists>n \<in> N. Contains n ip)) \<and>
    (ok \<longrightarrow> (\<exists>n \<in> N. Contains n ip \<and> rule = ruleString (norm_ip ip) (prefixLen n) \<and>
       (\<forall>n' \<in> N. Contains n' ip \<longrightarrow> prefixLen n \<le> prefixLen n')))"
proof (cases t)
  case None
  with assms(1) have "N = {}" by (simp add: trie_holds_def)
  with None show ?thesis by (intro exI [of _ "[]"] exI [of _ False]) (simp add: hasIP_def)
next
  case (Some p)
  let ?bs = "ip_bits (norm_ip ip)"
  have c: "Contains n ip \<longleftrightarrow> starts (net_bits n) ?bs" "length (net_bits n) = prefixLen n" if "n \<in> N" for n
    using that assms Contains_iff_bits net_ok_bits(2) by blast+
  have sh: "shortest (net_bits ` N) ?bs (covered p ?bs)" and ok: "trie_ok (8 * w) p"
    using assms(1,4) Some by (simp_all add: trie_holds_def)
  have "hasIP t ip = hasIP_loop (norm_ip ip) 0 (8 * w) p"
    using Some assms(3,4) by (auto simp: hasIP_def norm_ip_def To4_eq_Nil_length split: if_splits)
  then have "hasIP t ip = Some (case covered p ?bs of None \<Rightarrow> ([], False) | Some d \<Rightarrow> (ruleString (norm_ip ip) d, True))"
    using hasIP_loop_bits [of "8 * w" "norm_ip ip" 0 p] ok assms(4) by (simp split: option.splits)
  with sh c show ?thesis by (cases "covered p ?bs") (auto simp: shortest_def)
qed

section \<open>Parsed networks\<close>

lemma parseIPv4Fields_length: "parseIPv4Fields s = Some b \<Longrightarrow> length b = 4"
  by (auto simp: parseIPv4Fields_def Let_def split: if_splits)

lemma ipv6_loop_length:
  "ipv6_loop s b e = Some (b', e', rest) \<Longrightarrow> even (length b) \<Longrightarrow> length b \<le> 16 \<Longrightarrow> length b' \<le> 16"
proof (induction s b e arbitrary: b' e' rest rule: ipv6_loop.induct)
  case (1 s b e)
  show ?case
  proof (cases "16 \<le> length b")
    case True
    with "1.prems" show ?thesis by (subst (asm) ipv6_loop.simps) simp
  next
    case False
    with "1.prems"(2) have "length b + 2 \<le> 16" by (auto elim!: evenE)
    obtain off acc s1 where h: "hex_prefix s 0 0 = (off, acc, s1)" by (metis prod_cases3)
    from "1.prems"(1) False h show ?thesis
      using "1.IH"(1) [OF False h [symmetric] refl] "1.IH"(2) [OF False h [symmetric] refl] \<open>length b + 2 \<le> 16\<close> "1.prems"(2)
      by (subst (asm) ipv6_loop.simps)
         (auto simp: Let_def split: if_splits list.splits option.splits dest: parseIPv4Fields_length)
  qed
qed

lemma ParseAddr_length: "ParseAddr s = Some b \<Longrightarrow> length b = 4 \<or> length b = 16"
  by (auto simp: ParseAddr_def parseIPv6_def Let_def split: if_splits list.splits option.splits
      dest!: parseIPv4Fields_length ipv6_loop_length)

lemma mask_bytes_nth: "k < l \<Longrightarrow> mask_bytes l p ! k = mask_byte (p - 8 * k)"
  by (induction l arbitrary: p k) (auto simp: nth_Cons' less_Suc_eq_0_disj)

lemma mask_byte_255_iff: "mask_byte n = 255 \<longleftrightarrow> 8 \<le> n"
  using byte_ones_mask_byte [of n] by (auto simp: mask_byte_def not_le)

lemma and_255_iff: "v AND m = 255 \<longleftrightarrow> v = 255 \<and> m = 255" "v AND 255 = v" for v m :: u8
proof -
  have e: "(255 :: u8) = - 1" by simp
  show "v AND m = 255 \<longleftrightarrow> v = 255 \<and> m = 255" unfolding e by (rule and_eq_minus_1_iff)
  show "v AND 255 = v" unfolding e by simp
qed

text \<open>Masking does not make an address look like a mapped IPv4 address.\<close>

lemma To4_masked:
  assumes "length b = 16" "To4 b = []"
  shows "To4 (map2 (AND) b (mask_bytes 16 p)) = []"
proof (rule ccontr)
  let ?c = "map2 (AND) b (mask_bytes 16 p)"
  assume "To4 ?c \<noteq> []"
  then have pre: "take 12 ?c = v4InV6Prefix" using assms(1) by (auto simp: To4_def split: if_splits)
  have nth: "?c ! k = b ! k AND mask_byte (p - 8 * k)" if "k < 16" for k
    using that assms(1) by (simp add: mask_bytes_nth)
  have "take 12 ?c ! 11 = ?c ! 11" by (rule nth_take) simp
  then have "?c ! 11 = v4InV6Prefix ! 11" unfolding pre by simp
  then have "b ! 11 AND mask_byte (p - 88) = 255" using nth [of 11] by (simp add: v4InV6Prefix_def nth_append)
  then have "8 \<le> p - 88" by (simp add: and_255_iff mask_byte_255_iff)
  then have "96 \<le> p" by arith
  have "take 12 ?c = take 12 b"
  proof (rule nth_equalityI)
    fix k assume "k < length (take 12 ?c)"
    then have k: "k < 12" by simp
    with \<open>96 \<le> p\<close> have "mask_byte (p - 8 * k) = 255" by (simp add: mask_byte_255_iff)
    then show "take 12 ?c ! k = take 12 b ! k" using k nth [of k] by (simp add: and_255_iff(2))
  qed (use assms(1) in simp)
  with pre assms show False by (simp add: To4_def)
qed

lemma ParseCIDR_net:
  assumes "ParseCIDR s = Some (ip, n)"
  shows "net_ok 4 n \<and> To4 ip \<noteq> [] \<or> net_ok 16 n \<and> To4 ip = [] \<or> length (n_Mask n) = 16 \<and> To4 ip \<noteq> []"
proof -
  obtain addr m b where b0: "ParseAddr addr = Some b" and p: "digits_val m \<le> 8 * length b" and ip: "ip = To16 b"
    and n0: "n = \<lparr>n_IP = Mask (To16 b) (CIDRMask (int (digits_val m)) (int (8 * length b))),
                  n_Mask = CIDRMask (int (digits_val m)) (int (8 * length b))\<rparr>"
    using assms by (auto simp: ParseCIDR_def Let_def not_less split: option.splits if_splits prod.splits)
  define p where "p = digits_val m"
  have b: "length b = 4 \<or> length b = 16" "p \<le> 8 * length b" using ParseAddr_length [OF b0] p by (simp_all add: p_def)
  then have "CIDRMask (int p) (int (8 * length b)) = mask_bytes (length b) p" by (auto simp: CIDRMask_def)
  with n0 have n: "n = \<lparr>n_IP = Mask (To16 b) (mask_bytes (length b) p), n_Mask = mask_bytes (length b) p\<rparr>"
    by (simp add: p_def)
  show ?thesis
  proof (cases "length b = 4")
    case True
    then have "To4 ip \<noteq> []" by (auto simp: ip)
    moreover have "Mask (To16 b) (mask_bytes 4 p) = map2 (AND) b (mask_bytes 4 p)"
      using True by (simp add: Mask_def To16_def Let_def)
    ultimately show ?thesis using True b(2) by (auto simp: net_ok_def n)
  next
    case False
    with b(1) have l: "length b = 16" by simp
    then have "Mask (To16 b) (mask_bytes 16 p) = map2 (AND) b (mask_bytes 16 p)"
      by (simp add: Mask_def To16_def Let_def)
    with l b(2) To4_masked [OF l] show ?thesis
      by (cases "To4 b = []") (auto simp: net_ok_def n ip To16_def)
  qed
qed

section \<open>Correctness of the network lists\<close>

text \<open>The address and network a rule names, nothing for a comment or an empty line.\<close>

definition rule_net :: "string \<Rightarrow> (IP \<times> IPNet) option" where
  "rule_net r0 = (let r = TrimSpace r0 in if HasPrefix r ''#'' \<or> r = [] then None else ParseCIDR (cidr_suffix r))"

text \<open>Rules that write an IPv4 network as IPv4-mapped IPv6 addresses.\<close>

definition mapped_rule :: "string \<Rightarrow> bool" where
  "mapped_rule r \<longleftrightarrow> (case rule_net r of None \<Rightarrow> False | Some (ip, n) \<Rightarrow> To4 ip \<noteq> [] \<and> length (n_Mask n) = 16)"

definition rule_contains :: "string \<Rightarrow> IP \<Rightarrow> bool" where
  "rule_contains r ip \<longleftrightarrow> (case rule_net r of None \<Rightarrow> False | Some (_, n) \<Rightarrow> Contains n ip)"

definition nets :: "nat \<Rightarrow> string list \<Rightarrow> IPNet set" where
  "nets w rules = {n. \<exists>r \<in> set rules. \<exists>ip. rule_net r = Some (ip, n) \<and> net_ok w n}"

lemma net_ok_width: "net_ok w n \<Longrightarrow> length (n_Mask n) = w \<and> length (n_IP n) = w"
  by (auto simp: net_ok_def)

lemma nets_Cons:
  "nets w (rules @ [r]) =
     (case rule_net r of None \<Rightarrow> nets w rules | Some (ip, n) \<Rightarrow> if net_ok w n then insert n (nets w rules) else nets w rules)"
  by (auto simp: nets_def split: option.splits)

lemma rule_net_cases:
  assumes "rule_net r = Some (ip, n)" "\<not> mapped_rule r"
  shows "net_ok 4 n \<and> \<not> net_ok 16 n \<and> To4 ip \<noteq> [] \<or> net_ok 16 n \<and> \<not> net_ok 4 n \<and> To4 ip = []"
proof -
  have "ParseCIDR (cidr_suffix (TrimSpace r)) = Some (ip, n)"
    using assms(1) by (simp add: rule_net_def Let_def split: if_splits)
  from ParseCIDR_net [OF this] assms net_ok_width [of 4 n] net_ok_width [of 16 n] show ?thesis
    by (auto simp: mapped_rule_def)
qed

lemma cidr_rule_holds:
  assumes "cidr_rule r (t4, t6) = (None, t4', t6')" "\<not> mapped_rule r"
    "trie_holds 4 t4 (net_bits ` nets 4 rules)" "trie_holds 16 t6 (net_bits ` nets 16 rules)"
  shows "trie_holds 4 t4' (net_bits ` nets 4 (rules @ [r])) \<and> trie_holds 16 t6' (net_bits ` nets 16 (rules @ [r]))"
proof (cases "rule_net r")
  case None
  then have "t4' = t4" "t6' = t6"
    using assms(1) by (auto simp: cidr_rule_def rule_net_def Let_def split: if_splits)
  with None assms(3,4) show ?thesis by (simp add: nets_Cons)
next
  case (Some p)
  obtain ip n where p: "p = (ip, n)" by fastforce
  have rule: "\<not> (HasPrefix (TrimSpace r) ''#'' \<or> TrimSpace r = [])" "ParseCIDR (cidr_suffix (TrimSpace r)) = Some (ip, n)"
    using Some p by (auto simp: rule_net_def Let_def split: if_splits)
  from rule_net_cases [OF Some [unfolded p] assms(2)] show ?thesis
  proof (elim disjE conjE)
    assume n: "net_ok 4 n" "\<not> net_ok 16 n" "To4 ip \<noteq> []"
    then have "ip_trie_add t4 n = Some t4' \<and> t6' = t6"
      using assms(1) rule by (auto simp: cidr_rule_def Let_def split: option.splits)
    with ip_trie_add_holds [OF assms(3) n(1)] n Some p assms(4) show ?thesis by (simp add: nets_Cons)
  next
    assume n: "net_ok 16 n" "\<not> net_ok 4 n" "To4 ip = []"
    then have "ip_trie_add t6 n = Some t6' \<and> t4' = t4"
      using assms(1) rule by (auto simp: cidr_rule_def Let_def split: option.splits)
    with ip_trie_add_holds [OF assms(4) n(1)] n Some p assms(3) show ?thesis by (simp add: nets_Cons)
  qed
qed

lemma feed_cidr_holds:
  "feed cidr_rule rules (t4, t6) = Some (t4', t6') \<Longrightarrow> (\<forall>r \<in> set rules. \<not> mapped_rule r) \<Longrightarrow>
   trie_holds 4 t4 (net_bits ` nets 4 done) \<Longrightarrow> trie_holds 16 t6 (net_bits ` nets 16 done) \<Longrightarrow>
   trie_holds 4 t4' (net_bits ` nets 4 (done @ rules)) \<and> trie_holds 16 t6' (net_bits ` nets 16 (done @ rules))"
proof (induction rules arbitrary: t4 t6 "done")
  case (Cons r rules)
  then obtain u4 u6 where u: "cidr_rule r (t4, t6) = (None, u4, u6)" "feed cidr_rule rules (u4, u6) = Some (t4', t6')"
    by (auto split: prod.splits option.splits)
  from cidr_rule_holds [OF u(1) _ Cons.prems(3,4)] Cons.prems(2)
  have "trie_holds 4 u4 (net_bits ` nets 4 (done @ [r]))" "trie_holds 16 u6 (net_bits ` nets 16 (done @ [r]))"
    by auto
  from Cons.IH [OF u(2) _ this] Cons.prems(2) show ?case by simp
qed simp

lemma CidrDB_Match_holds:
  assumes "trie_holds 4 (cd_ip4 db) (net_bits ` nets 4 rules)" "trie_holds 16 (cd_ip6 db) (net_bits ` nets 16 rules)"
    "\<forall>r \<in> set rules. \<not> mapped_rule r" "length ip = 4 \<or> length ip = 16"
  shows "\<exists>m. CidrDB_Match db ip = Some (m, \<exists>r \<in> set rules. rule_contains r ip)"
proof -
  define w where "w = length (norm_ip ip)"
  have w: "w = 4 \<or> w = 16" using assms(4) length_To4 [of ip] by (auto simp: w_def norm_ip_def)
  let ?t = "if To4 ip = [] then cd_ip6 db else cd_ip4 db"
  have t: "trie_holds w ?t (net_bits ` nets w rules)"
    using assms(1,2,4) length_To4 [of ip] by (auto simp: w_def norm_ip_def To4_def)
  have "\<forall>n \<in> nets w rules. net_ok w n" by (auto simp: nets_def)
  from hasIP_holds [OF t this w w_def [symmetric]]
  obtain rule ok where h: "hasIP ?t ip = Some (rule, ok)" "ok \<longleftrightarrow> (\<exists>n \<in> nets w rules. Contains n ip)"
    by blast
  have other: "\<not> Contains n ip" if "net_ok w' n" "w' \<noteq> w" "w' = 4 \<or> w' = 16" for n w'
    using that w by (auto simp: Contains_def networkNumberAndMask_def net_ok_def Let_def w_def norm_ip_def split: if_splits)
  have net: "net_ok w n" if "r \<in> set rules" "rule_net r = Some (ip', n)" "Contains n ip" for r ip' n
    using rule_net_cases [OF that(2)] assms(3) other [of 4 n] other [of 16 n] w that(1,3) by auto
  have "(\<exists>n \<in> nets w rules. Contains n ip) \<longleftrightarrow> (\<exists>r \<in> set rules. rule_contains r ip)"
    using net by (fastforce simp: nets_def rule_contains_def split: option.splits)
  moreover have "ip \<noteq> []" using assms(4) by auto
  ultimately show ?thesis using h by (auto simp: CidrDB_Match_def)
qed

text \<open>What a loaded database matches, in terms of the rules that were loaded.\<close>

lemma NewCidrDB_covers:
  assumes "NewCidrDB w name l = (Inr db, l', w')"
  shows "\<exists>rules. (offered w l rules \<or> may_start_empty l \<and> rules = []) \<and>
    ((\<forall>r \<in> set rules. \<not> mapped_rule r) \<longrightarrow>
     (\<forall>ip. length ip = 4 \<or> length ip = 16 \<longrightarrow>
        (\<exists>m. CidrDB_Match db ip = Some (m, \<exists>r \<in> set rules. rule_contains r ip))))"
proof -
  obtain t4 t6 where "Load w l (\<lambda>_. (None, None)) cidr_rule (None, None) = ((None, t4, t6), l', w')"
    and db: "cd_ip4 db = t4" "cd_ip6 db = t6"
    using assms by (auto simp: NewCidrDB_def split: prod.splits option.splits)
  from Load_cases [OF this(1)] obtain rules where
    r: "offered w l rules \<or> may_start_empty l \<and> rules = []" "feed cidr_rule rules (None, None) = Some (t4, t6)" by auto
  moreover have "trie_holds 4 t4 (net_bits ` nets 4 rules) \<and> trie_holds 16 t6 (net_bits ` nets 16 rules)"
    if "\<forall>r \<in> set rules. \<not> mapped_rule r"
    using feed_cidr_holds [OF r(2) that, of "[]"] by (simp add: trie_holds_def nets_def)
  ultimately show ?thesis using CidrDB_Match_holds db by blast
qed

text \<open>
  C23: a CIDR list matches exactly the addresses its rules cover. When a list was loaded, an IPv4 or IPv6
  address matches the database if and only if a network of the complete list contains it; the only
  rules this leaves out are those that write an IPv4 network with IPv4-mapped IPv6 addresses.
\<close>

theorem CidrDB_Match_iff:
  assumes "NewCidrDB w name l = (Inr db, l', w')"
  shows "\<exists>rules. (offered w l rules \<or> may_start_empty l \<and> rules = []) \<and>
    ((\<forall>r \<in> set rules. \<not> mapped_rule r) \<longrightarrow>
     (\<forall>ip. length ip = 4 \<or> length ip = 16 \<longrightarrow>
        (\<exists>m. CidrDB_Match db ip = Some (m, \<exists>r \<in> set rules. rule_contains r ip))))"
  by (rule NewCidrDB_covers [OF assms])

definition ref_rules :: "string list" where
  "ref_rules = [''# test'', ''10.0.0.0/8'', ''192.0.2.7'', ''2001:db8::/32'']"

lemma ref_NewCidrDB:
  "\<exists>db. NewCidrDB ref_world ''list'' (StaticLoader ref_rules) = (Inr db, StaticLoader ref_rules, ref_world) \<and>
     cd_name db = ''list''"
proof -
  have "case NewCidrDB ref_world ''list'' (StaticLoader ref_rules) of (Inr db, StaticLoader rules, w) \<Rightarrow> cd_name db = ''list'' \<and> rules = ref_rules | _ \<Rightarrow> False"
    by code_simp
  then show ?thesis
    by (auto simp: NewCidrDB_def split: sum.splits prod.splits option.splits)
qed

theorem CidrDB_Match_iff_witness:
  "\<exists>db m m'. NewCidrDB ref_world ''list'' (StaticLoader ref_rules) = (Inr db, StaticLoader ref_rules, ref_world) \<and>
     CidrDB_Match db [10, 1, 2, 3] = Some (m, True) \<and> CidrDB_Match db [192, 0, 2, 8] = Some (m', False)"
proof -
  obtain db where db: "NewCidrDB ref_world ''list'' (StaticLoader ref_rules) = (Inr db, StaticLoader ref_rules, ref_world)"
    using ref_NewCidrDB by blast
  have "\<forall>r \<in> set ref_rules. \<not> mapped_rule r" "\<exists>r \<in> set ref_rules. rule_contains r [10, 1, 2, 3]"
    "\<not> (\<exists>r \<in> set ref_rules. rule_contains r [192, 0, 2, 8])"
    by code_simp+
  moreover from this(1) CidrDB_Match_iff [OF db] have "\<forall>ip. length ip = 4 \<or> length ip = 16 \<longrightarrow>
      (\<exists>m. CidrDB_Match db ip = Some (m, \<exists>r \<in> set ref_rules. rule_contains r ip))" by simp
  from spec [OF this, of "[10, 1, 2, 3]"] spec [OF this, of "[192, 0, 2, 8]"] have
    "\<exists>m. CidrDB_Match db [10, 1, 2, 3] = Some (m, \<exists>r \<in> set ref_rules. rule_contains r [10, 1, 2, 3])"
    "\<exists>m. CidrDB_Match db [192, 0, 2, 8] = Some (m, \<exists>r \<in> set ref_rules. rule_contains r [192, 0, 2, 8])" by simp_all
  ultimately show ?thesis using db by auto
qed


end
