(* ===== verification/DomainRules.thy ===== *)
theory DomainRules
  imports IpDB "HOL-Library.Sublist"
begin

text \<open>
  The rules of domain blocklists, shared by the two storage formats: their syntax (\<^verbatim>\<open>domainRules\<close> in
  \<^verbatim>\<open>blocklistdb-domain.go\<close>), the walk over the labels of a query name, and what a list of rules means
  (\<open>domain_covers\<close>). The locales \<open>domain_cover\<close> and \<open>domain_index\<close> are the contracts of a storage format;
  \<open>DomainTrie\<close> and \<open>DomainCompact\<close> interpret them.
\<close>

section \<open>Flags\<close>

abbreviation (input) ruleExact :: u8 where "ruleExact \<equiv> 1"
abbreviation (input) ruleApexSub :: u8 where "ruleApexSub \<equiv> 2"
abbreviation (input) ruleSubOnly :: u8 where "ruleSubOnly \<equiv> 4"
abbreviation (input) ruleHasChildren :: u8 where "ruleHasChildren \<equiv> 8"

abbreviation (input) maxDomainLabel :: nat where "maxDomainLabel \<equiv> 63"

section \<open>Syntax\<close>

lemma cut_SomeD: "cut d s = Some (a, b) \<Longrightarrow> s = a @ d # b \<and> d \<notin> set a"
proof -
  assume c: "cut d s = Some (a, b)"
  then have d: "d \<in> set s" "a = takeWhile (\<lambda>c. c \<noteq> d) s" "b = tl (dropWhile (\<lambda>c. c \<noteq> d) s)"
    by (auto simp: cut_def split: if_splits)
  then have "dropWhile (\<lambda>c. c \<noteq> d) s \<noteq> []" by (auto simp: dropWhile_eq_Nil_conv)
  with hd_dropWhile [of "\<lambda>c. c \<noteq> d" s] have "dropWhile (\<lambda>c. c \<noteq> d) s = d # b"
    unfolding d(3) by (cases "dropWhile (\<lambda>c. c \<noteq> d) s") auto
  with takeWhile_dropWhile_id [of "\<lambda>c. c \<noteq> d" s] d(2) show ?thesis by (auto dest: set_takeWhileD)
qed

function hasOverlongLabel :: "string \<Rightarrow> bool" where
  "hasOverlongLabel r =
     (case cut CHR ''.'' r of
        None \<Rightarrow> maxDomainLabel < length r
      | Some (l, rest) \<Rightarrow> maxDomainLabel < length l \<or> hasOverlongLabel rest)"
  by pat_completeness auto
termination
  by (relation "measure length") (auto dest: cut_SomeD)

declare hasOverlongLabel.simps [simp del]

text \<open>
  One line of a list: nothing to record, a base domain with the flag of the rule, or an invalid item.
\<close>

definition domain_rule :: "bool \<Rightarrow> string \<Rightarrow> go_error + (string \<times> u8) option" where
  "domain_rule includeSubdomains r0 =
     (let r = ToLower (TrimSuffix (TrimSpace r0) ''.'') in
      if r = [] \<or> r = ''*'' \<or> hasOverlongLabel r then Inr None
      else
        let (r', flag) = (if HasPrefix r ''*.'' then (drop 2 r, ruleSubOnly)
                          else if HasPrefix r ''.'' then (drop 1 r, ruleApexSub)
                          else if includeSubdomains then (r, ruleApexSub) else (r, ruleExact))
        in if CHR ''*'' \<in> set r'
           then let before = takeWhile (\<lambda>c. c \<noteq> CHR ''*'') r';
                    start = (case last_index CHR ''.'' before of None \<Rightarrow> 0 | Some i \<Rightarrow> Suc i)
                in Inl (ErrInvalidRule (drop start before @ takeWhile (\<lambda>c. c \<noteq> CHR ''.'') (drop (length before) r')))
           else Inr (Some (r', flag)))"

definition domainRules ::
  "world \<Rightarrow> BlocklistLoader \<Rightarrow> bool \<Rightarrow> ('a \<Rightarrow> 'a) \<Rightarrow> (string \<Rightarrow> u8 \<Rightarrow> 'a \<Rightarrow> go_error option \<times> 'a) \<Rightarrow> 'a \<Rightarrow>
   (go_error option \<times> 'a) \<times> BlocklistLoader \<times> world" where
  "domainRules w loader includeSubdomains reset record =
     Load w loader reset (\<lambda>r s. case domain_rule includeSubdomains r of
         Inl e \<Rightarrow> (Some e, s)
       | Inr None \<Rightarrow> (None, s)
       | Inr (Some (domain, flag)) \<Rightarrow> record domain flag s)"

section \<open>Query names\<close>

text \<open>A query without a question is an index out of range.\<close>

definition domainQueryName :: "Msg \<Rightarrow> string option" where
  "domainQueryName msg =
     (case m_Question msg of [] \<Rightarrow> None | q # _ \<Rightarrow> Some (ToLower (TrimSuffix (q_Name q) ''.'')))"

definition domainRuleAt :: "u8 \<Rightarrow> bool \<Rightarrow> string option" where
  "domainRuleAt flags more_labels =
     (if flags AND ruleApexSub \<noteq> 0 then Some ''.''
      else if flags AND ruleSubOnly \<noteq> 0 \<and> more_labels then Some ''*.''
      else None)"

definition domainMatched :: "string \<Rightarrow> string \<Rightarrow> string \<Rightarrow> BlocklistMatch" where
  "domainMatched list pre name = \<lparr>bm_List = list, bm_Rule = pre @ name\<rparr>"

lemma last_index_Some: "last_index d s = Some i \<Longrightarrow> i < length s \<and> s ! i = d \<and> d \<notin> set (drop (Suc i) s)"
proof -
  assume "last_index d s = Some i"
  then have d: "d \<in> set s" and i: "i = length s - 1 - length (takeWhile (\<lambda>c. c \<noteq> d) (rev s))"
    by (auto simp: last_index_def split: if_splits)
  from d obtain a b where s: "s = a @ d # b" "d \<notin> set b" by (metis split_list_last)
  then have "takeWhile (\<lambda>c. c \<noteq> d) (rev s) = rev b" by (auto simp: takeWhile_tail)
  with i s show ?thesis by simp
qed

lemma last_index_None: "last_index d s = None \<longleftrightarrow> d \<notin> set s"
  by (simp add: last_index_def)

text \<open>
  The walk over the labels of a name from the right, which is the loop of both \<^verbatim>\<open>match\<close> methods. \<open>kid\<close>
  moves from a node to its child under a label and reads the child's flags.
\<close>

function domain_walk ::
  "('n \<Rightarrow> string \<Rightarrow> ('n \<times> u8) option option) \<Rightarrow> string \<Rightarrow> string \<Rightarrow> nat \<Rightarrow> 'n \<Rightarrow> u8 \<Rightarrow> BlocklistMatch option option" where
  "domain_walk kid list name e node flags =
     (if e = 0
      then Some (if flags AND ruleExact \<noteq> 0 then Some (domainMatched list [] name) else None)
      else if flags AND ruleHasChildren = 0 then Some None
      else
        let i = last_index CHR ''.'' (take e name);
            start = (case i of None \<Rightarrow> 0 | Some k \<Rightarrow> Suc k);
            e' = (case i of None \<Rightarrow> 0 | Some k \<Rightarrow> k)
        in case kid node (drop start (take e name)) of
             None \<Rightarrow> None
           | Some None \<Rightarrow> Some None
           | Some (Some (child, flags')) \<Rightarrow>
               (case domainRuleAt flags' (0 < e') of
                  Some pre \<Rightarrow> Some (Some (domainMatched list pre (drop start name)))
                | None \<Rightarrow> domain_walk kid list name e' child flags'))"
  by pat_completeness auto
termination
  by (relation "measure (\<lambda>(kid, list, name, e, node, flags). e)")
     (auto split: option.splits dest: last_index_Some)

declare domain_walk.simps [simp del]

section \<open>What a list of rules means\<close>

text \<open>The labels of a name from the right; an empty label in front is not one.\<close>

function domain_labels :: "string \<Rightarrow> string list" where
  "domain_labels s =
     (case last_index CHR ''.'' s of
        None \<Rightarrow> [s]
      | Some i \<Rightarrow> drop (Suc i) s # (if i = 0 then [] else domain_labels (take i s)))"
  by pat_completeness auto
termination
  by (relation "measure length") (auto dest: last_index_Some)

declare domain_labels.simps [simp del]

definition name_labels :: "string \<Rightarrow> string list" where
  "name_labels s = (if s = [] then [] else domain_labels s)"

type_synonym domain_rules = "(string list \<times> u8) list"

text \<open>Whether a rule, the labels of its base domain with its flag, covers a name.\<close>

definition rule_covers :: "string list \<Rightarrow> string list \<times> u8 \<Rightarrow> bool" where
  "rule_covers labels r \<longleftrightarrow>
     snd r = ruleApexSub \<and> prefix (fst r) labels \<or>
     snd r = ruleSubOnly \<and> strict_prefix (fst r) labels \<or>
     snd r = ruleExact \<and> fst r = labels"

definition domain_covers :: "domain_rules \<Rightarrow> string list \<Rightarrow> bool" where
  "domain_covers RS labels \<longleftrightarrow> (\<exists>r \<in> set RS. rule_covers labels r)"

definition rules_ok :: "domain_rules \<Rightarrow> bool" where
  "rules_ok RS \<longleftrightarrow> (\<forall>r \<in> set RS. fst r \<noteq> [] \<and> snd r \<in> {ruleExact, ruleApexSub, ruleSubOnly})"

definition node_exists :: "domain_rules \<Rightarrow> string list \<Rightarrow> bool" where
  "node_exists RS path \<longleftrightarrow> (\<exists>r \<in> set RS. prefix path (fst r))"

text \<open>Flags that say at least, or exactly, what the rules say of a node.\<close>

definition flags_cover :: "domain_rules \<Rightarrow> string list \<Rightarrow> u8 \<Rightarrow> bool" where
  "flags_cover RS path fl \<longleftrightarrow>
     (\<forall>f \<in> {ruleExact, ruleApexSub, ruleSubOnly}. (path, f) \<in> set RS \<longrightarrow> fl AND f \<noteq> 0) \<and>
     ((\<exists>r \<in> set RS. strict_prefix path (fst r)) \<longrightarrow> fl AND ruleHasChildren \<noteq> 0)"

definition flags_exact :: "domain_rules \<Rightarrow> string list \<Rightarrow> u8 \<Rightarrow> bool" where
  "flags_exact RS path fl \<longleftrightarrow>
     (\<forall>f \<in> {ruleExact, ruleApexSub, ruleSubOnly}. (path, f) \<in> set RS \<longleftrightarrow> fl AND f \<noteq> 0) \<and>
     ((\<exists>r \<in> set RS. strict_prefix path (fst r)) \<longleftrightarrow> fl AND ruleHasChildren \<noteq> 0)"

lemma flags_exact_cover: "flags_exact RS path fl \<Longrightarrow> flags_cover RS path fl"
  by (simp add: flags_exact_def flags_cover_def)

text \<open>The labels that are left when the walk stands at position \<open>e\<close>.\<close>

lemma name_labels_step:
  assumes "0 < e" "e \<le> length name"
  defines "i \<equiv> last_index CHR ''.'' (take e name)"
  shows "name_labels (take e name) =
    drop (case i of None \<Rightarrow> 0 | Some k \<Rightarrow> Suc k) (take e name) #
      name_labels (take (case i of None \<Rightarrow> 0 | Some k \<Rightarrow> k) name)"
    "(case i of None \<Rightarrow> 0 | Some k \<Rightarrow> k) \<le> length name"
    "name_labels (take (case i of None \<Rightarrow> 0 | Some k \<Rightarrow> k) name) = [] \<longleftrightarrow> (case i of None \<Rightarrow> 0 | Some k \<Rightarrow> k) = 0"
proof -
  have ne: "take e name \<noteq> []" using assms by (cases name) auto
  have sub: "k < e \<and> take k (take e name) = take k name" if "i = Some k" for k
    using last_index_Some [of "CHR ''.''" "take e name" k] that assms(2) by (auto simp: i_def split: if_splits)
  have labels: "name_labels s \<noteq> []" if "s \<noteq> []" for s
    using that by (subst name_labels_def, subst domain_labels.simps) (auto split: option.splits)
  have len: "take k name \<noteq> []" if "i = Some k" "k \<noteq> 0" for k
    using sub [OF that(1)] that(2) assms(2) by (cases name; cases k) auto
  show "name_labels (take e name) = drop (case i of None \<Rightarrow> 0 | Some k \<Rightarrow> Suc k) (take e name) #
      name_labels (take (case i of None \<Rightarrow> 0 | Some k \<Rightarrow> k) name)"
  proof (cases i)
    case None
    with ne show ?thesis
      by (simp add: name_labels_def) (simp add: domain_labels.simps [of "take e name"] flip: i_def)
  next
    case (Some k)
    with ne sub len show ?thesis
      by (simp add: name_labels_def) (simp add: domain_labels.simps [of "take e name"] flip: i_def)
  qed
  show "(case i of None \<Rightarrow> 0 | Some k \<Rightarrow> k) \<le> length name"
    using sub assms(2) by (fastforce split: option.splits)
  show "name_labels (take (case i of None \<Rightarrow> 0 | Some k \<Rightarrow> k) name) = [] \<longleftrightarrow> (case i of None \<Rightarrow> 0 | Some k \<Rightarrow> k) = 0"
    using labels len by (auto simp: name_labels_def split: option.splits)
qed

lemma domain_walk_0:
  "domain_walk kid list name 0 n fl = Some (if fl AND ruleExact \<noteq> 0 then Some (domainMatched list [] name) else None)"
  by (simp add: domain_walk.simps)

definition walk_step ::
  "('n \<Rightarrow> string \<Rightarrow> ('n \<times> u8) option option) \<Rightarrow> string \<Rightarrow> string \<Rightarrow> string \<Rightarrow> nat \<Rightarrow> string \<Rightarrow> 'n \<Rightarrow> u8 \<Rightarrow>
   BlocklistMatch option option" where
  "walk_step kid list name l e' sfx n fl =
     (if fl AND ruleHasChildren = 0 then Some None
      else case kid n l of
             None \<Rightarrow> None
           | Some None \<Rightarrow> Some None
           | Some (Some (child, fl')) \<Rightarrow>
               (case domainRuleAt fl' (0 < e') of
                  Some pre \<Rightarrow> Some (Some (domainMatched list pre sfx))
                | None \<Rightarrow> domain_walk kid list name e' child fl'))"

lemma domain_walk_step:
  assumes "0 < e" "e \<le> length name"
  shows "\<exists>l e' sfx. name_labels (take e name) = l # name_labels (take e' name) \<and> e' < e \<and>
    (name_labels (take e' name) = [] \<longleftrightarrow> e' = 0) \<and>
    (\<forall>n fl. domain_walk kid list name e n fl = walk_step kid list name l e' sfx n fl)"
proof -
  let ?i = "last_index CHR ''.'' (take e name)"
  let ?s = "case ?i of None \<Rightarrow> 0 | Some k \<Rightarrow> Suc k"
  let ?e = "case ?i of None \<Rightarrow> 0 | Some k \<Rightarrow> k"
  have "?e < e" using assms by (auto split: option.splits dest: last_index_Some)
  moreover have "domain_walk kid list name e n fl = walk_step kid list name (drop ?s (take e name)) ?e (drop ?s name) n fl"
    for n fl
    using assms(1) by (subst domain_walk.simps) (simp add: Let_def walk_step_def)
  ultimately show ?thesis using name_labels_step(1,3) [OF assms]
    by (intro exI [of _ "drop ?s (take e name)"] exI [of _ ?e] exI [of _ "drop ?s name"]) blast
qed

section \<open>The contract of a storage format\<close>

text \<open>
  \<open>at path n\<close> says that \<open>n\<close> stands for the node of a path. A store may know more than the rules
  (\<open>domain_cover\<close>) or exactly them (\<open>domain_index\<close>).
\<close>

locale domain_cover =
  fixes RS :: domain_rules
    and kid :: "'n \<Rightarrow> string \<Rightarrow> ('n \<times> u8) option option"
    and root :: 'n
    and root_flags :: u8
    and at :: "string list \<Rightarrow> 'n \<Rightarrow> bool"
  assumes rules: "rules_ok RS"
    and at_root: "at [] root"
    and cover_root: "flags_cover RS [] root_flags"
    and find_total: "at path n \<Longrightarrow> kid n l \<noteq> None"
    and find_at: "at path n \<Longrightarrow> kid n l = Some (Some (n', fl)) \<Longrightarrow> at (path @ [l]) n'"
    and find_cover: "at path n \<Longrightarrow> node_exists RS (path @ [l]) \<Longrightarrow>
          \<exists>n' fl. kid n l = Some (Some (n', fl)) \<and> flags_cover RS (path @ [l]) fl"
begin

lemma walk_total:
  "at path n \<Longrightarrow> e \<le> length name \<Longrightarrow> domain_walk kid list name e n fl \<noteq> None"
proof (induction e arbitrary: path n fl rule: less_induct)
  case (less e)
  show ?case
  proof (cases "e = 0")
    case False
    then have "0 < e" by simp
    from domain_walk_step [OF this less.prems(2), of kid list] obtain l e' sfx where "e' < e" and
      w: "domain_walk kid list name e n fl = walk_step kid list name l e' sfx n fl"
      by blast
    with less.IH [of e'] find_at [OF less.prems(1), of l] find_total [OF less.prems(1), of l] less.prems(2)
    show ?thesis unfolding w walk_step_def by (auto split: option.splits)
  qed (simp add: domain_walk_0)
qed

text \<open>A rule the walk has still to reach.\<close>

lemma walk_covers:
  "at path n \<Longrightarrow> flags_cover RS path fl \<Longrightarrow> e \<le> length name \<Longrightarrow> r \<in> set RS \<Longrightarrow>
   rule_covers (path @ name_labels (take e name)) r \<Longrightarrow>
   strict_prefix path (fst r) \<or> fst r = path \<and> snd r = ruleExact \<Longrightarrow>
   \<exists>m. domain_walk kid list name e n fl = Some (Some m)"
proof (induction e arbitrary: path n fl rule: less_induct)
  case (less e)
  obtain rp rf where r: "r = (rp, rf)" by fastforce
  show ?case
  proof (cases "e = 0")
    case True
    then have "rp = path \<and> rf = ruleExact"
      using less.prems(5,6) by (auto simp: r rule_covers_def name_labels_def dest: prefix_order.le_less_trans)
    with less.prems(2,4) True show ?thesis by (auto simp: r flags_cover_def domain_walk_0)
  next
    case False
    then have "0 < e" by simp
    from domain_walk_step [OF this less.prems(3), of kid list] obtain l e' sfx where
      lab: "name_labels (take e name) = l # name_labels (take e' name)" "e' < e"
        "name_labels (take e' name) = [] \<longleftrightarrow> e' = 0" and
      w: "domain_walk kid list name e n fl = walk_step kid list name l e' sfx n fl"
      by blast
    have pre: "prefix rp (path @ l # name_labels (take e' name))"
      using less.prems(5) by (auto simp: r rule_covers_def lab(1))
    have strict: "strict_prefix path rp"
      using less.prems(5,6) by (auto simp: r rule_covers_def lab(1))
    then obtain y ys where rp: "rp = path @ y # ys" by (rule strict_prefixE')
    with pre have "y = l" and ys: "prefix ys (name_labels (take e' name))" by auto
    then have ex: "node_exists RS (path @ [l])"
      using less.prems(4) rp r by (auto simp: node_exists_def prefix_def intro!: bexI [of _ "(rp, rf)"])
    obtain n' fl' where f: "kid n l = Some (Some (n', fl'))" "flags_cover RS (path @ [l]) fl'"
      using find_cover [OF less.prems(1) ex] by blast
    have at': "at (path @ [l]) n'" using find_at [OF less.prems(1) f(1)] .
    have "\<exists>r \<in> set RS. strict_prefix path (fst r)" using less.prems(4) strict r by force
    with less.prems(2) have children: "fl AND ruleHasChildren \<noteq> 0" unfolding flags_cover_def by blast
    show ?thesis
    proof (cases "domainRuleAt fl' (0 < e')")
      case (Some p)
      with f(1) children w show ?thesis by (simp add: walk_step_def)
    next
      case None
      then have none: "fl' AND ruleApexSub = 0" "fl' AND ruleSubOnly = 0 \<or> e' = 0"
        by (auto simp: domainRuleAt_def split: if_splits)
      have cov: "rule_covers ((path @ [l]) @ name_labels (take e' name)) r" using less.prems(5) lab(1) by simp
      have "strict_prefix (path @ [l]) (fst r) \<or> fst r = path @ [l] \<and> snd r = ruleExact"
      proof (cases "ys = []")
        case True
        with rp \<open>y = l\<close> have "rp = path @ [l]" by simp
        moreover have "rf = ruleExact"
          using f(2) none less.prems(4) cov lab(3) \<open>rp = path @ [l]\<close>
          by (auto simp: r flags_cover_def rule_covers_def)
        ultimately show ?thesis by (simp add: r)
      next
        case False
        with rp \<open>y = l\<close> show ?thesis by (auto simp: r strict_prefix_def)
      qed
      from less.IH [OF lab(2) at' f(2) _ less.prems(4) cov this] less.prems(3) lab(2) None f(1) children w
      show ?thesis by (simp add: walk_step_def)
    qed
  qed
qed

lemma never_missed:
  assumes "domain_covers RS (name_labels name)"
  shows "\<exists>m. domain_walk kid list name (length name) root root_flags = Some (Some m)"
proof -
  obtain r where r: "r \<in> set RS" "rule_covers (name_labels name) r" using assms by (auto simp: domain_covers_def)
  with rules have "fst r \<noteq> []" by (auto simp: rules_ok_def)
  then have "strict_prefix [] (fst r)" by (cases "fst r") auto
  with walk_covers [OF at_root cover_root _ r(1), of "length name" name list] r(2) show ?thesis by simp
qed

text \<open>A walk along which the store knows no more than the rules.\<close>

lemma walk_sound:
  "at path n \<Longrightarrow> flags_exact RS path fl \<Longrightarrow> e \<le> length name \<Longrightarrow>
   (\<And>p l n n' fl. prefix (p @ [l]) (path @ name_labels (take e name)) \<Longrightarrow> at p n \<Longrightarrow>
      kid n l = Some (Some (n', fl)) \<Longrightarrow> flags_exact RS (p @ [l]) fl) \<Longrightarrow>
   domain_walk kid list name e n fl = Some (Some m) \<Longrightarrow>
   \<exists>r \<in> set RS. rule_covers (path @ name_labels (take e name)) r"
proof (induction e arbitrary: path n fl rule: less_induct)
  case (less e)
  show ?case
  proof (cases "e = 0")
    case True
    with less.prems(2,5) have "(path, ruleExact) \<in> set RS" by (auto simp: domain_walk_0 flags_exact_def split: if_splits)
    with True show ?thesis by (auto simp: rule_covers_def name_labels_def intro!: bexI [of _ "(path, ruleExact)"])
  next
    case False
    then have "0 < e" by simp
    from domain_walk_step [OF this less.prems(3), of kid list] obtain l e' sfx where
      lab: "name_labels (take e name) = l # name_labels (take e' name)" "e' < e"
        "name_labels (take e' name) = [] \<longleftrightarrow> e' = 0" and
      w: "domain_walk kid list name e n fl = walk_step kid list name l e' sfx n fl"
      by blast
    from less.prems(5) w obtain n' fl' where f: "kid n l = Some (Some (n', fl'))"
      by (auto simp: walk_step_def split: if_splits option.splits)
    have ex: "flags_exact RS (path @ [l]) fl'" using less.prems(4) [OF _ less.prems(1) f] lab(1) by simp
    have at': "at (path @ [l]) n'" using find_at [OF less.prems(1) f] .
    show ?thesis
    proof (cases "domainRuleAt fl' (0 < e')")
      case (Some p)
      then have "(path @ [l], ruleApexSub) \<in> set RS \<or> (path @ [l], ruleSubOnly) \<in> set RS \<and> name_labels (take e' name) \<noteq> []"
        using ex lab(3) by (auto simp: domainRuleAt_def flags_exact_def split: if_splits)
      then show ?thesis
      proof
        assume "(path @ [l], ruleApexSub) \<in> set RS"
        then show ?thesis by (rule bexI [rotated]) (simp add: rule_covers_def lab(1) prefix_def)
      next
        assume "(path @ [l], ruleSubOnly) \<in> set RS \<and> name_labels (take e' name) \<noteq> []"
        then show ?thesis by (intro bexI [of _ "(path @ [l], ruleSubOnly)"]) (auto simp: rule_covers_def lab(1) strict_prefix_def prefix_def)
      qed
    next
      case None
      with w f less.prems(5) have "domain_walk kid list name e' n' fl' = Some (Some m)" by (auto simp: walk_step_def split: if_splits)
      moreover have "flags_exact RS (p @ [k]) fl''" if "prefix (p @ [k]) ((path @ [l]) @ name_labels (take e' name))" "at p n1"
        "kid n1 k = Some (Some (n2, fl''))" for p k n1 n2 fl''
        using less.prems(4) [of p k] that lab(1) by simp
      ultimately show ?thesis using less.IH [OF lab(2) at' ex, of] less.prems(3) lab(1,2) by simp
    qed
  qed
qed

lemma walk_iff_on:
  assumes "flags_exact RS [] root_flags"
    "\<And>p l n n' fl. prefix (p @ [l]) (name_labels name) \<Longrightarrow> at p n \<Longrightarrow> kid n l = Some (Some (n', fl)) \<Longrightarrow>
       flags_exact RS (p @ [l]) fl"
  shows "\<exists>m. domain_walk kid list name (length name) root root_flags = Some m \<and>
     (m \<noteq> None \<longleftrightarrow> domain_covers RS (name_labels name))"
proof -
  obtain m where m: "domain_walk kid list name (length name) root root_flags = Some m"
    using walk_total [OF at_root, of "length name" name list root_flags] by auto
  moreover have "domain_covers RS (name_labels name)" if "m \<noteq> None"
    using walk_sound [OF at_root assms(1), of "length name" name list] assms(2) that m by (auto simp: domain_covers_def)
  ultimately show ?thesis using never_missed [of name list] by auto
qed

end

locale domain_index = domain_cover +
  assumes exact_root: "flags_exact RS [] root_flags"
    and find_exact: "at path n \<Longrightarrow> kid n l = Some (Some (n', fl)) \<Longrightarrow> flags_exact RS (path @ [l]) fl"
begin

lemma walk_iff:
  "\<exists>m. domain_walk kid list name (length name) root root_flags = Some m \<and>
     (m \<noteq> None \<longleftrightarrow> domain_covers RS (name_labels name))"
  using walk_iff_on [OF exact_root] find_exact by blast

end

end
