(* ===== verification/DomainTrie.thy ===== *)
theory DomainTrie
  imports DomainRules
begin

text \<open>
  The exact storage of domain rules, \<^verbatim>\<open>blocklistdb-domain-trie.go\<close> and \<^verbatim>\<open>DomainDB\<close> in
  \<^verbatim>\<open>blocklistdb-domain.go\<close>: a trie of labels in an array of nodes, a blob of long labels and an
  open-addressed table of packed 64-bit slots. The table is refined to a map from a parent and a label
  to a child, and the trie to the rules it was built from. An index out of range and a probe that does
  not end are \<^const>\<open>None\<close>.
\<close>

section \<open>The trie\<close>

abbreviation (input) domainInlineLabel :: nat where "domainInlineLabel \<equiv> 6"
abbreviation (input) maxDomainNodes :: nat where "maxDomainNodes \<equiv> 268435456"
abbreviation (input) domainSlotParent :: nat where "domainSlotParent \<equiv> 36"

definition domainSlotKey :: u64 where
  "domainSlotKey = push_bit domainSlotParent (of_nat (maxDomainNodes - 1)) OR 0xff"

definition domainSlotChild :: u32 where
  "domainSlotChild = of_nat (maxDomainNodes - 1)"

record domainNode =
  dn_label :: "u8 list"
  dn_length :: u8
  dn_flags :: u8

record domainTrie =
  dt_nodes :: "domainNode list"
  dt_blob :: "u8 list"
  dt_slots :: "u64 list"

record domainBuilder = domainTrie +
  db_parents :: "nat list"

definition domainSlot :: "nat \<Rightarrow> nat \<Rightarrow> u8 \<Rightarrow> u64" where
  "domainSlot parent child tag =
     push_bit domainSlotParent (of_nat parent) OR push_bit 8 (of_nat child) OR ucast tag"

definition avalanche64 :: "u64 \<Rightarrow> u64" where
  "avalanche64 h0 =
     (let h1 = h0 XOR drop_bit 30 h0; h2 = h1 * 0xbf58476d1ce4e5b9;
          h3 = h2 XOR drop_bit 27 h2; h4 = h3 * 0x94d049bb133111eb
      in h4 XOR drop_bit 31 h4)"

abbreviation (input) fnvPrime64 :: u64 where "fnvPrime64 \<equiv> 1099511628211"

definition domainHash :: "nat \<Rightarrow> u8 list \<Rightarrow> u64" where
  "domainHash parent label =
     avalanche64
       (foldl (\<lambda>h c. (h XOR ucast c) * fnvPrime64)
          ((of_nat parent * 0x9e3779b97f4a7c15) XOR 14695981039346656037) label)"

text \<open>The high word of the product of the hash and the size of the table.\<close>

definition dt_index :: "'a domainTrie_scheme \<Rightarrow> u64 \<Rightarrow> nat" where
  "dt_index t h = unat h * length (dt_slots t) div 2 ^ 64"

definition dt_next :: "'a domainTrie_scheme \<Rightarrow> nat \<Rightarrow> nat" where
  "dt_next t idx = (if Suc idx = length (dt_slots t) then 0 else Suc idx)"

definition labelAt :: "'a domainTrie_scheme \<Rightarrow> nat \<Rightarrow> u8 list option" where
  "labelAt t node =
     (if length (dt_nodes t) \<le> node then None
      else
        let n = dt_nodes t ! node; len = unat (dn_length n) in
        if len \<le> domainInlineLabel then Some (take len (dn_label n))
        else let off = unat (get_be (rev (take 4 (dn_label n))) :: u32)
             in if 2 ^ 32 \<le> off + len \<or> length (dt_blob t) < off + len then None else Some (take len (drop off (dt_blob t))))"

partial_function (option) trieFind_loop ::
  "'a domainTrie_scheme \<Rightarrow> u8 list \<Rightarrow> u64 \<Rightarrow> nat \<Rightarrow> nat option option" where
  "trieFind_loop t label key idx =
     (if length (dt_slots t) \<le> idx then None
      else
        let s = dt_slots t ! idx in
        if s = 0 then Some None
        else if s AND domainSlotKey = key then
          let node = unat ((ucast (drop_bit 8 s) :: u32) AND domainSlotChild) in
          Option.bind (labelAt t node) (\<lambda>stored.
            if stored = label then Some (Some node) else trieFind_loop t label key (dt_next t idx))
        else trieFind_loop t label key (dt_next t idx))"

definition trieFind :: "'a domainTrie_scheme \<Rightarrow> nat \<Rightarrow> u8 list \<Rightarrow> nat option option" where
  "trieFind t parent label =
     (let h = domainHash parent label
      in trieFind_loop t label (domainSlot parent 0 (ucast h)) (dt_index t h))"

partial_function (option) trieAdd_loop :: "'a domainTrie_scheme \<Rightarrow> nat \<Rightarrow> nat option" where
  "trieAdd_loop t idx =
     (if length (dt_slots t) \<le> idx then None
      else if dt_slots t ! idx \<noteq> 0 then trieAdd_loop t (dt_next t idx)
      else Some idx)"

definition trieAdd :: "'a domainTrie_scheme \<Rightarrow> nat \<Rightarrow> u8 list \<Rightarrow> nat \<Rightarrow> 'a domainTrie_scheme option" where
  "trieAdd t parent label node =
     (let h = domainHash parent label
      in map_option (\<lambda>idx. t\<lparr>dt_slots := (dt_slots t)[idx := domainSlot parent node (ucast h)]\<rparr>)
           (trieAdd_loop t (dt_index t h)))"

section \<open>Building\<close>

fun rebuild_loop :: "domainBuilder \<Rightarrow> nat list \<Rightarrow> domainBuilder option" where
  "rebuild_loop b [] = Some b"
| "rebuild_loop b (i # ids) = do {
     label \<leftarrow> labelAt b i;
     b' \<leftarrow> trieAdd b (db_parents b ! i) label i;
     rebuild_loop b' ids
   }"

definition rebuild :: "nat \<Rightarrow> domainBuilder \<Rightarrow> domainBuilder option" where
  "rebuild sz b = rebuild_loop (b\<lparr>dt_slots := replicate sz 0\<rparr>) [1..<length (dt_nodes b)]"

definition newDomainBuilder :: "domainBuilder option" where
  "newDomainBuilder =
     rebuild 64 \<lparr>dt_nodes = [\<lparr>dn_label = replicate 6 0, dn_length = 0, dn_flags = 0\<rparr>], dt_blob = [], dt_slots = [],
                 db_parents = [0]\<rparr>"

definition domainTableSize :: "nat \<Rightarrow> nat" where
  "domainTableSize nodes = nodes * 3 div 2"

definition or_flags :: "nat \<Rightarrow> u8 \<Rightarrow> 'a domainTrie_scheme \<Rightarrow> 'a domainTrie_scheme" where
  "or_flags i f t =
     t\<lparr>dt_nodes := (dt_nodes t)[i := (dt_nodes t ! i)\<lparr>dn_flags := dn_flags (dt_nodes t ! i) OR f\<rparr>]\<rparr>"

definition builder_child :: "domainBuilder \<Rightarrow> nat \<Rightarrow> string \<Rightarrow> (go_error + (nat \<times> domainBuilder)) option" where
  "builder_child b parent label0 = do {
     let label = bytes_of label0;
     found \<leftarrow> trieFind b parent label;
     (case found of
        Some node \<Rightarrow> Some (Inr (node, b))
      | None \<Rightarrow>
          if maxDomainNodes \<le> length (dt_nodes b) then Some (Inl (ErrOther ''labels''))
          else do {
            b1 \<leftarrow> (if length (dt_slots b) * 2 < (length (dt_nodes b) + 1) * 3
                   then rebuild (length (dt_slots b) * 2) b else Some b);
            let inline = length label \<le> domainInlineLabel;
            let node = \<lparr>dn_label = (if inline then label @ replicate (6 - length label) 0
                                   else rev (PutUint32 (of_nat (length (dt_blob b1)))) @ [0, 0]),
                        dn_length = of_nat (length label), dn_flags = 0\<rparr>;
            let i = length (dt_nodes b1);
            let b2 = b1\<lparr>dt_nodes := dt_nodes b1 @ [node],
                        dt_blob := (if inline then dt_blob b1 else dt_blob b1 @ label),
                        db_parents := db_parents b1 @ [parent]\<rparr>;
            b3 \<leftarrow> trieAdd (or_flags parent ruleHasChildren b2) parent label i;
            Some (Inr (i, b3))
          })
   }"

text \<open>The path of a domain from the right, built as needed.\<close>

function add_path :: "domainBuilder \<Rightarrow> nat \<Rightarrow> string \<Rightarrow> (go_error + (nat \<times> domainBuilder)) option" where
  "add_path b n s =
     (case last_index CHR ''.'' s of
        None \<Rightarrow> builder_child b n s
      | Some i \<Rightarrow>
          (case builder_child b n (drop (Suc i) s) of
             None \<Rightarrow> None
           | Some (Inl e) \<Rightarrow> Some (Inl e)
           | Some (Inr (n', b')) \<Rightarrow> if i = 0 then Some (Inr (n', b')) else add_path b' n' (take i s)))"
  by pat_completeness auto
termination
  by (relation "measure (\<lambda>(b, n, s). length s)") (auto dest: last_index_Some)

declare add_path.simps [simp del]

definition record_rule :: "string \<Rightarrow> u8 \<Rightarrow> domainBuilder \<Rightarrow> go_error option \<times> domainBuilder" where
  "record_rule domain flag b =
     (case add_path b 0 domain of
        None \<Rightarrow> (Some Panic, b)
      | Some (Inl e) \<Rightarrow> (Some e, b)
      | Some (Inr (n, b')) \<Rightarrow> (None, or_flags n flag b'))"

definition builder_done :: "domainBuilder \<Rightarrow> domainTrie option" where
  "builder_done b =
     (let want = domainTableSize (length (dt_nodes b)) + 8
      in map_option domainTrie.truncate
           (if want * 4 div 3 < length (dt_slots b) then rebuild want b else Some b))"

section \<open>The database\<close>

record DomainDB =
  dd_name :: string
  dd_trie :: domainTrie
  dd_loader :: BlocklistLoader
  dd_includeSubdomains :: bool

definition newDomainDB ::
  "world \<Rightarrow> string \<Rightarrow> BlocklistLoader \<Rightarrow> bool \<Rightarrow> (go_error + DomainDB) \<times> BlocklistLoader \<times> world" where
  "newDomainDB w name loader includeSubdomains =
     (case newDomainBuilder of
        None \<Rightarrow> (Inl Panic, loader, w)
      | Some b0 \<Rightarrow>
          (case domainRules w loader includeSubdomains (\<lambda>_. b0) record_rule b0 of
             ((Some err, _), l, w') \<Rightarrow> (Inl err, l, w')
           | ((None, b), l, w') \<Rightarrow>
               (case builder_done b of
                  None \<Rightarrow> (Inl Panic, l, w')
                | Some t \<Rightarrow> (Inr \<lparr>dd_name = name, dd_trie = t, dd_loader = l,
                                 dd_includeSubdomains = includeSubdomains\<rparr>, l, w'))))"

definition NewDomainDB where
  "NewDomainDB w name loader = newDomainDB w name loader False"

definition NewDomainSubdomainDB where
  "NewDomainSubdomainDB w name loader = newDomainDB w name loader True"

definition trie_kid :: "'a domainTrie_scheme \<Rightarrow> nat \<Rightarrow> string \<Rightarrow> (nat \<times> u8) option option" where
  "trie_kid t node label =
     (case trieFind t node (bytes_of label) of
        None \<Rightarrow> None
      | Some None \<Rightarrow> Some None
      | Some (Some child) \<Rightarrow>
          if length (dt_nodes t) \<le> child then None else Some (Some (child, dn_flags (dt_nodes t ! child))))"

definition DomainDB_match :: "DomainDB \<Rightarrow> string \<Rightarrow> BlocklistMatch option option" where
  "DomainDB_match m name =
     (if dt_nodes (dd_trie m) = [] then None
      else domain_walk (trie_kid (dd_trie m)) (dd_name m) name (length name) 0 (dn_flags (dt_nodes (dd_trie m) ! 0)))"

text \<open>What \<^verbatim>\<open>BlocklistDB.Match\<close> returns: addresses, names, the rule, and whether there was a match.\<close>

type_synonym db_match = "(IP list \<times> string list \<times> BlocklistMatch option \<times> bool) option"

definition domain_result :: "BlocklistMatch option \<Rightarrow> IP list \<times> string list \<times> BlocklistMatch option \<times> bool" where
  "domain_result m = ([], [], m, m \<noteq> None)"

definition DomainDB_Match :: "DomainDB \<Rightarrow> Msg \<Rightarrow> db_match" where
  "DomainDB_Match m msg = do {
     name \<leftarrow> domainQueryName msg;
     r \<leftarrow> DomainDB_match m name;
     Some (domain_result r)
   }"

definition DomainDB_Reload where
  "DomainDB_Reload w m =
     (case newDomainDB w (dd_name m) (dd_loader m) (dd_includeSubdomains m) of
        (Inl err, l, w') \<Rightarrow> ((None, Some err), m\<lparr>dd_loader := l\<rparr>, w')
      | (Inr db, l, w') \<Rightarrow> ((Some db, None), m\<lparr>dd_loader := l\<rparr>, w'))"

section \<open>Slots\<close>

lemma bit_of_nat_less: "k < 2 ^ b \<Longrightarrow> bit (of_nat k :: 'a::len word) n \<Longrightarrow> n < b"
proof -
  assume "k < 2 ^ b" and b: "bit (of_nat k :: 'a word) n"
  then have "take_bit b k = k" by (simp add: take_bit_nat_eq_self)
  then have "(of_nat k :: 'a word) = take_bit b (of_nat k)" by (metis take_bit_of_nat)
  with b show ?thesis by (metis bit_take_bit_iff)
qed

lemma domainSlotKey_mask: "domainSlotKey = push_bit 36 (mask 28) OR mask 8" "domainSlotChild = mask 28"
  by (simp_all add: domainSlotKey_def domainSlotChild_def mask_eq_exp_minus_1)

lemma slot_key:
  assumes "parent < 2 ^ 28" "child < 2 ^ 28"
  shows "domainSlot parent child tag AND domainSlotKey = domainSlot parent 0 tag"
proof (rule bit_word_eqI)
  fix n assume "n < LENGTH(64)"
  show "bit (domainSlot parent child tag AND domainSlotKey) n = bit (domainSlot parent 0 tag) n"
    using bit_of_nat_less [OF assms(1), of "n - 36", where 'a = 64] bit_of_nat_less [OF assms(2), of "n - 8", where 'a = 64]
      bit_imp_le_length [of tag n]
    by (auto simp: domainSlot_def domainSlotKey_mask bit_simps)
qed

lemma slot_child:
  assumes "parent < 2 ^ 28" "child < 2 ^ 28"
  shows "unat ((ucast (drop_bit 8 (domainSlot parent child tag)) :: u32) AND domainSlotChild) = child"
proof -
  have "(ucast (drop_bit 8 (domainSlot parent child tag)) :: u32) AND domainSlotChild = of_nat child"
  proof (rule bit_word_eqI)
    fix n assume n: "n < LENGTH(32)"
    have "bit (of_nat child :: u64) n = bit (of_nat child :: u32) n"
      using n by (simp add: bit_of_nat_iff)
    then show "bit ((ucast (drop_bit 8 (domainSlot parent child tag)) :: u32) AND domainSlotChild) n = bit (of_nat child :: u32) n"
      using bit_of_nat_less [OF assms(2), of n, where 'a = 32] bit_imp_le_length [of tag "8 + n"] n
      by (auto simp: domainSlot_def domainSlotKey_mask bit_simps)
  qed
  with assms(2) show ?thesis by (simp add: unat_of_nat)
qed

lemma slot_tag: "ucast (domainSlot parent child tag) = tag"
proof (rule bit_word_eqI)
  fix n assume n: "n < LENGTH(8)"
  then show "bit (ucast (domainSlot parent child tag) :: u8) n = bit tag n"
    by (auto simp: domainSlot_def bit_simps)
qed

lemma slot_parent:
  assumes "parent < 2 ^ 28" "child < 2 ^ 28"
  shows "unat (drop_bit 36 (domainSlot parent child tag)) = parent"
proof -
  have "drop_bit 36 (domainSlot parent child tag) = of_nat parent"
  proof (rule bit_word_eqI)
    fix n assume n: "n < LENGTH(64)"
    show "bit (drop_bit 36 (domainSlot parent child tag)) n = bit (of_nat parent :: u64) n"
      using bit_of_nat_less [OF assms(1), of n, where 'a = 64] bit_of_nat_less [OF assms(2), of "28 + n", where 'a = 64]
        bit_imp_le_length [of tag "36 + n"] n
      by (auto simp: domainSlot_def bit_simps)
  qed
  with assms(1) show ?thesis by (simp add: unat_of_nat)
qed

section \<open>The table as a map\<close>

text \<open>
  \<open>P\<close> and \<open>B\<close> give the parent and the label of a node. \<open>probe t h d\<close> is the slot at distance \<open>d\<close> from where a
  hash belongs.
\<close>

definition slot_of :: "(nat \<Rightarrow> nat) \<Rightarrow> (nat \<Rightarrow> u8 list) \<Rightarrow> nat \<Rightarrow> u64" where
  "slot_of P B i = domainSlot (P i) i (ucast (domainHash (P i) (B i)))"

definition probe :: "'a domainTrie_scheme \<Rightarrow> u64 \<Rightarrow> nat \<Rightarrow> nat" where
  "probe t h d = (dt_index t h + d) mod length (dt_slots t)"

definition reaches :: "'a domainTrie_scheme \<Rightarrow> u64 \<Rightarrow> nat \<Rightarrow> bool" where
  "reaches t h d \<longleftrightarrow> (\<forall>e < d. dt_slots t ! probe t h e \<noteq> 0)"

definition table_ok :: "'a domainTrie_scheme \<Rightarrow> (nat \<Rightarrow> nat) \<Rightarrow> (nat \<Rightarrow> u8 list) \<Rightarrow> nat set \<Rightarrow> bool" where
  "table_ok t P B I \<longleftrightarrow>
     finite I \<and> card I < length (dt_slots t) \<and>
     (\<forall>i \<in> I. 0 < i \<and> i < 2 ^ 28 \<and> P i < 2 ^ 28) \<and>
     (\<forall>p < length (dt_slots t). dt_slots t ! p \<noteq> 0 \<longrightarrow> (\<exists>i \<in> I. dt_slots t ! p = slot_of P B i)) \<and>
     (\<forall>p < length (dt_slots t). \<forall>q < length (dt_slots t).
        dt_slots t ! p \<noteq> 0 \<longrightarrow> dt_slots t ! p = dt_slots t ! q \<longrightarrow> p = q) \<and>
     (\<forall>i \<in> I. \<exists>d. dt_slots t ! probe t (domainHash (P i) (B i)) d = slot_of P B i \<and>
        reaches t (domainHash (P i) (B i)) d)"

lemma slot_of_inj:
  assumes "i < 2 ^ 28" "j < 2 ^ 28" "P i < 2 ^ 28" "P j < 2 ^ 28" "slot_of P B i = slot_of P B j"
  shows "i = j"
  using slot_child [OF assms(3,1)] slot_child [OF assms(4,2)] assms(5) unfolding slot_of_def by metis

lemma slot_of_nonzero: "0 < i \<Longrightarrow> i < 2 ^ 28 \<Longrightarrow> P i < 2 ^ 28 \<Longrightarrow> slot_of P B i \<noteq> 0"
  using slot_child [of "P i" i "ucast (domainHash (P i) (B i))"] by (auto simp: slot_of_def)

lemma dt_index_less: "dt_slots t \<noteq> [] \<Longrightarrow> dt_index t h < length (dt_slots t)"
proof -
  assume "dt_slots t \<noteq> []"
  moreover have "unat h < 2 ^ 64" using unsigned_less [of h, where ?'a = nat] by simp
  ultimately have "unat h * length (dt_slots t) < length (dt_slots t) * 2 ^ 64" by simp
  then show ?thesis unfolding dt_index_def by (rule less_mult_imp_div_less)
qed

lemma probe_0: "dt_slots t \<noteq> [] \<Longrightarrow> probe t h 0 = dt_index t h"
  by (simp add: probe_def dt_index_less)

lemma probe_less: "dt_slots t \<noteq> [] \<Longrightarrow> probe t h d < length (dt_slots t)"
  by (simp add: probe_def)

lemma probe_next: "dt_slots t \<noteq> [] \<Longrightarrow> dt_next t (probe t h d) = probe t h (Suc d)"
  by (simp add: probe_def dt_next_def mod_Suc)

lemma table_nonempty: "table_ok t P B I \<Longrightarrow> dt_slots t \<noteq> []"
  by (auto simp: table_ok_def)

lemma table_bounds:
  assumes "table_ok t P B I" "i \<in> I"
  shows "0 < i" "i < 2 ^ 28" "P i < 2 ^ 28" "slot_of P B i \<noteq> 0"
proof -
  show b: "0 < i" "i < 2 ^ 28" "P i < 2 ^ 28" using assms unfolding table_ok_def by blast+
  then show "slot_of P B i \<noteq> 0" by (rule slot_of_nonzero)
qed

lemma table_slot:
  "table_ok t P B I \<Longrightarrow> p < length (dt_slots t) \<Longrightarrow> dt_slots t ! p \<noteq> 0 \<Longrightarrow> \<exists>i \<in> I. dt_slots t ! p = slot_of P B i"
  unfolding table_ok_def by blast

lemma table_unique:
  "table_ok t P B I \<Longrightarrow> p < length (dt_slots t) \<Longrightarrow> q < length (dt_slots t) \<Longrightarrow> dt_slots t ! p \<noteq> 0 \<Longrightarrow>
   dt_slots t ! p = dt_slots t ! q \<Longrightarrow> p = q"
  unfolding table_ok_def by blast

lemma table_at:
  "table_ok t P B I \<Longrightarrow> i \<in> I \<Longrightarrow> \<exists>d. dt_slots t ! probe t (domainHash (P i) (B i)) d = slot_of P B i \<and>
     reaches t (domainHash (P i) (B i)) d"
  unfolding table_ok_def by blast

lemma free_slot:
  assumes "table_ok t P B I"
  shows "\<exists>p < length (dt_slots t). dt_slots t ! p = 0"
proof (rule ccontr)
  let ?m = "length (dt_slots t)"
  assume "\<not> ?thesis"
  then have nz: "\<forall>p < ?m. dt_slots t ! p \<noteq> 0" by auto
  then have "\<forall>p < ?m. \<exists>i \<in> I. dt_slots t ! p = slot_of P B i" using assms by (auto simp: table_ok_def)
  then obtain g where g: "\<And>p. p < ?m \<Longrightarrow> g p \<in> I \<and> dt_slots t ! p = slot_of P B (g p)" by metis
  have "inj_on g {..<?m}"
  proof (rule inj_onI)
    fix p q assume "p \<in> {..<?m}" "q \<in> {..<?m}" "g p = g q"
    then have "dt_slots t ! p = dt_slots t ! q" "p < ?m" "q < ?m" using g by auto
    with nz assms show "p = q" by (auto simp: table_ok_def)
  qed
  moreover have "g ` {..<?m} \<subseteq> I" "finite I" "card I < ?m" using g assms by (auto simp: table_ok_def)
  ultimately show False by (metis card_inj_on_le card_lessThan leD)
qed

lemma first_free:
  assumes "table_ok t P B I"
  obtains d where "dt_slots t ! probe t h d = 0" "reaches t h d"
proof -
  let ?m = "length (dt_slots t)"
  obtain p where p: "p < ?m" "dt_slots t ! p = 0" using free_slot [OF assms] by blast
  have "probe t h (p + ?m - dt_index t h) = p"
    using p(1) dt_index_less [OF table_nonempty [OF assms], of h] by (simp add: probe_def)
  with p(2) have ex: "\<exists>d. dt_slots t ! probe t h d = 0" by metis
  let ?d = "LEAST d. dt_slots t ! probe t h d = 0"
  have "dt_slots t ! probe t h ?d = 0" using ex by (rule LeastI_ex)
  moreover have "reaches t h ?d" by (auto simp: reaches_def dest: not_less_Least)
  ultimately show thesis by (rule that)
qed

lemma trieAdd_loop_free:
  "dt_slots t \<noteq> [] \<Longrightarrow> dt_slots t ! probe t h d = 0 \<Longrightarrow> reaches t h d \<Longrightarrow> k \<le> d \<Longrightarrow>
   trieAdd_loop t (probe t h k) = Some (probe t h d)"
proof (induction "d - k" arbitrary: k)
  case 0
  then show ?case by (subst trieAdd_loop.simps) (simp add: probe_less not_le)
next
  case (Suc n)
  then have "k < d" by simp
  with Suc.prems(3) have "dt_slots t ! probe t h k \<noteq> 0" by (simp add: reaches_def)
  with Suc.hyps(1) [of "Suc k"] Suc.hyps(2) Suc.prems show ?case
    by (subst trieAdd_loop.simps) (simp add: probe_less not_le probe_next)
qed

text \<open>Lookup: a node of the table is found by its parent and label, and nothing else is.\<close>

definition table_get :: "(nat \<Rightarrow> nat) \<Rightarrow> (nat \<Rightarrow> u8 list) \<Rightarrow> nat set \<Rightarrow> nat \<Rightarrow> u8 list \<Rightarrow> nat option \<Rightarrow> bool" where
  "table_get P B I parent label r \<longleftrightarrow>
     (case r of
        None \<Rightarrow> \<forall>i \<in> I. \<not> (P i = parent \<and> B i = label)
      | Some i \<Rightarrow> i \<in> I \<and> P i = parent \<and> B i = label)"

lemma trieFind_loop_get:
  assumes "table_ok t P B I" "\<And>i. i \<in> I \<Longrightarrow> labelAt t i = Some (B i)" "parent < 2 ^ 28"
    and h: "h = domainHash parent label" and free: "dt_slots t ! probe t h d = 0" "reaches t h d"
  shows "k \<le> d \<Longrightarrow> (\<forall>i \<in> I. P i = parent \<and> B i = label \<longrightarrow> (\<exists>e \<ge> k. dt_slots t ! probe t h e = slot_of P B i \<and> reaches t h e)) \<Longrightarrow>
    \<exists>r. trieFind_loop t label (domainSlot parent 0 (ucast h)) (probe t h k) = Some r \<and> table_get P B I parent label r"
proof (induction "d - k" arbitrary: k)
  case 0
  then have "k = d" by simp
  have "\<not> (P i = parent \<and> B i = label)" if i: "i \<in> I" for i
  proof
    assume "P i = parent \<and> B i = label"
    with 0 i obtain e where e: "k \<le> e" "dt_slots t ! probe t h e = slot_of P B i" "reaches t h e" by blast
    with table_bounds(4) [OF assms(1) i] e free(1) have "e \<noteq> d" by auto
    with e(1,3) \<open>k = d\<close> free(1) show False by (auto simp: reaches_def)
  qed
  then show ?case
    using table_nonempty [OF assms(1)] free(1) \<open>k = d\<close>
    by (intro exI [of _ None]) (subst trieFind_loop.simps, simp add: probe_less not_le table_get_def)
next
  case (Suc n)
  then have "k < d" by simp
  let ?s = "dt_slots t ! probe t h k"
  have ne: "dt_slots t \<noteq> []" using table_nonempty [OF assms(1)] .
  have s0: "?s \<noteq> 0" using free(2) \<open>k < d\<close> by (simp add: reaches_def)
  with table_slot [OF assms(1) probe_less [OF ne]] obtain i where i: "i \<in> I" "?s = slot_of P B i" by blast
  have bounds: "i < 2 ^ 28" "P i < 2 ^ 28" using table_bounds [OF assms(1) i(1)] by blast+
  have dec: "?s AND domainSlotKey = domainSlot (P i) 0 (ucast (domainHash (P i) (B i)))"
    "unat ((ucast (drop_bit 8 ?s) :: u32) AND domainSlotChild) = i"
    using slot_key [OF bounds(2,1)] slot_child [OF bounds(2,1)] i(2) by (simp_all add: slot_of_def)
  show ?case
  proof (cases "P i = parent \<and> B i = label")
    case True
    with dec s0 assms(2) [OF i(1)] i(1) h show ?thesis
      by (intro exI [of _ "Some i"]) (subst trieFind_loop.simps, simp add: probe_less [OF ne] not_le table_get_def Let_def)
  next
    case False
    have "trieFind_loop t label (domainSlot parent 0 (ucast h)) (probe t h k) =
        trieFind_loop t label (domainSlot parent 0 (ucast h)) (probe t h (Suc k))"
    proof -
      have "B i \<noteq> label" if "?s AND domainSlotKey = domainSlot parent 0 (ucast h)"
      proof -
        have "P i = parent"
          using that dec(1) slot_parent [OF bounds(2), of 0 "ucast (domainHash (P i) (B i))"] slot_parent [OF assms(3), of 0 "ucast h"] by simp
        with False show ?thesis by simp
      qed
      moreover have "\<not> length (dt_slots t) \<le> probe t h k" using probe_less [OF ne, of h k] by simp
      ultimately show ?thesis
        using s0 dec(2) assms(2) [OF i(1)]
        by (subst trieFind_loop.simps) (auto simp: Let_def probe_next [OF ne])
    qed
    moreover have "\<forall>j \<in> I. P j = parent \<and> B j = label \<longrightarrow>
        (\<exists>e \<ge> Suc k. dt_slots t ! probe t h e = slot_of P B j \<and> reaches t h e)"
    proof (intro ballI impI)
      fix j assume j: "j \<in> I" "P j = parent \<and> B j = label"
      with Suc.prems(2) obtain e where e: "k \<le> e" "dt_slots t ! probe t h e = slot_of P B j" "reaches t h e" by blast
      have "j \<noteq> i" using j(2) False by auto
      then have "e \<noteq> k"
        using e(2) i(2) slot_of_inj [of i j P B] bounds table_bounds [OF assms(1) j(1)] by auto
      with e show "\<exists>e \<ge> Suc k. dt_slots t ! probe t h e = slot_of P B j \<and> reaches t h e" by (intro exI [of _ e]) simp
    qed
    ultimately show ?thesis using Suc.hyps(1) [of "Suc k"] Suc.hyps(2) \<open>k < d\<close> by simp
  qed
qed

lemma trieFind_get:
  assumes "table_ok t P B I" "\<And>i. i \<in> I \<Longrightarrow> labelAt t i = Some (B i)" "parent < 2 ^ 28"
  shows "\<exists>r. trieFind t parent label = Some r \<and> table_get P B I parent label r"
proof -
  let ?h = "domainHash parent label"
  obtain d where free: "dt_slots t ! probe t ?h d = 0" "reaches t ?h d" using first_free [OF assms(1)] by blast
  have "\<forall>i \<in> I. P i = parent \<and> B i = label \<longrightarrow> (\<exists>e \<ge> 0. dt_slots t ! probe t ?h e = slot_of P B i \<and> reaches t ?h e)"
    using table_at [OF assms(1)] by blast
  from trieFind_loop_get [OF assms refl free _ this] show ?thesis
    by (simp add: trieFind_def Let_def probe_0 [OF table_nonempty [OF assms(1)]])
qed


text \<open>Insertion of a new node into a table with room for it.\<close>

lemma trieAdd_ok:
  assumes ok: "table_ok t P B I" and j: "j \<notin> I" "0 < j" "j < 2 ^ 28" "P j < 2 ^ 28" "Suc (card I) < length (dt_slots t)"
  shows "\<exists>t'. trieAdd t (P j) (B j) j = Some t' \<and> table_ok t' P B (insert j I) \<and>
    length (dt_slots t') = length (dt_slots t) \<and> (\<exists>ss. t' = t\<lparr>dt_slots := ss\<rparr>)"
proof -
  let ?h = "domainHash (P j) (B j)"
  have ne: "dt_slots t \<noteq> []" using table_nonempty [OF ok] .
  obtain d where free: "dt_slots t ! probe t ?h d = 0" "reaches t ?h d" using first_free [OF ok] by blast
  define p where "p = probe t ?h d"
  have p: "p < length (dt_slots t)" "dt_slots t ! p = 0" using probe_less [OF ne] free(1) by (simp_all add: p_def)
  define t' where "t' = t\<lparr>dt_slots := (dt_slots t)[p := slot_of P B j]\<rparr>"
  have add: "trieAdd t (P j) (B j) j = Some t'"
    using trieAdd_loop_free [OF ne free, of 0] by (simp add: trieAdd_def Let_def probe_0 [OF ne] slot_of_def t'_def p_def)
  have same: "probe t' h e = probe t h e" "length (dt_slots t') = length (dt_slots t)" for h e
    by (simp_all add: t'_def probe_def dt_index_def)
  have nz: "slot_of P B j \<noteq> 0" using j by (intro slot_of_nonzero)
  have old: "dt_slots t' ! q = dt_slots t ! q" if "dt_slots t ! q \<noteq> 0" for q
    using that p(2) by (cases "q = p") (simp_all add: t'_def)
  have at: "dt_slots t' ! p = slot_of P B j" using p(1) by (simp add: t'_def)
  have cases: "dt_slots t' ! q = slot_of P B j \<and> q = p \<or> dt_slots t' ! q = dt_slots t ! q \<and> q \<noteq> p" for q
    using at by (cases "q = p") (simp_all add: t'_def)
  have keep: "reaches t' h e" if "reaches t h e" for h e
    using that old by (auto simp: reaches_def same)
  have new: "slot_of P B i \<noteq> slot_of P B j" if "i \<in> I" for i
    using slot_of_inj [of i j P B] table_bounds [OF ok that] j that by auto
  have "table_ok t' P B (insert j I)"
    unfolding table_ok_def same
  proof (intro conjI ballI allI impI)
    show "finite (insert j I)" using ok by (auto simp: table_ok_def)
    then show "card (insert j I) < length (dt_slots t)" using j by simp
    show "0 < i" "i < 2 ^ 28" "P i < 2 ^ 28" if "i \<in> insert j I" for i
      using that j table_bounds [OF ok, of i] by auto
    show "\<exists>i \<in> insert j I. dt_slots t' ! q = slot_of P B i" if "q < length (dt_slots t)" "dt_slots t' ! q \<noteq> 0" for q
      using cases [of q] table_slot [OF ok that(1)] that(2) by auto
    show "q = r" if "q < length (dt_slots t)" "r < length (dt_slots t)" "dt_slots t' ! q \<noteq> 0" "dt_slots t' ! q = dt_slots t' ! r" for q r
      using cases [of q] cases [of r] table_slot [OF ok that(1)] table_slot [OF ok that(2)] table_unique [OF ok that(1,2)] new that(3,4)
      by (metis nz)
    show "\<exists>d. dt_slots t' ! probe t (domainHash (P i) (B i)) d = slot_of P B i \<and> reaches t' (domainHash (P i) (B i)) d"
      if i: "i \<in> insert j I" for i
    proof (cases "i = j")
      case True
      then show ?thesis using at keep [OF free(2)] by (auto simp: p_def)
    next
      case False
      with i have "i \<in> I" by simp
      with table_at [OF ok this] table_bounds(4) [OF ok this] old keep show ?thesis by metis
    qed
  qed
  with add same(2) show ?thesis by (auto simp: t'_def)
qed

section \<open>The trie as a set of paths\<close>

lemma table_ok_cong:
  assumes "dt_slots t = dt_slots t'" "\<And>i. i \<in> I \<Longrightarrow> P i = P' i" "\<And>i. i \<in> I \<Longrightarrow> B i = B' i"
  shows "table_ok t P B I \<longleftrightarrow> table_ok t' P' B' I"
proof -
  have "probe t = probe t'" "reaches t = reaches t'"
    by (simp_all add: fun_eq_iff probe_def dt_index_def reaches_def assms(1))
  moreover have "slot_of P B i = slot_of P' B' i" if "i \<in> I" for i using assms(2,3) that by (simp add: slot_of_def)
  ultimately show ?thesis using assms by (simp add: table_ok_def cong: ball_cong bex_cong)
qed

text \<open>\<open>paths ! i\<close> is the path of node \<open>i\<close>; \<open>par\<close> lists the parents.\<close>

definition node_label :: "string list list \<Rightarrow> nat \<Rightarrow> u8 list" where
  "node_label paths i = bytes_of (last (paths ! i))"

definition paths_ok :: "nat list \<Rightarrow> string list list \<Rightarrow> bool" where
  "paths_ok par paths \<longleftrightarrow>
     length par = length paths \<and> paths \<noteq> [] \<and> length paths \<le> 2 ^ 28 \<and> paths ! 0 = [] \<and> distinct paths \<and>
     (\<forall>i. 0 < i \<and> i < length paths \<longrightarrow> par ! i < i \<and> paths ! i = paths ! (par ! i) @ [last (paths ! i)])"

definition trie_rep :: "'a domainTrie_scheme \<Rightarrow> nat list \<Rightarrow> string list list \<Rightarrow> bool" where
  "trie_rep t par paths \<longleftrightarrow>
     paths_ok par paths \<and> length (dt_nodes t) = length paths \<and>
     (\<forall>i \<in> {1..<length paths}. labelAt t i = Some (node_label paths i)) \<and>
     table_ok t ((!) par) (node_label paths) {1..<length paths}"

lemma paths_okD:
  assumes "paths_ok par paths" "0 < i" "i < length paths"
  shows "par ! i < i" "paths ! i = paths ! (par ! i) @ [last (paths ! i)]"
  using assms unfolding paths_ok_def by blast+

lemma paths_closed:
  assumes "paths_ok par paths" "q @ [l] \<in> set paths"
  shows "q \<in> set paths"
proof -
  obtain i where i: "i < length paths" "paths ! i = q @ [l]" using assms(2) by (metis in_set_conv_nth)
  have "i \<noteq> 0"
  proof
    assume "i = 0"
    with i assms(1) show False by (simp add: paths_ok_def)
  qed
  with paths_okD [OF assms(1) _ i(1)] have "par ! i < length paths" "paths ! (par ! i) = q" using i by auto
  then show ?thesis by (metis nth_mem)
qed

lemma child_iff:
  assumes "paths_ok par paths" "p < length paths" "i \<in> {1..<length paths}"
  shows "par ! i = p \<and> node_label paths i = bytes_of l \<longleftrightarrow> paths ! i = paths ! p @ [l]"
proof -
  have i: "0 < i" "i < length paths" using assms(3) by auto
  note d = paths_okD [OF assms(1) i]
  have "distinct paths" using assms(1) by (simp add: paths_ok_def)
  then have "paths ! (par ! i) = paths ! p \<longleftrightarrow> par ! i = p" using assms(2) i d(1) by (simp add: nth_eq_iff_index_eq)
  with d(2) show ?thesis unfolding node_label_def by (metis append1_eq_conv bytes_of_inj last_snoc)
qed

lemma trieFind_path:
  assumes "trie_rep t par paths" "p < length paths"
  shows "\<exists>r. trieFind t p (bytes_of l) = Some r \<and>
    (case r of None \<Rightarrow> paths ! p @ [l] \<notin> set paths | Some i \<Rightarrow> i < length paths \<and> paths ! i = paths ! p @ [l])"
proof -
  have ok: "paths_ok par paths" and tab: "table_ok t ((!) par) (node_label paths) {1..<length paths}"
    and lab: "\<And>i. i \<in> {1..<length paths} \<Longrightarrow> labelAt t i = Some (node_label paths i)"
    using assms(1) by (auto simp: trie_rep_def)
  have "p < 2 ^ 28" using ok assms(2) by (auto simp: paths_ok_def)
  from trieFind_get [OF tab lab this] obtain r where
    r: "trieFind t p (bytes_of l) = Some r" "table_get ((!) par) (node_label paths) {1..<length paths} p (bytes_of l) r" by blast
  have none: "paths ! p @ [l] \<notin> set paths" if "r = None"
  proof
    assume "paths ! p @ [l] \<in> set paths"
    then obtain i where i: "i < length paths" "paths ! i = paths ! p @ [l]" by (metis in_set_conv_nth)
    have "i \<noteq> 0"
    proof
      assume "i = 0"
      with i(2) ok show False by (simp add: paths_ok_def)
    qed
    with i(1) have mem: "i \<in> {1..<length paths}" by simp
    have "par ! i = p \<and> node_label paths i = bytes_of l" using child_iff [OF ok assms(2) mem] i(2) by blast
    with r(2) that mem show False unfolding table_get_def by force
  qed
  moreover have "i < length paths \<and> paths ! i = paths ! p @ [l]" if "r = Some i" for i
    using r(2) that child_iff [OF ok assms(2), of i l] by (auto simp: table_get_def)
  ultimately show ?thesis using r(1) by (auto split: option.splits)
qed

section \<open>Labels and rebuilding\<close>

lemma labelAt_mono:
  assumes "labelAt t i = Some l" "length (dt_nodes t) \<le> length (dt_nodes t')" "dt_blob t' = dt_blob t @ x"
    "dn_label (dt_nodes t' ! i) = dn_label (dt_nodes t ! i)" "dn_length (dt_nodes t' ! i) = dn_length (dt_nodes t ! i)"
  shows "labelAt t' i = Some l"
  using assms by (auto simp: labelAt_def Let_def split: if_splits)

lemma labelAt_slots: "labelAt (t\<lparr>dt_slots := ss\<rparr>) i = labelAt t i"
  by (simp add: labelAt_def Let_def)

lemma rebuild_loop_ok:
  "table_ok b P B {1..<k} \<Longrightarrow> 1 \<le> k \<Longrightarrow> k \<le> n \<Longrightarrow> n \<le> length (dt_slots b) \<Longrightarrow> n \<le> 2 ^ 28 \<Longrightarrow>
   (\<And>i. i \<in> {1..<n} \<Longrightarrow> labelAt b i = Some (B i) \<and> db_parents b ! i = P i \<and> P i < 2 ^ 28) \<Longrightarrow>
   \<exists>ss. rebuild_loop b [k..<n] = Some (b\<lparr>dt_slots := ss\<rparr>) \<and> length ss = length (dt_slots b) \<and>
     table_ok (b\<lparr>dt_slots := ss\<rparr>) P B {1..<n}"
proof (induction "n - k" arbitrary: k b)
  case 0
  then show ?case by (auto intro!: exI [of _ "dt_slots b"])
next
  case (Suc m)
  then have k: "k < n" by simp
  then have mem: "k \<in> {1..<n}" using Suc.prems(2) by simp
  have "Suc (card {1..<k}) < length (dt_slots b)" using k Suc.prems(2,4) by simp
  then obtain b' ss where add: "trieAdd b (P k) (B k) k = Some b'" "table_ok b' P B (insert k {1..<k})"
    "length (dt_slots b') = length (dt_slots b)" "b' = b\<lparr>dt_slots := ss\<rparr>"
    using trieAdd_ok [OF Suc.prems(1), of k] Suc.prems(2,5,6) mem k by fastforce
  have "insert k {1..<k} = {1..<Suc k}" using Suc.prems(2) by auto
  with add(2) have "table_ok b' P B {1..<Suc k}" by simp
  then have "\<exists>ss. rebuild_loop b' [Suc k..<n] = Some (b'\<lparr>dt_slots := ss\<rparr>) \<and> length ss = length (dt_slots b') \<and>
     table_ok (b'\<lparr>dt_slots := ss\<rparr>) P B {1..<n}"
    using Suc.hyps(2) Suc.prems k add(3,4) by (intro Suc.hyps(1)) (simp_all add: labelAt_slots)
  moreover have "rebuild_loop b [k..<n] = rebuild_loop b' [Suc k..<n]"
    using Suc.prems(6) [OF mem] add(1) k by (simp add: upt_conv_Cons)
  ultimately show ?case using add(3,4) by auto
qed

lemma table_ok_empty: "0 < sz \<Longrightarrow> dt_slots t = replicate sz 0 \<Longrightarrow> table_ok t P B {}"
  by (simp add: table_ok_def)

lemma rebuild_rep:
  assumes "paths_ok (db_parents b) paths" "length (dt_nodes b) = length paths"
    "\<forall>i \<in> {1..<length paths}. labelAt b i = Some (node_label paths i)" "length paths \<le> sz"
  shows "\<exists>ss. rebuild sz b = Some (b\<lparr>dt_slots := ss\<rparr>) \<and> length ss = sz \<and> trie_rep (b\<lparr>dt_slots := ss\<rparr>) (db_parents b) paths"
proof -
  let ?b = "b\<lparr>dt_slots := replicate sz 0\<rparr>"
  have n: "1 \<le> length paths" "length paths \<le> 2 ^ 28" using assms(1) by (auto simp: paths_ok_def Suc_le_eq)
  have "table_ok ?b ((!) (db_parents b)) (node_label paths) {1..<1}"
    using n(1) assms(4) table_ok_empty [of sz ?b] by simp
  moreover have "labelAt ?b i = Some (node_label paths i) \<and> db_parents ?b ! i = db_parents b ! i \<and> db_parents b ! i < 2 ^ 28"
    if "i \<in> {1..<length paths}" for i
    using that assms(3) paths_okD(1) [OF assms(1), of i] n(2) by (auto simp: labelAt_slots)
  ultimately obtain ss where "rebuild_loop ?b [1..<length paths] = Some (?b\<lparr>dt_slots := ss\<rparr>)" "length ss = sz"
    "table_ok (?b\<lparr>dt_slots := ss\<rparr>) ((!) (db_parents b)) (node_label paths) {1..<length paths}"
    using rebuild_loop_ok [of ?b "(!) (db_parents b)" "node_label paths" 1 "length paths"] n assms(4) by auto
  then show ?thesis using assms(1-3) by (auto simp: rebuild_def trie_rep_def labelAt_slots)
qed


section \<open>The builder\<close>

text \<open>\<open>F\<close> gives the rule flags of a path; a node with children has one more flag.\<close>

definition has_kid :: "string list list \<Rightarrow> string list \<Rightarrow> bool" where
  "has_kid paths q \<longleftrightarrow> (\<exists>l. q @ [l] \<in> set paths)"

definition flags_rep :: "'a domainTrie_scheme \<Rightarrow> string list list \<Rightarrow> (string list \<Rightarrow> u8) \<Rightarrow> bool" where
  "flags_rep t paths F \<longleftrightarrow>
     (\<forall>i < length paths. dn_flags (dt_nodes t ! i) = F (paths ! i) OR (if has_kid paths (paths ! i) then ruleHasChildren else 0)) \<and>
     (\<forall>q. q \<notin> set paths \<longrightarrow> F q = 0)"

definition builder_rep :: "domainBuilder \<Rightarrow> string list list \<Rightarrow> (string list \<Rightarrow> u8) \<Rightarrow> bool" where
  "builder_rep b paths F \<longleftrightarrow>
     trie_rep b (db_parents b) paths \<and> flags_rep b paths F \<and> length paths * 3 \<le> length (dt_slots b) * 2"

text \<open>A new node for the label \<open>l\<close> under \<open>p\<close>.\<close>

definition add_node :: "domainBuilder \<Rightarrow> nat \<Rightarrow> string \<Rightarrow> domainBuilder" where
  "add_node b p l =
     or_flags p ruleHasChildren
       (b\<lparr>dt_nodes := dt_nodes b @
            [\<lparr>dn_label = (if length l \<le> domainInlineLabel then bytes_of l @ replicate (6 - length l) 0
                          else rev (PutUint32 (of_nat (length (dt_blob b)))) @ [0, 0]),
              dn_length = of_nat (length l), dn_flags = 0\<rparr>],
          dt_blob := (if length l \<le> domainInlineLabel then dt_blob b else dt_blob b @ bytes_of l),
          db_parents := db_parents b @ [p]\<rparr>)"

lemma add_node_simps:
  assumes "p < length (dt_nodes b)"
  shows "length (dt_nodes (add_node b p l)) = Suc (length (dt_nodes b))" "dt_slots (add_node b p l) = dt_slots b"
    "db_parents (add_node b p l) = db_parents b @ [p]"
    "\<exists>x. dt_blob (add_node b p l) = dt_blob b @ x \<and> length x \<le> length l"
    "i < length (dt_nodes b) \<Longrightarrow> dn_label (dt_nodes (add_node b p l) ! i) = dn_label (dt_nodes b ! i)"
    "i < length (dt_nodes b) \<Longrightarrow> dn_length (dt_nodes (add_node b p l) ! i) = dn_length (dt_nodes b ! i)"
    "i < length (dt_nodes b) \<Longrightarrow> dn_flags (dt_nodes (add_node b p l) ! i) =
       dn_flags (dt_nodes b ! i) OR (if i = p then ruleHasChildren else 0)"
    "dn_flags (dt_nodes (add_node b p l) ! length (dt_nodes b)) = 0"
  using assms by (auto simp: add_node_def or_flags_def nth_append nth_list_update)

lemma labelAt_add_node:
  assumes "p < length (dt_nodes b)" "length l \<le> 63" "length (dt_blob b) + length l < 2 ^ 32"
  shows "labelAt (add_node b p l) (length (dt_nodes b)) = Some (bytes_of l)"
proof -
  have len: "unat (of_nat (length l) :: u8) = length l" using assms(2) by (simp add: unat_of_nat)
  have off: "unat (of_nat (length (dt_blob b)) :: u32) = length (dt_blob b)"
    using assms(3) by (simp add: unat_of_nat)
  have node: "dt_nodes (add_node b p l) ! length (dt_nodes b) =
     \<lparr>dn_label = (if length l \<le> domainInlineLabel then bytes_of l @ replicate (6 - length l) 0
                  else rev (PutUint32 (of_nat (length (dt_blob b)))) @ [0, 0]),
      dn_length = of_nat (length l), dn_flags = 0\<rparr>"
    using assms(1) by (simp add: add_node_def or_flags_def nth_append nth_list_update)
  have blob: "dt_blob (add_node b p l) = (if length l \<le> domainInlineLabel then dt_blob b else dt_blob b @ bytes_of l)"
    by (simp add: add_node_def or_flags_def)
  show ?thesis
    using add_node_simps(1) [OF assms(1), of l] assms(3) by (simp add: labelAt_def node blob len off Let_def)
qed

lemma paths_ok_snoc:
  assumes "paths_ok par paths" "p < length paths" "paths ! p @ [l] \<notin> set paths" "length paths < 2 ^ 28"
  shows "paths_ok (par @ [p]) (paths @ [paths ! p @ [l]])"
proof -
  let ?x = "paths ! p @ [l]"
  have par: "length par = length paths" using assms(1) by (simp add: paths_ok_def)
  have "(par @ [p]) ! i < i \<and> (paths @ [?x]) ! i = (paths @ [?x]) ! ((par @ [p]) ! i) @ [last ((paths @ [?x]) ! i)]"
    if i: "0 < i" "i < Suc (length paths)" for i
  proof (cases "i = length paths")
    case True
    with par assms(2) show ?thesis by (simp add: nth_append)
  next
    case False
    with i have "i < length paths" by simp
    with paths_okD [OF assms(1) i(1) this] par show ?thesis by (simp add: nth_append)
  qed
  with assms show ?thesis by (auto simp: paths_ok_def nth_append)
qed

lemma builder_child_new:
  assumes rep: "builder_rep b paths F" and p: "p < length paths" and new: "paths ! p @ [l] \<notin> set paths"
    and l: "length l \<le> 63" and blob: "length (dt_blob b) + length l < 2 ^ 32" and room: "length paths < 2 ^ 28"
    and slots: "(length paths + 1) * 3 \<le> length (dt_slots b) * 2"
  shows "\<exists>b'. trieAdd (add_node b p l) p (bytes_of l) (length (dt_nodes b)) = Some b' \<and>
    builder_rep b' (paths @ [paths ! p @ [l]]) F \<and> length (dt_blob b') \<le> length (dt_blob b) + length l"
proof -
  let ?b = "add_node b p l" and ?ps = "paths @ [paths ! p @ [l]]" and ?n = "length paths"
  have ok: "paths_ok (db_parents b) paths" and n: "length (dt_nodes b) = ?n"
    and lab: "\<forall>i \<in> {1..<?n}. labelAt b i = Some (node_label paths i)"
    and tab: "table_ok b ((!) (db_parents b)) (node_label paths) {1..<?n}"
    using rep by (auto simp: builder_rep_def trie_rep_def)
  have fl: "\<And>i. i < ?n \<Longrightarrow> dn_flags (dt_nodes b ! i) = F (paths ! i) OR (if has_kid paths (paths ! i) then ruleHasChildren else 0)"
    "\<And>q. q \<notin> set paths \<Longrightarrow> F q = 0"
    using rep by (auto simp: builder_rep_def flags_rep_def)
  have p': "p < length (dt_nodes b)" using p n by simp
  note simps = add_node_simps(1-4,8) [OF p', of l]
  note old = add_node_simps(5-7) [OF p', of _ l]
  have par: "length (db_parents b) = ?n" "0 < ?n" "distinct paths" using ok by (auto simp: paths_ok_def)
  have ok': "paths_ok (db_parents ?b) ?ps" using paths_ok_snoc [OF ok p new room] simps(3) by simp
  have nl: "node_label ?ps i = node_label paths i" if "i < ?n" for i using that by (simp add: node_label_def nth_append)
  have nln: "node_label ?ps ?n = bytes_of l" by (simp add: node_label_def)
  have labels: "labelAt ?b i = Some (node_label ?ps i)" if "i \<in> {1..<Suc ?n}" for i
  proof (cases "i = ?n")
    case True
    then show ?thesis using labelAt_add_node [OF p' l blob] n nln by simp
  next
    case False
    with that have i: "i \<in> {1..<?n}" by auto
    obtain x where "dt_blob ?b = dt_blob b @ x" using simps(4) by blast
    then show ?thesis
      using labelAt_mono [of b i "node_label paths i" ?b x] lab i simps(1) old(1,2) n nl by auto
  qed
  have tab': "table_ok ?b ((!) (db_parents ?b)) (node_label ?ps) {1..<?n}"
    using tab table_ok_cong [of b ?b "{1..<?n}" "(!) (db_parents b)" "(!) (db_parents ?b)" "node_label paths" "node_label ?ps"]
      simps(2,3) nl par(1) by (simp add: nth_append)
  have Pn: "db_parents ?b ! ?n = p" using simps(3) par(1) by (simp add: nth_append)
  have "Suc (card {1..<?n}) < length (dt_slots ?b)" using slots par(2) simps(2) by simp
  then obtain b' ss where add: "trieAdd ?b (db_parents ?b ! ?n) (node_label ?ps ?n) ?n = Some b'"
    "table_ok b' ((!) (db_parents ?b)) (node_label ?ps) (insert ?n {1..<?n})" "b' = ?b\<lparr>dt_slots := ss\<rparr>"
    "length (dt_slots b') = length (dt_slots ?b)"
    using trieAdd_ok [OF tab', of ?n] par(2) room Pn p by auto
  have "insert ?n {1..<?n} = {1..<Suc ?n}" using par(2) by (simp add: atLeastLessThanSuc Suc_le_eq)
  with add(2) have "table_ok b' ((!) (db_parents b')) (node_label ?ps) {1..<Suc ?n}" by (simp add: add(3))
  moreover have "\<forall>i \<in> {1..<Suc ?n}. labelAt b' i = Some (node_label ?ps i)" using labels by (simp add: add(3) labelAt_slots)
  ultimately have trie: "trie_rep b' (db_parents b') ?ps"
    using ok' simps(1) n by (simp add: trie_rep_def add(3))
  have kid: "has_kid ?ps q \<longleftrightarrow> has_kid paths q \<or> q = paths ! p" for q by (auto simp: has_kid_def)
  have "\<not> has_kid ?ps (paths ! p @ [l])" using new paths_closed [OF ok] kid by (auto simp: has_kid_def)
  moreover have "paths ! i = paths ! p \<longleftrightarrow> i = p" if "i < ?n" for i
    using that p par(3) by (simp add: nth_eq_iff_index_eq)
  ultimately have flags: "flags_rep b' ?ps F"
    using fl simps(5) old(3) n new kid
    by (auto simp: flags_rep_def add(3) nth_append less_Suc_eq or.assoc)
  obtain x where "dt_blob ?b = dt_blob b @ x" "length x \<le> length l" using simps(4) by blast
  then have "length (dt_blob b') \<le> length (dt_blob b) + length l" by (simp add: add(3))
  moreover have "builder_rep b' ?ps F"
    using trie flags slots simps(2) add(4) by (simp add: builder_rep_def)
  ultimately show ?thesis using add(1) Pn nln n by auto
qed

lemma builder_child_eq:
  "builder_child b p l =
     (case trieFind b p (bytes_of l) of
        None \<Rightarrow> None
      | Some (Some node) \<Rightarrow> Some (Inr (node, b))
      | Some None \<Rightarrow>
          if maxDomainNodes \<le> length (dt_nodes b) then Some (Inl (ErrOther ''labels''))
          else (case (if length (dt_slots b) * 2 < (length (dt_nodes b) + 1) * 3
                      then rebuild (length (dt_slots b) * 2) b else Some b) of
                  None \<Rightarrow> None
                | Some b1 \<Rightarrow> map_option (\<lambda>b'. Inr (length (dt_nodes b1), b'))
                     (trieAdd (add_node b1 p l) p (bytes_of l) (length (dt_nodes b1)))))"
  by (auto simp: builder_child_def add_node_def Let_def map_conv_bind_option comp_def split: option.splits)

lemma builder_child_ok:
  assumes rep: "builder_rep b paths F" and p: "p < length paths" and l: "length l \<le> 63" and blob: "length (dt_blob b) + length l < 2 ^ 32"
  shows "\<exists>r. builder_child b p l = Some r \<and>
    (\<forall>i b'. r = Inr (i, b') \<longrightarrow> (\<exists>paths'. builder_rep b' paths' F \<and> set paths' = insert (paths ! p @ [l]) (set paths) \<and>
       i < length paths' \<and> paths' ! i = paths ! p @ [l] \<and> length (dt_blob b') \<le> length (dt_blob b) + length l))"
proof -
  have trie: "trie_rep b (db_parents b) paths" using rep by (simp add: builder_rep_def)
  then have n: "length (dt_nodes b) = length paths" and ok: "paths_ok (db_parents b) paths" by (auto simp: trie_rep_def)
  from trieFind_path [OF trie p, of l] obtain r where r: "trieFind b p (bytes_of l) = Some r"
    "case r of None \<Rightarrow> paths ! p @ [l] \<notin> set paths | Some i \<Rightarrow> i < length paths \<and> paths ! i = paths ! p @ [l]" by blast
  show ?thesis
  proof (cases r)
    case (Some i)
    with r have "i < length paths" "paths ! i = paths ! p @ [l]" by simp_all
    then have "insert (paths ! p @ [l]) (set paths) = set paths" by (metis insert_absorb nth_mem)
    with r Some rep show ?thesis by (auto simp: builder_child_eq)
  next
    case None
    with r(2) have new: "paths ! p @ [l] \<notin> set paths" by simp
    show ?thesis
    proof (cases "maxDomainNodes \<le> length (dt_nodes b)")
      case True
      with r None show ?thesis by (simp add: builder_child_eq)
    next
      case False
      then have room: "length paths < 2 ^ 28" using n by simp
      let ?grow = "length (dt_slots b) * 2 < (length (dt_nodes b) + 1) * 3"
      have m: "length paths * 3 \<le> length (dt_slots b) * 2" "0 < length paths"
        using rep ok by (auto simp: builder_rep_def paths_ok_def)
      have "\<exists>ss. (if ?grow then rebuild (length (dt_slots b) * 2) b else Some b) = Some (b\<lparr>dt_slots := ss\<rparr>) \<and>
          builder_rep (b\<lparr>dt_slots := ss\<rparr>) paths F \<and> (length paths + 1) * 3 \<le> length ss * 2"
      proof (cases ?grow)
        case True
        from rebuild_rep [OF ok n, of "length (dt_slots b) * 2"] trie m(1) obtain ss where
          "rebuild (length (dt_slots b) * 2) b = Some (b\<lparr>dt_slots := ss\<rparr>)" "length ss = length (dt_slots b) * 2"
          "trie_rep (b\<lparr>dt_slots := ss\<rparr>) (db_parents b) paths" by (auto simp: trie_rep_def)
        moreover have "(length paths + 1) * 3 \<le> length (dt_slots b) * 2 * 2" using m by arith
        ultimately show ?thesis
          using rep True by (intro exI [of _ ss]) (auto simp: builder_rep_def flags_rep_def)
      next
        case False
        with rep n show ?thesis by (intro exI [of _ "dt_slots b"]) simp
      qed
      then obtain ss where ss: "(if ?grow then rebuild (length (dt_slots b) * 2) b else Some b) = Some (b\<lparr>dt_slots := ss\<rparr>)"
        "builder_rep (b\<lparr>dt_slots := ss\<rparr>) paths F" "(length paths + 1) * 3 \<le> length ss * 2" by blast
      from builder_child_new [OF ss(2) p new l _ room] ss(3) blob obtain b' where
        b': "trieAdd (add_node (b\<lparr>dt_slots := ss\<rparr>) p l) p (bytes_of l) (length (dt_nodes b)) = Some b'"
        "builder_rep b' (paths @ [paths ! p @ [l]]) F" "length (dt_blob b') \<le> length (dt_blob b) + length l" by auto
      have "builder_child b p l = Some (Inr (length paths, b'))"
        using r None False ss(1) b'(1) n by (simp add: builder_child_eq)
      with b'(2,3) show ?thesis by (auto intro!: exI [of _ "paths @ [paths ! p @ [l]]"])
    qed
  qed
qed

lemma add_path_ok:
  "builder_rep b paths F \<Longrightarrow> n < length paths \<Longrightarrow> (\<forall>l \<in> set (domain_labels s). length l \<le> 63) \<Longrightarrow>
   length (dt_blob b) + length s < 2 ^ 32 \<Longrightarrow>
   \<exists>r. add_path b n s = Some r \<and>
     (\<forall>i b'. r = Inr (i, b') \<longrightarrow> (\<exists>paths'. builder_rep b' paths' F \<and>
        set paths' = set paths \<union> {paths ! n @ q | q. prefix q (domain_labels s)} \<and>
        i < length paths' \<and> paths' ! i = paths ! n @ domain_labels s \<and> length (dt_blob b') \<le> length (dt_blob b) + length s))"
proof (induction b n s arbitrary: paths rule: add_path.induct)
  case (1 b n s)
  have base: "set paths \<union> {paths ! n @ q | q. prefix q [l]} = insert (paths ! n @ [l]) (set paths)" for l
    using "1.prems"(2) by (auto simp: prefix_Cons)
  show ?case
  proof (cases "last_index CHR ''.'' s")
    case None
    then have lab: "domain_labels s = [s]" "add_path b n s = builder_child b n s"
      by (simp_all add: domain_labels.simps [of s] add_path.simps [of b n s])
    show ?thesis unfolding lab(2) unfolding lab(1) base
      using builder_child_ok [OF "1.prems"(1,2), of s] "1.prems"(3,4) lab(1) by auto
  next
    case (Some i)
    have i: "i < length s" using last_index_Some [OF Some] by simp
    let ?l = "drop (Suc i) s"
    have l: "length ?l \<le> 63" "length (dt_blob b) + length ?l < 2 ^ 32"
      using "1.prems"(3,4) Some by (simp_all add: domain_labels.simps [of s])
    from builder_child_ok [OF "1.prems"(1,2) l] obtain r where r: "builder_child b n ?l = Some r"
      "\<And>j b'. r = Inr (j, b') \<Longrightarrow> (\<exists>paths'. builder_rep b' paths' F \<and> set paths' = insert (paths ! n @ [?l]) (set paths) \<and>
       j < length paths' \<and> paths' ! j = paths ! n @ [?l] \<and> length (dt_blob b') \<le> length (dt_blob b) + length ?l)" by blast
    show ?thesis
    proof (cases r)
      case (Inl e)
      with r Some show ?thesis by (simp add: add_path.simps [of b n s])
    next
      case (Inr p)
      then obtain j b1 where p: "r = Inr (j, b1)" by (cases p) auto
      with r(2) obtain paths1 where p1: "builder_rep b1 paths1 F" "set paths1 = insert (paths ! n @ [?l]) (set paths)"
        "j < length paths1" "paths1 ! j = paths ! n @ [?l]" "length (dt_blob b1) \<le> length (dt_blob b) + length ?l" by blast
      show ?thesis
      proof (cases "i = 0")
        case True
        then have "domain_labels s = [?l]" "add_path b n s = Some (Inr (j, b1))"
          using Some r(1) p by (simp_all add: domain_labels.simps [of s] add_path.simps [of b n s])
        with p1 base [of ?l] show ?thesis by (intro exI [of _ "Inr (j, b1)"]) auto
      next
        case False
        then have lab: "domain_labels s = ?l # domain_labels (take i s)" "add_path b n s = add_path b1 j (take i s)"
          using Some r(1) p by (simp_all add: domain_labels.simps [of s] add_path.simps [of b n s])
        have bound: "length (dt_blob b1) + length (take i s) \<le> length (dt_blob b) + length s" using p1(5) i by simp
        have "\<exists>r. add_path b1 j (take i s) = Some r \<and>
           (\<forall>k b'. r = Inr (k, b') \<longrightarrow> (\<exists>paths'. builder_rep b' paths' F \<and>
              set paths' = set paths1 \<union> {paths1 ! j @ q | q. prefix q (domain_labels (take i s))} \<and>
              k < length paths' \<and> paths' ! k = paths1 ! j @ domain_labels (take i s) \<and>
              length (dt_blob b') \<le> length (dt_blob b1) + length (take i s)))"
          using "1.prems"(3,4) lab(1) bound
          by (intro "1.IH" [OF Some r(1) p refl False p1(1,3)]) auto
        moreover have "set paths1 \<union> {paths1 ! j @ q | q. prefix q (domain_labels (take i s))} =
           set paths \<union> {paths ! n @ q | q. prefix q (domain_labels s)}"
          using "1.prems"(2) unfolding p1(2,4) lab(1) by (auto simp: prefix_Cons)
        ultimately show ?thesis using bound unfolding p1(4) lab by fastforce
      qed
    qed
  qed
qed

section \<open>Rules\<close>

text \<open>The builder after the rules \<open>RS\<close>.\<close>

definition rules_rep :: "domain_rules \<Rightarrow> string list list \<Rightarrow> (string list \<Rightarrow> u8) \<Rightarrow> bool" where
  "rules_rep RS paths F \<longleftrightarrow>
     rules_ok RS \<and> set paths = insert [] {q. node_exists RS q} \<and>
     (\<forall>q. \<forall>f \<in> {ruleExact, ruleApexSub, ruleSubOnly}. F q AND f \<noteq> 0 \<longleftrightarrow> (q, f) \<in> set RS) \<and>
     (\<forall>q. F q AND ruleHasChildren = 0)"

lemma or_and_0: "(a OR b) AND c = 0 \<longleftrightarrow> a AND c = 0 \<and> b AND c = 0" for a b c :: u8
  by (simp add: bit.conj_disj_distrib2 or_eq_0_iff)

lemma flag_bits:
  "f \<in> {1, 2, 4} \<Longrightarrow> g \<in> {1, 2, 4} \<Longrightarrow> f AND g = 0 \<longleftrightarrow> f \<noteq> g" "f \<in> {1, 2, 4} \<Longrightarrow> f AND 8 = 0"
  "f \<in> {1, 2, 4} \<Longrightarrow> 8 AND f = 0" for f g :: u8
  by auto

lemma strict_prefix_snoc: "strict_prefix q p \<longleftrightarrow> (\<exists>l. prefix (q @ [l]) p)"
proof
  assume "strict_prefix q p"
  then show "\<exists>l. prefix (q @ [l]) p" by (rule strict_prefixE') (auto simp: prefix_def)
qed (auto simp: prefix_def strict_prefix_def)

lemma rules_rep_exact:
  assumes "rules_rep RS paths F"
  shows "flags_exact RS q (F q OR (if has_kid paths q then ruleHasChildren else 0))"
proof -
  have kid: "has_kid paths q \<longleftrightarrow> (\<exists>r \<in> set RS. strict_prefix q (fst r))"
  proof -
    have "has_kid paths q \<longleftrightarrow> (\<exists>l. node_exists RS (q @ [l]))" using assms by (auto simp: has_kid_def rules_rep_def)
    also have "\<dots> \<longleftrightarrow> (\<exists>r \<in> set RS. strict_prefix q (fst r))"
      unfolding node_exists_def strict_prefix_snoc by blast
    finally show ?thesis .
  qed
  have F: "\<forall>f \<in> {ruleExact, ruleApexSub, ruleSubOnly}. F q AND f \<noteq> 0 \<longleftrightarrow> (q, f) \<in> set RS" "F q AND ruleHasChildren = 0"
    using assms by (auto simp: rules_rep_def)
  show ?thesis unfolding flags_exact_def or_and_0 kid [symmetric] using F by (auto simp: flag_bits)
qed

lemma rules_rep_add:
  assumes "rules_rep RS paths F" "f \<in> {ruleExact, ruleApexSub, ruleSubOnly}" "P \<noteq> []"
    "set paths' = set paths \<union> {q. prefix q P}"
  shows "rules_rep (RS @ [(P, f)]) paths' (F(P := F P OR f))"
  unfolding rules_rep_def
proof (intro conjI allI ballI)
  show "rules_ok (RS @ [(P, f)])" using assms by (auto simp: rules_rep_def rules_ok_def)
  show "set paths' = insert [] {q. node_exists (RS @ [(P, f)]) q}"
    using assms(1,4) by (auto simp: rules_rep_def node_exists_def)
  show "(F(P := F P OR f)) q AND g \<noteq> 0 \<longleftrightarrow> (q, g) \<in> set (RS @ [(P, f)])" if "g \<in> {ruleExact, ruleApexSub, ruleSubOnly}" for q g
    using that assms(1) flag_bits(1) [OF assms(2) that] by (auto simp: rules_rep_def or_and_0)
  show "(F(P := F P OR f)) q AND ruleHasChildren = 0" for q
    using assms(1) flag_bits(2) [OF assms(2)] by (auto simp: rules_rep_def or_and_0)
qed

lemma or_flags_rep:
  assumes "builder_rep b paths F" "i < length paths"
  shows "builder_rep (or_flags i f b) paths (F(paths ! i := F (paths ! i) OR f))"
proof -
  have n: "length (dt_nodes b) = length paths" "distinct paths" using assms(1) by (auto simp: builder_rep_def trie_rep_def paths_ok_def)
  have "labelAt (or_flags i f b) j = labelAt b j" for j
    using assms(2) n by (cases "j = i") (simp_all add: labelAt_def or_flags_def Let_def)
  moreover have "dt_slots (or_flags i f b) = dt_slots b" "db_parents (or_flags i f b) = db_parents b"
    "length (dt_nodes (or_flags i f b)) = length (dt_nodes b)" by (simp_all add: or_flags_def)
  ultimately have "trie_rep (or_flags i f b) (db_parents (or_flags i f b)) paths"
    using assms(1) table_ok_cong [of "or_flags i f b" b "{1..<length paths}" "(!) (db_parents b)" "(!) (db_parents b)"]
    by (simp add: builder_rep_def trie_rep_def)
  moreover have "flags_rep (or_flags i f b) paths (F(paths ! i := F (paths ! i) OR f))"
  proof -
    have "paths ! j = paths ! i \<longleftrightarrow> j = i" if "j < length paths" for j
      using that assms(2) n(2) by (simp add: nth_eq_iff_index_eq)
    then show ?thesis
      using assms n by (auto simp: builder_rep_def flags_rep_def or_flags_def nth_list_update or.assoc or.commute or.left_commute)
  qed
  moreover have "dt_slots (or_flags i f b) = dt_slots b" by (simp add: or_flags_def)
  ultimately show ?thesis using assms(1) by (simp add: builder_rep_def)
qed

lemma domain_labels_not_Nil [simp]: "domain_labels s \<noteq> []"
  by (subst domain_labels.simps) (simp split: option.splits)

lemma record_rule_ok:
  assumes "builder_rep b paths F" "rules_rep RS paths F" "f \<in> {ruleExact, ruleApexSub, ruleSubOnly}"
    "\<forall>l \<in> set (domain_labels d). length l \<le> 63" "length (dt_blob b) + length d < 2 ^ 32" "record_rule d f b = (None, b')"
  shows "\<exists>paths' F'. builder_rep b' paths' F' \<and> rules_rep (RS @ [(domain_labels d, f)]) paths' F' \<and>
    length (dt_blob b') \<le> length (dt_blob b) + length d"
proof -
  have root: "0 < length paths" "paths ! 0 = []" using assms(1) by (auto simp: builder_rep_def trie_rep_def paths_ok_def)
  from add_path_ok [OF assms(1) root(1) assms(4,5)] assms(6) obtain i b1 paths' where
    a: "add_path b 0 d = Some (Inr (i, b1))" "builder_rep b1 paths' F"
      "set paths' = set paths \<union> {paths ! 0 @ q | q. prefix q (domain_labels d)}" "i < length paths'"
      "paths' ! i = paths ! 0 @ domain_labels d" "length (dt_blob b1) \<le> length (dt_blob b) + length d"
    by (auto simp: record_rule_def split: option.splits sum.splits prod.splits)
  have b': "b' = or_flags i f b1" using assms(6) a(1) by (simp add: record_rule_def)
  have "builder_rep b' paths' (F(domain_labels d := F (domain_labels d) OR f))"
    using or_flags_rep [OF a(2,4), of f] a(5) root(2) b' by simp
  moreover have "rules_rep (RS @ [(domain_labels d, f)]) paths' (F(domain_labels d := F (domain_labels d) OR f))"
    using rules_rep_add [OF assms(2,3)] a(3) root(2) by simp
  moreover have "length (dt_blob b') \<le> length (dt_blob b) + length d" using a(6) b' by (simp add: or_flags_def)
  ultimately show ?thesis by blast
qed

section \<open>The rules of a list\<close>

lemma Split_snoc: "d \<notin> set t \<Longrightarrow> Split d (s @ d # t) = Split d s @ [t]"
proof (induction s)
  case Nil
  then show ?case by (simp add: Split_single)
next
  case (Cons c s)
  then show ?case by (cases "Split d s") auto
qed

lemma domain_labels_Split: "set (domain_labels s) \<subseteq> set (Split CHR ''.'' s)"
proof (induction s rule: domain_labels.induct)
  case (1 s)
  show ?case
  proof (cases "last_index CHR ''.'' s")
    case None
    moreover from None have "CHR ''.'' \<notin> set s" unfolding last_index_None .
    ultimately show ?thesis by (simp add: domain_labels.simps [of s] Split_single)
  next
    case (Some i)
    note d = last_index_Some [OF Some]
    then have "s = take i s @ CHR ''.'' # drop (Suc i) s" by (metis id_take_nth_drop)
    then have "Split CHR ''.'' s = Split CHR ''.'' (take i s) @ [drop (Suc i) s]"
      using Split_snoc [of "CHR ''.''" "drop (Suc i) s" "take i s"] d by simp
    with 1 Some show ?thesis by (auto simp: domain_labels.simps [of s])
  qed
qed

lemma hasOverlongLabel_Split: "\<not> hasOverlongLabel r \<Longrightarrow> l \<in> set (Split CHR ''.'' r) \<Longrightarrow> length l \<le> 63"
proof (induction r arbitrary: l rule: hasOverlongLabel.induct)
  case (1 r)
  show ?case
  proof (cases "cut CHR ''.'' r")
    case None
    then have "CHR ''.'' \<notin> set r" by (auto simp: cut_def split: if_splits)
    with 1 None show ?thesis by (simp add: hasOverlongLabel.simps [of r] Split_single)
  next
    case (Some p)
    obtain a b where p: "p = (a, b)" by fastforce
    with cut_SomeD Some have r: "r = a @ CHR ''.'' # b" "CHR ''.'' \<notin> set a" by fastforce+
    have "length a \<le> 63" "\<not> hasOverlongLabel b"
      using "1.prems"(1) Some p by (simp_all add: hasOverlongLabel.simps [of r])
    moreover have "Split CHR ''.'' r = a # Split CHR ''.'' b" using r Split_append by simp
    ultimately show ?thesis using "1.IH" [OF Some] p "1.prems"(2) by auto
  qed
qed

lemma HasPrefix_drop: "HasPrefix s p \<Longrightarrow> s = p @ drop (length p) s"
  by (metis HasPrefix_def append_take_drop_id)

lemma domain_rule_ok:
  assumes "domain_rule incl r = Inr (Some (d, f))"
  shows "f \<in> {ruleExact, ruleApexSub, ruleSubOnly}" "length d \<le> length r" "\<forall>l \<in> set (domain_labels d). length l \<le> 63"
proof -
  let ?r = "ToLower (TrimSuffix (TrimSpace r) ''.'')"
  have long: "\<not> hasOverlongLabel ?r"
    using assms by (auto simp: domain_rule_def Let_def split: if_splits)
  have d: "(f = ruleSubOnly \<and> ?r = ''*.'' @ d) \<or> (f = ruleApexSub \<and> ?r = ''.'' @ d) \<or> (f \<in> {ruleExact, ruleApexSub} \<and> ?r = d)"
    using assms HasPrefix_drop [of ?r "''*.''"] HasPrefix_drop [of ?r "''.''"]
    by (auto simp: domain_rule_def Let_def eval_nat_numeral split: if_splits)
  then show "f \<in> {ruleExact, ruleApexSub, ruleSubOnly}" by auto
  have "length ?r \<le> length r"
    using length_dropWhile_le [of is_space "rev (dropWhile is_space r)"] length_dropWhile_le [of is_space r]
    by (auto simp: TrimSuffix_def TrimSpace_def)
  moreover have "length d \<le> length ?r" using d by (auto simp del: length_ToLower)
  ultimately show "length d \<le> length r" by simp
  have "set (Split CHR ''.'' d) \<subseteq> set (Split CHR ''.'' ?r)"
    using d by (auto split: list.splits)
  with domain_labels_Split [of d] hasOverlongLabel_Split [OF long] show "\<forall>l \<in> set (domain_labels d). length l \<le> 63"
    by blast
qed

definition rules_of :: "bool \<Rightarrow> string list \<Rightarrow> domain_rules" where
  "rules_of incl rules = concat (map (\<lambda>r. case domain_rule incl r of Inr (Some (d, f)) \<Rightarrow> [(domain_labels d, f)] | _ \<Rightarrow> []) rules)"

lemma rules_of_snoc:
  "rules_of incl (rules @ [r]) =
     rules_of incl rules @ (case domain_rule incl r of Inr (Some (d, f)) \<Rightarrow> [(domain_labels d, f)] | _ \<Rightarrow> [])"
  by (simp add: rules_of_def)

lemma in_rules_of:
  "(p, f) \<in> set (rules_of incl rules) \<longleftrightarrow>
     (\<exists>r \<in> set rules. \<exists>d. domain_rule incl r = Inr (Some (d, f)) \<and> p = domain_labels d)"
proof (induction rules)
  case (Cons r rules)
  have "set (rules_of incl (r # rules)) =
      (case domain_rule incl r of Inr (Some (d, g)) \<Rightarrow> {(domain_labels d, g)} | _ \<Rightarrow> {}) \<union> set (rules_of incl rules)"
    by (auto simp: rules_of_def split: sum.splits option.splits)
  with Cons show ?case by (cases "domain_rule incl r") (auto split: option.splits)
qed (simp add: rules_of_def)

lemma rules_ok_rules_of: "rules_ok (rules_of incl rules)"
  unfolding rules_ok_def
proof
  fix r assume "r \<in> set (rules_of incl rules)"
  then have "(fst r, snd r) \<in> set (rules_of incl rules)" by simp
  then obtain s d where "domain_rule incl s = Inr (Some (d, snd r))" "fst r = domain_labels d"
    unfolding in_rules_of by blast
  then show "fst r \<noteq> [] \<and> snd r \<in> {ruleExact, ruleApexSub, ruleSubOnly}"
    using domain_rule_ok(1) by simp
qed


section \<open>Loading\<close>

definition trie_rule :: "bool \<Rightarrow> string \<Rightarrow> domainBuilder \<Rightarrow> go_error option \<times> domainBuilder" where
  "trie_rule incl r s =
     (case domain_rule incl r of
        Inl e \<Rightarrow> (Some e, s)
      | Inr None \<Rightarrow> (None, s)
      | Inr (Some (domain, flag)) \<Rightarrow> record_rule domain flag s)"

lemma trie_rule_step:
  assumes "trie_rule incl r b = (None, b1)" "builder_rep b paths F" "rules_rep (rules_of incl before) paths F"
    "length (dt_blob b) + length r < 2 ^ 32"
  shows "\<exists>paths1 F1. builder_rep b1 paths1 F1 \<and> rules_rep (rules_of incl (before @ [r])) paths1 F1 \<and>
      length (dt_blob b1) \<le> length (dt_blob b) + length r"
proof (cases "domain_rule incl r")
  case (Inl e)
  with assms(1) show ?thesis by (simp add: trie_rule_def)
next
  case (Inr x)
  show ?thesis
  proof (cases x)
    case None
    with Inr assms(1-3) show ?thesis by (auto simp: trie_rule_def rules_of_snoc)
  next
    case (Some p)
    obtain d f where p: "p = (d, f)" by fastforce
    note ok = domain_rule_ok [OF Inr [unfolded Some p]]
    have "length (dt_blob b) + length d < 2 ^ 32" using assms(4) ok(2) by simp
    from record_rule_ok [OF assms(2,3) ok(1,3) this, of b1] assms(1) Inr Some p ok(2)
    show ?thesis by (fastforce simp: trie_rule_def rules_of_snoc)
  qed
qed

lemma feed_trie_rule:
  "feed (trie_rule incl) rules b = Some b' \<Longrightarrow> builder_rep b paths F \<Longrightarrow> rules_rep (rules_of incl before) paths F \<Longrightarrow>
   length (dt_blob b) + sum_list (map length rules) < 2 ^ 32 \<Longrightarrow>
   \<exists>paths' F'. builder_rep b' paths' F' \<and> rules_rep (rules_of incl (before @ rules)) paths' F'"
proof (induction rules arbitrary: b paths F before)
  case (Cons r rules)
  from Cons.prems(1) obtain b1 where b1: "trie_rule incl r b = (None, b1)" "feed (trie_rule incl) rules b1 = Some b'"
    by (auto split: prod.splits option.splits)
  from trie_rule_step [OF b1(1) Cons.prems(2,3)] Cons.prems(4) obtain paths1 F1 where
    "builder_rep b1 paths1 F1" "rules_rep (rules_of incl (before @ [r])) paths1 F1"
    "length (dt_blob b1) \<le> length (dt_blob b) + length r" by auto
  with Cons.IH [OF b1(2), of paths1 F1 "before @ [r]"] Cons.prems(4) show ?case by simp
qed auto

section \<open>Every valid list loads\<close>

lemma trieAdd_nodes: "trieAdd t p l i = Some t' \<Longrightarrow> dt_nodes t' = dt_nodes t"
  by (auto simp: trieAdd_def Let_def)

lemma rebuild_loop_nodes: "rebuild_loop b ids = Some b' \<Longrightarrow> dt_nodes b' = dt_nodes b"
  by (induction ids arbitrary: b) (auto simp: trieAdd_def Let_def bind_eq_Some_conv)

lemma rebuild_nodes: "rebuild n b = Some b' \<Longrightarrow> dt_nodes b' = dt_nodes b"
  unfolding rebuild_def by (drule rebuild_loop_nodes) simp

lemma builder_child_full:
  "builder_child b p l = Some (Inl e) \<Longrightarrow> maxDomainNodes \<le> length (dt_nodes b)"
  unfolding builder_child_def Let_def
  by (cases "trieFind b p (bytes_of l)") (simp_all add: bind_eq_Some_conv split: option.splits if_splits)

lemma builder_child_nodes:
  assumes "builder_child b p l = Some (Inr (i, b'))"
  shows "length (dt_nodes b') \<le> Suc (length (dt_nodes b))"
proof (cases "trieFind b p (bytes_of l)")
  case None
  with assms show ?thesis by (simp add: builder_child_def Let_def)
next
  case (Some found)
  show ?thesis
  proof (cases found)
    case (Some n)
    with assms \<open>trieFind b p (bytes_of l) = _\<close> show ?thesis by (simp add: builder_child_def Let_def)
  next
    case None
    define slots where "slots = (if length (dt_slots b) * 2 < (length (dt_nodes b) + 1) * 3
                   then rebuild (length (dt_slots b) * 2) b else Some b)"
    from assms None \<open>trieFind b p (bytes_of l) = _\<close> obtain b1 t where
      b: "slots = Some b1" "trieAdd t p (bytes_of l) i = Some b'" "length (dt_nodes t) = Suc (length (dt_nodes b1))"
      unfolding builder_child_def Let_def slots_def [symmetric]
      by (auto simp: bind_eq_Some_conv split: if_splits intro!: that) (auto simp: or_flags_def)
    then have "dt_nodes b1 = dt_nodes b" by (auto simp: slots_def dest: rebuild_nodes split: if_splits)
    with b trieAdd_nodes [OF b(2)] show ?thesis by simp
  qed
qed

lemma add_path_nodes:
  "add_path b n s = Some r \<Longrightarrow>
   (case r of Inl e \<Rightarrow> maxDomainNodes \<le> length (dt_nodes b) + length s
    | Inr (i, b') \<Rightarrow> length (dt_nodes b') \<le> length (dt_nodes b) + Suc (length s))"
proof (induction b n s rule: add_path.induct)
  case (1 b n s)
  show ?case
  proof (cases "last_index CHR ''.'' s")
    case None
    with "1.prems" have "builder_child b n s = Some r" by (simp add: add_path.simps [of b n s])
    then show ?thesis by (auto dest: builder_child_nodes builder_child_full split: sum.splits)
  next
    case (Some i)
    have i: "i < length s" using last_index_Some [OF Some] by simp
    show ?thesis
    proof (cases "builder_child b n (drop (Suc i) s)")
      case None
      with Some "1.prems" show ?thesis by (simp add: add_path.simps [of b n s])
    next
      case (Some c)
      note c = Some
      show ?thesis
      proof (cases c)
        case (Inl e)
        with c \<open>last_index CHR ''.'' s = Some i\<close> "1.prems" have "r = Inl e" by (simp add: add_path.simps [of b n s])
        with c Inl builder_child_full show ?thesis by fastforce
      next
        case (Inr q)
        then obtain n1 b1 where q: "c = Inr (n1, b1)" by (cases q) auto
        note grow = builder_child_nodes [OF c [unfolded q]]
        show ?thesis
        proof (cases "i = 0")
          case True
          with c q \<open>last_index CHR ''.'' s = Some i\<close> "1.prems" have "r = Inr (n1, b1)" by (simp add: add_path.simps [of b n s])
          with grow show ?thesis by simp
        next
          case False
          with c q \<open>last_index CHR ''.'' s = Some i\<close> "1.prems" have "add_path b1 n1 (take i s) = Some r"
            by (simp add: add_path.simps [of b n s])
          from "1.IH" [OF \<open>last_index CHR ''.'' s = Some i\<close> c q refl False this] grow i show ?thesis
            by (auto split: sum.splits)
        qed
      qed
    qed
  qed
qed

lemma trie_rule_loads:
  assumes "builder_rep b paths F" "\<nexists>e. domain_rule incl r = Inl e" "length (dt_blob b) + length r < 2 ^ 32"
    "length (dt_nodes b) + Suc (length r) \<le> maxDomainNodes"
  shows "\<exists>b'. trie_rule incl r b = (None, b') \<and> length (dt_nodes b') \<le> length (dt_nodes b) + Suc (length r)"
proof (cases "domain_rule incl r")
  case (Inr x)
  show ?thesis
  proof (cases x)
    case (Some p)
    obtain d f where p: "p = (d, f)" by fastforce
    note ok = domain_rule_ok [OF Inr [unfolded Some p]]
    have n: "0 < length paths" using assms(1) by (auto simp: builder_rep_def trie_rep_def paths_ok_def)
    from add_path_ok [OF assms(1) n ok(3)] assms(3) ok(2) obtain a where a: "add_path b 0 d = Some a" by fastforce
    with add_path_nodes [OF a] assms(4) ok(2) Inr Some p show ?thesis
      by (auto simp: trie_rule_def record_rule_def or_flags_def split: sum.splits)
  qed (simp add: Inr trie_rule_def)
qed (use assms(2) in simp)

lemma feed_loads:
  "builder_rep b paths F \<Longrightarrow> rules_rep (rules_of incl before) paths F \<Longrightarrow> \<forall>r \<in> set rules. \<nexists>e. domain_rule incl r = Inl e \<Longrightarrow>
   length (dt_blob b) + sum_list (map length rules) < 2 ^ 32 \<Longrightarrow>
   length (dt_nodes b) + sum_list (map (\<lambda>r. Suc (length r)) rules) \<le> maxDomainNodes \<Longrightarrow>
   \<exists>b'. feed (trie_rule incl) rules b = Some b'"
proof (induction rules arbitrary: b paths F before)
  case (Cons r rules)
  then have "length (dt_blob b) + length r < 2 ^ 32" "length (dt_nodes b) + Suc (length r) \<le> maxDomainNodes" by simp_all
  moreover have "\<nexists>e. domain_rule incl r = Inl e" using Cons.prems(3) by simp
  ultimately obtain b1 where
    b1: "trie_rule incl r b = (None, b1)" "length (dt_nodes b1) \<le> length (dt_nodes b) + Suc (length r)"
    using trie_rule_loads [OF Cons.prems(1)] by blast
  from trie_rule_step [OF b1(1) Cons.prems(1,2)] Cons.prems(4) obtain paths1 F1 where
    s: "builder_rep b1 paths1 F1" "rules_rep (rules_of incl (before @ [r])) paths1 F1"
    "length (dt_blob b1) \<le> length (dt_blob b) + length r" by auto
  have "\<exists>b'. feed (trie_rule incl) rules b1 = Some b'"
    by (rule Cons.IH [OF s(1,2)]) (use Cons.prems(3-5) s(3) b1(2) in auto)
  with b1(1) show ?case by simp
qed simp

lemma newDomainBuilder_ok:
  "\<exists>b. newDomainBuilder = Some b \<and> builder_rep b [[]] (\<lambda>_. 0) \<and> dt_blob b = []"
proof -
  let ?b = "\<lparr>dt_nodes = [\<lparr>dn_label = replicate 6 0, dn_length = 0, dn_flags = 0\<rparr>], dt_blob = [], dt_slots = [], db_parents = [0]\<rparr>"
  have ok: "paths_ok (db_parents ?b) [[]]" by (auto simp: paths_ok_def)
  from rebuild_rep [OF ok, of 64] obtain ss where
    "rebuild 64 ?b = Some (?b\<lparr>dt_slots := ss\<rparr>)" "length ss = 64" "trie_rep (?b\<lparr>dt_slots := ss\<rparr>) (db_parents ?b) [[]]" by auto
  then show ?thesis
    by (auto simp: newDomainBuilder_def builder_rep_def flags_rep_def has_kid_def)
qed

lemma rules_rep_empty: "rules_rep [] [[]] (\<lambda>_. 0)"
  by (auto simp: rules_rep_def rules_ok_def node_exists_def)

text \<open>The finished trie of the rules \<open>RS\<close>.\<close>

definition built :: "'a domainTrie_scheme \<Rightarrow> domain_rules \<Rightarrow> bool" where
  "built t RS \<longleftrightarrow> (\<exists>par paths F. trie_rep t par paths \<and> flags_rep t paths F \<and> rules_rep RS paths F)"

lemma builder_done_ok:
  assumes "builder_rep b paths F" "rules_rep RS paths F"
  shows "\<exists>t. builder_done b = Some t \<and> built t RS"
proof -
  have trie: "trie_rep b (db_parents b) paths" and flags: "flags_rep b paths F" using assms(1) by (simp_all add: builder_rep_def)
  then have n: "length (dt_nodes b) = length paths" "paths_ok (db_parents b) paths"
    "\<forall>i \<in> {1..<length paths}. labelAt b i = Some (node_label paths i)" by (simp_all add: trie_rep_def)
  let ?want = "domainTableSize (length (dt_nodes b)) + 8"
  have "length paths \<le> ?want" using n(1) by (simp add: domainTableSize_def)
  from rebuild_rep [OF n(2,1,3) this] obtain ss where
    ss: "rebuild ?want b = Some (b\<lparr>dt_slots := ss\<rparr>)" "trie_rep (b\<lparr>dt_slots := ss\<rparr>) (db_parents b) paths" by blast
  have tr: "trie_rep (domainTrie.truncate b') par ps = trie_rep b' par ps" "flags_rep (domainTrie.truncate b') ps F = flags_rep b' ps F"
    for b' par ps
    using table_ok_cong [of "domainTrie.truncate b'" b' "{1..<length ps}" "(!) par" "(!) par" "node_label ps" "node_label ps"]
    by (simp_all add: trie_rep_def flags_rep_def labelAt_def domainTrie.truncate_def Let_def)
  show ?thesis
  proof (cases "?want * 4 div 3 < length (dt_slots b)")
    case True
    have "flags_rep (b\<lparr>dt_slots := ss\<rparr>) paths F" using flags by (simp add: flags_rep_def)
    with ss assms(2) tr have "built (domainTrie.truncate (b\<lparr>dt_slots := ss\<rparr>)) RS" unfolding built_def by blast
    with True ss(1) show ?thesis by (simp add: builder_done_def Let_def)
  next
    case False
    from trie flags assms(2) tr have "built (domainTrie.truncate b) RS" unfolding built_def by blast
    with False show ?thesis by (simp add: builder_done_def Let_def)
  qed
qed

lemma load_built:
  assumes "newDomainBuilder = Some b0" "feed (trie_rule incl) rules b0 = Some b" "sum_list (map length rules) < 2 ^ 32"
  shows "\<exists>t. builder_done b = Some t \<and> built t (rules_of incl rules)"
proof -
  have b0: "builder_rep b0 [[]] (\<lambda>_. 0)" "dt_blob b0 = []" using newDomainBuilder_ok unfolding assms(1) by auto
  have "rules_rep (rules_of incl []) [[]] (\<lambda>_. 0)" using rules_rep_empty by (simp add: rules_of_def)
  from feed_trie_rule [OF assms(2) b0(1) this] b0(2) assms(3) builder_done_ok show ?thesis by fastforce
qed


section \<open>The trie is an index of its rules\<close>

text \<open>
  The trie of a list of rules, where the list can be loaded: no rule is invalid, it has at most
  \<^term>\<open>maxDomainNodes\<close> labels and it is smaller than 4 GiB, so that every offset into the blob fits 32 bits.
  Otherwise the empty trie stands in for it.
\<close>

definition loaded :: "bool \<Rightarrow> string list \<Rightarrow> domainTrie option" where
  "loaded incl rules =
     (if sum_list (map length rules) < 2 ^ 32
      then Option.bind (Option.bind newDomainBuilder (feed (trie_rule incl) rules)) builder_done else None)"

definition loaded_rules :: "bool \<Rightarrow> string list \<Rightarrow> domain_rules" where
  "loaded_rules incl rules = (case loaded incl rules of None \<Rightarrow> [] | Some t \<Rightarrow> rules_of incl rules)"

definition loaded_trie :: "bool \<Rightarrow> string list \<Rightarrow> domainTrie" where
  "loaded_trie incl rules =
     (case loaded incl rules of None \<Rightarrow> the (Option.bind newDomainBuilder builder_done) | Some t \<Rightarrow> t)"

definition root_flags :: "'a domainTrie_scheme \<Rightarrow> u8" where
  "root_flags t = dn_flags (dt_nodes t ! 0)"

definition stands_for :: "'a domainTrie_scheme \<Rightarrow> domain_rules \<Rightarrow> string list \<Rightarrow> nat \<Rightarrow> bool" where
  "stands_for t RS path n \<longleftrightarrow>
     (\<exists>par paths F. trie_rep t par paths \<and> flags_rep t paths F \<and> rules_rep RS paths F \<and> n < length paths \<and> paths ! n = path)"

lemma loaded_built: "built (loaded_trie incl rules) (loaded_rules incl rules)"
proof (cases "loaded incl rules")
  case (Some t)
  then obtain b0 b where "newDomainBuilder = Some b0" "feed (trie_rule incl) rules b0 = Some b" "builder_done b = Some t"
    "sum_list (map length rules) < 2 ^ 32"
    by (auto simp: loaded_def bind_eq_Some_conv split: if_splits)
  with load_built [of b0 incl rules b] Some show ?thesis by (auto simp: loaded_trie_def loaded_rules_def)
next
  case None
  obtain b where b: "newDomainBuilder = Some b" "builder_rep b [[]] (\<lambda>_. 0)" using newDomainBuilder_ok by blast
  from builder_done_ok [OF b(2) rules_rep_empty] obtain t where "builder_done b = Some t" "built t []" by blast
  with None show ?thesis by (simp add: loaded_trie_def loaded_rules_def b(1))
qed

lemma trie_kid_stands:
  assumes "stands_for t RS path n"
  shows "\<exists>r. trie_kid t n l = Some r \<and>
    (case r of
       None \<Rightarrow> \<not> node_exists RS (path @ [l])
     | Some (n', fl) \<Rightarrow> stands_for t RS (path @ [l]) n' \<and> flags_exact RS (path @ [l]) fl)"
proof -
  obtain par paths F where rep: "trie_rep t par paths" "flags_rep t paths F" "rules_rep RS paths F"
    and n: "n < length paths" "paths ! n = path" using assms by (auto simp: stands_for_def)
  have len: "length (dt_nodes t) = length paths" using rep(1) by (simp add: trie_rep_def)
  obtain r where r: "trieFind t n (bytes_of l) = Some r"
    "case r of None \<Rightarrow> paths ! n @ [l] \<notin> set paths | Some i \<Rightarrow> i < length paths \<and> paths ! i = paths ! n @ [l]"
    using trieFind_path [OF rep(1) n(1)] by blast
  show ?thesis
  proof (cases r)
    case None
    with r rep(3) n(2) show ?thesis by (intro exI [of _ None]) (auto simp: trie_kid_def rules_rep_def)
  next
    case (Some i)
    with r(2) n(2) have i: "i < length paths" "paths ! i = path @ [l]" by simp_all
    have "flags_exact RS (path @ [l]) (dn_flags (dt_nodes t ! i))"
      using rules_rep_exact [OF rep(3), of "path @ [l]"] rep(2) i by (simp add: flags_rep_def)
    moreover have "stands_for t RS (path @ [l]) i" using rep i unfolding stands_for_def by blast
    ultimately show ?thesis using r(1) Some i(1) len by (simp add: trie_kid_def)
  qed
qed

lemma built_root: "built t RS \<Longrightarrow> stands_for t RS [] 0 \<and> flags_exact RS [] (root_flags t)"
proof -
  assume "built t RS"
  then obtain par paths F where rep: "trie_rep t par paths" "flags_rep t paths F" "rules_rep RS paths F"
    by (auto simp: built_def)
  then have p: "0 < length paths" "paths ! 0 = []" by (auto simp: trie_rep_def paths_ok_def)
  have "stands_for t RS [] 0" unfolding stands_for_def using rep p by blast
  moreover have "flags_exact RS [] (root_flags t)"
    using rules_rep_exact [OF rep(3), of "[]"] rep(2) p by (simp add: flags_rep_def root_flags_def)
  ultimately show ?thesis ..
qed

lemma built_rules_ok: "built t RS \<Longrightarrow> rules_ok RS"
  by (auto simp: built_def rules_rep_def)

interpretation trie: domain_index "loaded_rules incl rules" "trie_kid (loaded_trie incl rules)" 0
  "root_flags (loaded_trie incl rules)" "stands_for (loaded_trie incl rules) (loaded_rules incl rules)" for incl rules
proof (unfold_locales, goal_cases)
  case 1
  show ?case using loaded_built built_rules_ok by blast
next
  case 2
  show ?case using loaded_built built_root by blast
next
  case 3
  show ?case using loaded_built built_root flags_exact_cover by blast
next
  case (4 path n l)
  then show ?case using trie_kid_stands [of _ _ path n l] by fastforce
next
  case (5 path n l n' fl)
  then show ?case using trie_kid_stands [of _ _ path n l] by fastforce
next
  case (6 path n l)
  then show ?case using trie_kid_stands [OF 6(1), of l] flags_exact_cover by (fastforce split: option.splits)
next
  case 7
  show ?case using loaded_built built_root by blast
next
  case (8 path n l n' fl)
  then show ?case using trie_kid_stands [of _ _ path n l] by fastforce
qed

text \<open>What a loaded database matches, in terms of the rules that were loaded.\<close>

lemma newDomainDB_covers:
  assumes "newDomainDB w name l incl = (Inr db, l', w')"
  shows "\<exists>rules. (offered w l rules \<or> may_start_empty l \<and> rules = []) \<and>
    (sum_list (map length rules) < 2 ^ 32 \<longrightarrow>
     (\<forall>msg qname. domainQueryName msg = Some qname \<longrightarrow>
        (\<exists>m. DomainDB_Match db msg = Some ([], [], m, domain_covers (rules_of incl rules) (name_labels qname)))))"
proof -
  obtain b0 where b0: "newDomainBuilder = Some b0" using newDomainBuilder_ok by blast
  have fn: "(\<lambda>r s. case domain_rule incl r of Inl e \<Rightarrow> (Some e, s) | Inr None \<Rightarrow> (None, s)
       | Inr (Some (domain, flag)) \<Rightarrow> record_rule domain flag s) = trie_rule incl"
    by (simp add: trie_rule_def fun_eq_iff)
  obtain b t where b: "Load w l (\<lambda>_. b0) (trie_rule incl) b0 = ((None, b), l', w')" "builder_done b = Some t"
    and db: "db = \<lparr>dd_name = name, dd_trie = t, dd_loader = l', dd_includeSubdomains = incl\<rparr>"
    using assms by (auto simp: newDomainDB_def b0 domainRules_def fn split: prod.splits option.splits)
  from Load_cases [OF b(1)] obtain rules where
    r: "offered w l rules \<or> may_start_empty l \<and> rules = []" "feed (trie_rule incl) rules b0 = Some b" by blast
  have "\<exists>m. DomainDB_Match db msg = Some ([], [], m, domain_covers (rules_of incl rules) (name_labels qname))"
    if small: "sum_list (map length rules) < 2 ^ 32" and q: "domainQueryName msg = Some qname" for msg qname
  proof -
    have ld: "loaded incl rules = Some t" using r(2) b(2) small by (simp add: loaded_def b0)
    then have t: "loaded_trie incl rules = t" "loaded_rules incl rules = rules_of incl rules"
      by (simp_all add: loaded_trie_def loaded_rules_def)
    have "dt_nodes t \<noteq> []"
      using loaded_built [of incl rules] t(1) by (auto simp: built_def trie_rep_def paths_ok_def)
    then have "DomainDB_match db qname = domain_walk (trie_kid t) name qname (length qname) 0 (root_flags t)"
      by (simp add: DomainDB_match_def db root_flags_def)
    with trie.walk_iff [of incl rules name qname] q show ?thesis
      unfolding t by (auto simp: DomainDB_Match_def domain_result_def)
  qed
  with r(1) show ?thesis by blast
qed

text \<open>
  C21: a domain list matches exactly the names its rules cover. When a list of less than 4 GiB was
  loaded, a query matches the database if and only if some rule of the complete list covers its name:
  \<^verbatim>\<open>domain.com\<close> covers that name alone, \<^verbatim>\<open>.domain.com\<close> also everything below it and \<^verbatim>\<open>*.domain.com\<close> only
  what is below it. The lookup never panics and always ends.
\<close>

theorem DomainDB_Match_iff:
  assumes "newDomainDB w name l incl = (Inr db, l', w')"
  shows "\<exists>rules. (offered w l rules \<or> may_start_empty l \<and> rules = []) \<and>
    (sum_list (map length rules) < 2 ^ 32 \<longrightarrow>
     (\<forall>msg qname. domainQueryName msg = Some qname \<longrightarrow>
        (\<exists>m. DomainDB_Match db msg = Some ([], [], m, domain_covers (rules_of incl rules) (name_labels qname)))))"
  by (rule newDomainDB_covers [OF assms])

definition ref_domains :: "string list" where
  "ref_domains = [''ads.net'', ''*.Shop.com.'', ''.track.org'']"

lemma ref_newDomainDB:
  "\<exists>db. newDomainDB ref_world ''list'' (StaticLoader ref_domains) False = (Inr db, StaticLoader ref_domains, ref_world)"
proof -
  have "\<forall>r \<in> set ref_domains. \<not> isl (domain_rule False r)" by code_simp
  then have ok: "\<forall>r \<in> set ref_domains. \<nexists>e. domain_rule False r = Inl e" by (auto simp: isl_def)
  obtain b0 where b0: "newDomainBuilder = Some b0" "builder_rep b0 [[]] (\<lambda>_. 0)" "dt_blob b0 = []"
    using newDomainBuilder_ok by blast
  then have n: "length (dt_nodes b0) = 1" by (simp add: builder_rep_def trie_rep_def)
  have e: "rules_rep (rules_of False []) [[]] (\<lambda>_. 0)" using rules_rep_empty by (simp add: rules_of_def)
  have small: "sum_list (map length ref_domains) < 2 ^ 32" "1 + sum_list (map (\<lambda>r. Suc (length r)) ref_domains) \<le> maxDomainNodes"
    by (simp_all add: ref_domains_def)
  from feed_loads [OF b0(2) e ok] small b0(3) n obtain b where b: "feed (trie_rule False) ref_domains b0 = Some b" by auto
  obtain t where t: "builder_done b = Some t" using load_built [OF b0(1) b small(1)] by blast
  have fn: "(\<lambda>r s. case domain_rule False r of Inl e \<Rightarrow> (Some e, s) | Inr None \<Rightarrow> (None, s)
       | Inr (Some (domain, flag)) \<Rightarrow> record_rule domain flag s) = trie_rule False"
    by (simp add: trie_rule_def fun_eq_iff)
  have "scanRules (ref_domains, None) (trie_rule False) b0 = (None, b)" using b by (simp add: scanRules_None_iff)
  then show ?thesis using t by (simp add: newDomainDB_def b0(1) domainRules_def fn)
qed

theorem DomainDB_Match_iff_witness:
  "\<exists>db m m'. newDomainDB ref_world ''list'' (StaticLoader ref_domains) False = (Inr db, StaticLoader ref_domains, ref_world) \<and>
     DomainDB_Match db (ref_query ''a.b.shop.com.'' 1) = Some ([], [], m, True) \<and>
     DomainDB_Match db (ref_query ''www.ads.net.'' 1) = Some ([], [], m', False)"
proof -
  obtain db where db: "newDomainDB ref_world ''list'' (StaticLoader ref_domains) False = (Inr db, StaticLoader ref_domains, ref_world)"
    using ref_newDomainDB by blast
  have q: "domainQueryName (ref_query ''a.b.shop.com.'' 1) = Some ''a.b.shop.com''"
    "domainQueryName (ref_query ''www.ads.net.'' 1) = Some ''www.ads.net''"
    "domain_covers (rules_of False ref_domains) (name_labels ''a.b.shop.com'')"
    "\<not> domain_covers (rules_of False ref_domains) (name_labels ''www.ads.net'')"
    "sum_list (map length ref_domains) < 2 ^ 32" by code_simp+
  from DomainDB_Match_iff [OF db] q(5) have *: "\<forall>msg qname. domainQueryName msg = Some qname \<longrightarrow>
        (\<exists>m. DomainDB_Match db msg = Some ([], [], m, domain_covers (rules_of False ref_domains) (name_labels qname)))"
    by simp
  from *[rule_format, OF q(1)] *[rule_format, OF q(2)] q(3,4) db show ?thesis by auto
qed

end
