(* ===== verification/DomainCompact.thy ===== *)
theory DomainCompact
  imports DomainTrie
begin

text \<open>
  The compact storage of domain rules, \<^verbatim>\<open>blocklistdb-domain-compact.go\<close>: 60-bit fingerprints of the nodes
  with four bits of flags, sorted and indexed by their top bits. The index is shown to find exactly the
  entries that are there (\<open>find_build\<close>), and the store to satisfy the contract \<open>domain_cover\<close>: a listed name
  is never missed, and without a collision of fingerprints the result is that of the exact store.
\<close>

section \<open>Fingerprints\<close>

record domainFingerprints =
  df_entries :: "u64 list"
  df_index :: "u32 list"
  df_shift :: nat
  df_seed :: u64

abbreviation (input) domainFlagBits :: nat where "domainFlagBits \<equiv> 4"
abbreviation (input) domainFlagMask :: u64 where "domainFlagMask \<equiv> 15"

definition domainSuffixHash :: "u64 \<Rightarrow> u8 list \<Rightarrow> u64" where
  "domainSuffixHash h label = (foldl (\<lambda>h c. (h XOR ucast c) * fnvPrime64) h label XOR 46) * fnvPrime64"

definition domainEntry :: "u64 \<Rightarrow> u8 \<Rightarrow> u64" where
  "domainEntry h flags = push_bit domainFlagBits (drop_bit domainFlagBits (avalanche64 h)) OR ucast flags"

text \<open>The cache of entries just written.\<close>

type_synonym domainRecent = "u64 list"

definition newDomainRecent :: domainRecent where
  "newDomainRecent = replicate 4096 0"

definition seen :: "domainRecent \<Rightarrow> u64 \<Rightarrow> bool \<times> domainRecent" where
  "seen r entry =
     (let slot = unat (drop_bit domainFlagBits entry AND (of_nat (length r) - 1))
      in if r ! slot = entry then (True, r) else (False, r[slot := entry]))"

section \<open>Building\<close>

text \<open>The entries of one rule, from the right.\<close>

function compact_path :: "u8 \<Rightarrow> u64 \<Rightarrow> string \<Rightarrow> u64 list \<times> domainRecent \<Rightarrow> u64 list \<times> domainRecent" where
  "compact_path flag h s st =
     (let i = last_index CHR ''.'' s;
          h' = domainSuffixHash h (bytes_of (drop (case i of None \<Rightarrow> 0 | Some k \<Rightarrow> Suc k) s));
          e = domainEntry h' (case i of None \<Rightarrow> flag | Some k \<Rightarrow> if k = 0 then flag else ruleHasChildren);
          (hit, recent) = seen (snd st) e;
          st' = (if hit then fst st else fst st @ [e], recent)
      in case i of
           None \<Rightarrow> st'
         | Some k \<Rightarrow> if k = 0 then st' else compact_path flag h' (take k s) st')"
  by pat_completeness auto
termination
  by (relation "measure (\<lambda>(flag, h, s, st). length s)") (auto dest!: last_index_Some [OF sym])

declare compact_path.simps [simp del]

definition merge_step :: "u64 list \<Rightarrow> u64 \<Rightarrow> u64 list" where
  "merge_step merged e =
     (if merged \<noteq> [] \<and> drop_bit domainFlagBits (last merged) = drop_bit domainFlagBits e
      then butlast merged @ [last merged OR (e AND domainFlagMask)] else merged @ [e])"

function bucket_count :: "nat \<Rightarrow> nat \<Rightarrow> nat" where
  "bucket_count buckets n = (if 0 < buckets \<and> buckets * 8 < n then bucket_count (buckets * 2) n else buckets)"
  by pat_completeness auto
termination
  by (relation "measure (\<lambda>(b, n). n - b)") auto

declare bucket_count.simps [simp del]

function bucket_bits :: "nat \<Rightarrow> nat \<Rightarrow> nat" where
  "bucket_bits bits buckets = (if 2 ^ bits < buckets then bucket_bits (Suc bits) buckets else bits)"
  by pat_completeness auto
termination
proof (relation "measure (\<lambda>(bits, buckets). buckets - bits)")
  fix bits buckets :: nat
  assume "2 ^ bits < buckets"
  with less_exp [of bits] have "bits < buckets" by (rule less_trans)
  then show "((Suc bits, buckets), bits, buckets) \<in> measure (\<lambda>(bits, buckets). buckets - bits)" by simp
qed simp

declare bucket_bits.simps [simp del]

definition domainBucketBits :: "nat \<Rightarrow> nat" where
  "domainBucketBits buckets = bucket_bits 0 buckets"

fun index_loop :: "u64 list \<Rightarrow> nat \<Rightarrow> nat list \<Rightarrow> nat \<Rightarrow> u32 list" where
  "index_loop entries shift [] e = []"
| "index_loop entries shift (b # bs) e =
     of_nat e # index_loop entries shift bs (e + length (takeWhile (\<lambda>x. unat (drop_bit shift x) = b) (drop e entries)))"

definition build :: "u64 list \<Rightarrow> domainFingerprints \<Rightarrow> domainFingerprints" where
  "build entries f =
     (let merged = foldl merge_step [] (sort entries);
          buckets = bucket_count 8 (length merged);
          shift = 64 - domainBucketBits buckets
      in f\<lparr>df_entries := merged, df_shift := shift,
           df_index := index_loop merged shift [0..<buckets] 0 @ [of_nat (length merged)]\<rparr>)"

definition rootFlags :: "domainFingerprints \<Rightarrow> u8" where
  "rootFlags f = (if df_entries f = [] then 0 else ruleHasChildren)"

function find_loop :: "u64 list \<Rightarrow> u64 \<Rightarrow> nat \<Rightarrow> nat \<Rightarrow> u8 option option" where
  "find_loop entries want i hi =
     (if hi \<le> i then Some None
      else if length entries \<le> i then None
      else
        let e = entries ! i in
        if e AND NOT domainFlagMask = want then Some (Some (ucast e AND 15))
        else if want < e then Some None
        else find_loop entries want (Suc i) hi)"
  by pat_completeness auto
termination
  by (relation "measure (\<lambda>(entries, want, i, hi). hi - i)") auto

declare find_loop.simps [simp del]

definition find_flags :: "domainFingerprints \<Rightarrow> u64 \<Rightarrow> u8 option option" where
  "find_flags f h =
     (let want = domainEntry h 0; bucket = unat (drop_bit (df_shift f) want)
      in if length (df_index f) \<le> Suc bucket then None
         else find_loop (df_entries f) want (unat (df_index f ! bucket)) (unat (df_index f ! Suc bucket)))"

section \<open>The database\<close>

record DomainCompactDB =
  dc_name :: string
  dc_fingerprints :: domainFingerprints
  dc_loader :: BlocklistLoader
  dc_includeSubdomains :: bool

definition compact_record :: "u64 \<Rightarrow> string \<Rightarrow> u8 \<Rightarrow> u64 list \<times> domainRecent \<Rightarrow> go_error option \<times> u64 list \<times> domainRecent" where
  "compact_record seed domain flag st = (None, compact_path flag seed domain st)"

text \<open>The seed is a random number.\<close>

definition newDomainCompactDB ::
  "u64 \<Rightarrow> world \<Rightarrow> string \<Rightarrow> BlocklistLoader \<Rightarrow> bool \<Rightarrow> (go_error + DomainCompactDB) \<times> BlocklistLoader \<times> world" where
  "newDomainCompactDB seed w name loader includeSubdomains =
     (case domainRules w loader includeSubdomains (\<lambda>_. ([], newDomainRecent)) (compact_record seed) ([], newDomainRecent) of
        ((Some err, _), l, w') \<Rightarrow> (Inl err, l, w')
      | ((None, (entries, _)), l, w') \<Rightarrow>
          (Inr \<lparr>dc_name = name,
                dc_fingerprints = build entries \<lparr>df_entries = [], df_index = [], df_shift = 0, df_seed = seed\<rparr>,
                dc_loader = l, dc_includeSubdomains = includeSubdomains\<rparr>, l, w'))"

definition NewDomainCompactDB where
  "NewDomainCompactDB seed w name loader = newDomainCompactDB seed w name loader False"

definition NewDomainSubdomainCompactDB where
  "NewDomainSubdomainCompactDB seed w name loader = newDomainCompactDB seed w name loader True"

definition DomainCompactDB_Reload where
  "DomainCompactDB_Reload seed w m =
     (case newDomainCompactDB seed w (dc_name m) (dc_loader m) (dc_includeSubdomains m) of
        (Inl err, l, w') \<Rightarrow> ((None, Some err), m\<lparr>dc_loader := l\<rparr>, w')
      | (Inr db, l, w') \<Rightarrow> ((Some db, None), m\<lparr>dc_loader := l\<rparr>, w'))"

definition compact_kid :: "domainFingerprints \<Rightarrow> u64 \<Rightarrow> string \<Rightarrow> (u64 \<times> u8) option option" where
  "compact_kid f h label =
     (let h' = domainSuffixHash h (bytes_of label)
      in map_option (map_option (Pair h')) (find_flags f h'))"

definition DomainCompactDB_match :: "DomainCompactDB \<Rightarrow> string \<Rightarrow> BlocklistMatch option option" where
  "DomainCompactDB_match m name =
     domain_walk (compact_kid (dc_fingerprints m)) (dc_name m) name (length name)
       (df_seed (dc_fingerprints m)) (rootFlags (dc_fingerprints m))"

definition DomainCompactDB_Match :: "DomainCompactDB \<Rightarrow> Msg \<Rightarrow> db_match" where
  "DomainCompactDB_Match m msg = do {
     name \<leftarrow> domainQueryName msg;
     r \<leftarrow> DomainCompactDB_match m name;
     Some (domain_result r)
   }"

section \<open>Entries\<close>

definition fpr :: "u64 \<Rightarrow> u64" where
  "fpr e = drop_bit 4 e"

lemma bit_15: "bit (15 :: u64) n \<longleftrightarrow> n < 4"
proof -
  have "(15 :: u64) = mask 4" by (simp add: mask_eq_exp_minus_1)
  then show ?thesis by (simp only: bit_mask_iff) auto
qed

lemma fpr_low [simp]: "fpr (e AND 15) = 0"
  by (rule bit_word_eqI) (simp add: fpr_def bit_drop_bit_eq bit_and_iff bit_15)

lemma fpr_or_low [simp]: "fpr (x OR (e AND 15)) = fpr x"
  using fpr_low [of e] by (simp add: fpr_def del: drop_bit_and)

lemma bit_or_low: "k < 4 \<Longrightarrow> bit (x OR (e AND 15)) k \<longleftrightarrow> bit x k \<or> bit e k" for x e :: u64
  by (simp only: bit_or_iff bit_and_iff bit_15) blast

lemma flag_high: "f < 16 \<Longrightarrow> 4 \<le> n \<Longrightarrow> \<not> bit (f :: u8) n"
  using bit_of_nat_less [of "unat f" 4 n, where 'a = 8] by (auto simp: word_less_nat_alt)

lemma fpr_domainEntry: "f < 16 \<Longrightarrow> fpr (domainEntry h f) = fpr (avalanche64 h)"
  using flag_high [of f] by (auto simp: fpr_def domainEntry_def bit_eq_iff bit_simps dest: bit_imp_le_length)

lemma bit_domainEntry: "f < 16 \<Longrightarrow> k < 4 \<Longrightarrow> bit (domainEntry h f) k \<longleftrightarrow> bit f k"
  by (auto simp: domainEntry_def bit_simps)

lemma unat_drop: "unat (drop_bit n x) = unat x div 2 ^ n" for x :: u64
  unfolding unat_drop_bit_eq by (rule drop_bit_eq_div)

lemma fpr_less: "fpr x < fpr y \<Longrightarrow> x < y"
  unfolding fpr_def word_less_nat_alt unat_drop by (meson div_le_mono not_less)

lemma drop_mono: "x \<le> y \<Longrightarrow> drop_bit n x \<le> drop_bit n y" for x y :: u64
  unfolding word_le_nat_alt unat_drop by (rule div_le_mono)

lemma fpr_mono: "x \<le> y \<Longrightarrow> fpr x \<le> fpr y"
  unfolding fpr_def by (rule drop_mono)

lemma clear_low: "e AND NOT 15 = push_bit 4 (fpr e)" for e :: u64
proof -
  have "bit (e AND NOT 15) n = bit (push_bit 4 (fpr e)) n" if "n < 64" for n
    using that unfolding bit_and_iff bit_not_iff bit_15 bit_push_bit_iff fpr_def bit_drop_bit_eq by auto
  then show ?thesis by (intro bit_word_eqI) simp
qed

lemma clear_low_eq: "e AND NOT 15 = domainEntry h 0 \<longleftrightarrow> fpr e = fpr (avalanche64 h)"
proof -
  have "domainEntry h 0 = push_bit 4 (fpr (avalanche64 h))" by (simp add: domainEntry_def fpr_def)
  moreover have "fpr (push_bit 4 (fpr x)) = fpr x" for x :: u64
    by (auto simp: fpr_def bit_eq_iff bit_simps dest: bit_imp_le_length)
  ultimately show ?thesis by (metis clear_low)
qed

section \<open>Merging\<close>

definition merged_ok :: "u64 list \<Rightarrow> u64 set \<Rightarrow> bool" where
  "merged_ok ms E \<longleftrightarrow>
     sorted_wrt (\<lambda>x y. fpr x < fpr y) ms \<and> fpr ` set ms = fpr ` E \<and>
     (\<forall>m \<in> set ms. \<forall>k < 4. bit m k \<longleftrightarrow> (\<exists>e \<in> E. fpr e = fpr m \<and> bit e k))"

lemma merged_okI:
  assumes "sorted_wrt (\<lambda>x y. fpr x < fpr y) ms" "fpr ` set ms = fpr ` E"
    "\<And>m k. m \<in> set ms \<Longrightarrow> k < 4 \<Longrightarrow> bit m k \<longleftrightarrow> (\<exists>e \<in> E. fpr e = fpr m \<and> bit e k)"
  shows "merged_ok ms E"
  using assms unfolding merged_ok_def by blast

lemma merge_step_ok:
  assumes ok: "merged_ok ms E" and above: "\<forall>x \<in> E. x \<le> e"
  shows "merged_ok (merge_step ms e) (insert e E)"
proof (cases "ms \<noteq> [] \<and> fpr (last ms) = fpr e")
  case True
  then obtain xs x where ms: "ms = xs @ [x]" "fpr x = fpr e" by (cases ms rule: rev_cases) auto
  have less: "fpr y < fpr e" if "y \<in> set xs" for y
    using ok that ms by (auto simp: merged_ok_def sorted_wrt_append)
  have step: "merge_step ms e = xs @ [x OR (e AND 15)]" using True ms by (simp add: merge_step_def fpr_def)
  have "bit (x OR (e AND 15)) k \<longleftrightarrow> (\<exists>a \<in> insert e E. fpr a = fpr x \<and> bit a k)" if "k < 4" for k
    using ok that ms by (auto simp: merged_ok_def bit_or_low)
  moreover have "bit y k \<longleftrightarrow> (\<exists>a \<in> insert e E. fpr a = fpr y \<and> bit a k)" if "y \<in> set xs" "k < 4" for y k
    using ok that ms less [OF that(1)] by (auto simp: merged_ok_def)
  moreover have "fpr ` set (xs @ [x OR (e AND 15)]) = fpr ` insert e E"
    using ok ms by (auto simp: merged_ok_def)
  moreover have "sorted_wrt (\<lambda>x y. fpr x < fpr y) (xs @ [x OR (e AND 15)])"
    using ok ms by (simp add: merged_ok_def sorted_wrt_append)
  ultimately show ?thesis unfolding step by (intro merged_okI) auto
next
  case False
  then have step: "merge_step ms e = ms @ [e]" unfolding merge_step_def fpr_def by (simp only: if_False)
  have less: "fpr y < fpr e" if "y \<in> set ms" for y
  proof -
    from that obtain xs x where ms: "ms = xs @ [x]" by (cases ms rule: rev_cases) auto
    have "fpr y \<le> fpr x" using ok that ms by (auto simp: merged_ok_def sorted_wrt_append)
    moreover have "fpr x \<in> fpr ` E" using ok ms by (auto simp: merged_ok_def)
    then have "fpr x \<le> fpr e" using above fpr_mono by auto
    ultimately show ?thesis using False ms by auto
  qed
  have old: "bit y k \<longleftrightarrow> (\<exists>a \<in> insert e E. fpr a = fpr y \<and> bit a k)" if "y \<in> set ms" "k < 4" for y k
    using ok that less [OF that(1)] by (auto simp: merged_ok_def)
  have new: "bit e k \<longleftrightarrow> (\<exists>a \<in> insert e E. fpr a = fpr e \<and> bit a k)" if "k < 4" for k
  proof -
    have "fpr a \<noteq> fpr e" if "a \<in> E" for a
    proof -
      have "fpr a \<in> fpr ` set ms" using that ok by (simp add: merged_ok_def)
      then obtain y where "y \<in> set ms" "fpr a = fpr y" by blast
      with less [of y] show ?thesis by auto
    qed
    then show ?thesis by auto
  qed
  show ?thesis unfolding step
  proof (rule merged_okI)
    show "sorted_wrt (\<lambda>x y. fpr x < fpr y) (ms @ [e])" using ok less by (simp add: merged_ok_def sorted_wrt_append)
    show "fpr ` set (ms @ [e]) = fpr ` insert e E" using ok by (simp add: merged_ok_def)
    show "bit m k \<longleftrightarrow> (\<exists>a \<in> insert e E. fpr a = fpr m \<and> bit a k)" if "m \<in> set (ms @ [e])" "k < 4" for m k
    proof (cases "m \<in> set ms")
      case True
      then show ?thesis using that(2) by (rule old)
    next
      case False
      with that(1) have "m = e" by simp
      from new [OF that(2)] show ?thesis unfolding \<open>m = e\<close> .
    qed
  qed
qed

lemma merge_fold: "merged_ok ms E \<Longrightarrow> sorted es \<Longrightarrow> \<forall>x \<in> E. \<forall>y \<in> set es. x \<le> y \<Longrightarrow> merged_ok (foldl merge_step ms es) (E \<union> set es)"
proof (induction es arbitrary: ms E)
  case (Cons e es)
  have "merged_ok (foldl merge_step (merge_step ms e) es) (insert e E \<union> set es)"
    by (rule Cons.IH [OF merge_step_ok [OF Cons.prems(1)]]) (use Cons.prems(2,3) in auto)
  then show ?case by simp
qed simp

lemma merge_ok: "merged_ok (foldl merge_step [] (sort es)) (set es)"
  using merge_fold [of "[]" "{}" "sort es"] by (simp add: merged_ok_def)

lemma length_merge_fold: "length (foldl merge_step ms es) \<le> length ms + length es"
proof (induction es arbitrary: ms)
  case (Cons e es)
  have "length (merge_step ms e) \<le> Suc (length ms)" by (auto simp: merge_step_def)
  with Cons.IH [of "merge_step ms e"] show ?case by simp
qed simp

section \<open>The index\<close>

text \<open>The entries before bucket \<open>b\<close>.\<close>

definition below :: "nat \<Rightarrow> nat \<Rightarrow> u64 list \<Rightarrow> nat" where
  "below sh b es = length (takeWhile (\<lambda>x. unat (drop_bit sh x) < b) es)"

lemma below_0: "below sh 0 es = 0"
  by (cases es) (simp_all add: below_def)

lemma below_step:
  "sorted (map (\<lambda>x. unat (drop_bit sh x)) es) \<Longrightarrow>
   below sh b es + length (takeWhile (\<lambda>x. unat (drop_bit sh x) = b) (drop (below sh b es) es)) = below sh (Suc b) es"
proof (induction es)
  case (Cons e es)
  show ?case
  proof (cases "unat (drop_bit sh e) < b")
    case True
    with Cons show ?thesis by (simp add: below_def)
  next
    case False
    moreover have "takeWhile (\<lambda>x. unat (drop_bit sh x) = b) es = takeWhile (\<lambda>x. unat (drop_bit sh x) < Suc b) es"
      if "unat (drop_bit sh e) = b"
      using Cons.prems that by (intro takeWhile_cong) auto
    ultimately show ?thesis by (auto simp: below_def)
  qed
qed (simp add: below_def)

lemma index_loop_below:
  assumes "sorted (map (\<lambda>x. unat (drop_bit sh x)) es)"
  shows "index_loop es sh [b..<b + n] (below sh b es) = map (\<lambda>b. of_nat (below sh b es)) [b..<b + n]"
proof (induction n arbitrary: b)
  case (Suc n)
  have "[b..<b + Suc n] = b # [Suc b..<Suc b + n]" by (simp add: upt_conv_Cons)
  with Suc.IH [of "Suc b"] show ?case by (simp add: below_step [OF assms])
qed simp

lemma bucket_count_power:
  assumes "3 \<le> i" "2 ^ i \<le> (8::nat) \<or> 2 ^ i * 4 < n"
  shows "\<exists>j \<ge> 3. bucket_count (2 ^ i) n = 2 ^ j \<and> (2 ^ j \<le> (8::nat) \<or> 2 ^ j * 4 < n)"
  using assms
proof (induction "n - 2 ^ i" arbitrary: i rule: less_induct)
  case less
  show ?case
  proof (cases "(2::nat) ^ i * 8 < n")
    case True
    then have "bucket_count (2 ^ i) n = bucket_count (2 ^ Suc i) n" by (subst bucket_count.simps) (simp add: mult.commute)
    moreover have "n - 2 ^ Suc i < n - 2 ^ i" using True by (intro diff_less_mono2) auto
    from less.hyps [OF this] less.prems True
    have "\<exists>j \<ge> 3. bucket_count (2 ^ Suc i) n = 2 ^ j \<and> (2 ^ j \<le> (8::nat) \<or> 2 ^ j * 4 < n)" by simp
    ultimately show ?thesis by simp
  next
    case False
    with less.prems show ?thesis by (subst bucket_count.simps) auto
  qed
qed

lemma bucket_bits_power: "i \<le> j \<Longrightarrow> bucket_bits i (2 ^ j) = j"
proof (induction "j - i" arbitrary: i)
  case 0
  then show ?case by (subst bucket_bits.simps) simp
next
  case (Suc d)
  then have "i < j" by simp
  with Suc.hyps(1) [of "Suc i"] Suc.hyps(2) show ?case by (subst bucket_bits.simps) simp
qed

section \<open>Lookup\<close>

text \<open>The loop of \<^verbatim>\<open>find\<close> over the entries of a bucket.\<close>

fun scan :: "u64 \<Rightarrow> u64 list \<Rightarrow> u8 option" where
  "scan want [] = None"
| "scan want (e # es) =
     (if e AND NOT domainFlagMask = want then Some (ucast e AND 15) else if want < e then None else scan want es)"

lemma find_loop_scan: "hi \<le> length es \<Longrightarrow> find_loop es want i hi = Some (scan want (take (hi - i) (drop i es)))"
proof (induction es want i hi rule: find_loop.induct)
  case (1 es want i hi)
  show ?case
  proof (cases "hi \<le> i")
    case False
    then have "take (hi - i) (drop i es) = es ! i # take (hi - Suc i) (drop (Suc i) es)"
      using "1.prems" by (metis Cons_nth_drop_Suc Suc_diff_Suc less_le_trans not_le take_Suc_Cons)
    with False 1 show ?thesis by (subst find_loop.simps) (simp add: Let_def)
  qed (simp add: find_loop.simps)
qed

lemma scan_correct:
  "sorted_wrt (\<lambda>x y. fpr x < fpr y) es \<Longrightarrow>
   (case scan (domainEntry h 0) es of
      None \<Rightarrow> \<forall>e \<in> set es. fpr e \<noteq> fpr (avalanche64 h)
    | Some fl \<Rightarrow> \<exists>e \<in> set es. fpr e = fpr (avalanche64 h) \<and> fl = ucast e AND 15)"
proof (induction es)
  case (Cons e es)
  have stop: "fpr y \<noteq> fpr (avalanche64 h)" if "domainEntry h 0 < e" "y \<in> set es" for y
  proof
    assume y: "fpr y = fpr (avalanche64 h)"
    have "fpr e < fpr (domainEntry h 0)" using Cons.prems that(2) y by (auto simp: fpr_domainEntry)
    from fpr_less [OF this] that(1) show False by simp
  qed
  show ?case
  proof (cases "e AND NOT 15 = domainEntry h 0")
    case True
    moreover from True have "fpr e = fpr (avalanche64 h)" unfolding clear_low_eq .
    ultimately show ?thesis by simp
  next
    case False
    then have "fpr e \<noteq> fpr (avalanche64 h)" unfolding clear_low_eq .
    with False stop Cons show ?thesis by (auto split: option.splits)
  qed
qed simp

abbreviation (input) bucket_of :: "nat \<Rightarrow> u64 \<Rightarrow> nat" where
  "bucket_of sh x \<equiv> unat (drop_bit sh x)"

lemma bucket_of_fpr: "4 \<le> sh \<Longrightarrow> fpr x = fpr y \<Longrightarrow> bucket_of sh x = bucket_of sh y"
proof -
  assume "4 \<le> sh" "fpr x = fpr y"
  moreover have "drop_bit sh z = drop_bit (sh - 4) (fpr z)" if "4 \<le> sh" for z
    using that by (simp add: fpr_def drop_bit_drop_bit)
  ultimately show ?thesis by simp
qed

lemma build_index:
  fixes es :: "u64 list"
  defines "ms \<equiv> foldl merge_step [] (sort es)"
  assumes "length es < 2 ^ 32"
  shows "\<exists>sh n. df_shift (build es f) = sh \<and> 4 \<le> sh \<and> sorted (map (bucket_of sh) ms) \<and> (\<forall>x. bucket_of sh x < n) \<and>
    length ms < 2 ^ 32 \<and> df_index (build es f) = map (\<lambda>b. of_nat (below sh b ms)) [0..<Suc n]"
proof -
  define n where "n = bucket_count 8 (length ms)"
  have ok: "merged_ok ms (set es)" unfolding ms_def by (rule merge_ok)
  have len: "length ms < 2 ^ 32" using length_merge_fold [of "[]" "sort es"] assms by simp
  obtain j where j: "3 \<le> j" "n = 2 ^ j" "2 ^ j \<le> (8::nat) \<or> 2 ^ j * 4 < length ms"
    using bucket_count_power [of 3 "length ms"] by (auto simp: n_def)
  have "(2::nat) ^ j < 2 ^ 32" using j(3) len by auto
  then have j32: "j < 32" by (simp only: power_strict_increasing_iff)
  define sh where "sh = 64 - j"
  have sh: "domainBucketBits n = j" using j(2) by (simp add: domainBucketBits_def bucket_bits_power)
  have small: "bucket_of sh x < n" for x
  proof -
    have "unat x < 2 ^ j * 2 ^ sh" using unsigned_less [of x] j32 by (simp add: sh_def flip: power_add)
    then show ?thesis unfolding unat_drop j(2) by (simp add: less_mult_imp_div_less)
  qed
  have mono: "sorted_wrt (\<lambda>x y. x < y) ms"
    using ok fpr_less unfolding merged_ok_def by (metis (mono_tags, lifting) sorted_wrt_mono_rel)
  have sorted: "sorted (map (bucket_of sh) ms)"
    unfolding sorted_map by (rule sorted_wrt_mono_rel [OF _ mono]) (auto simp: word_le_nat_alt [symmetric] intro!: drop_mono)
  have build: "build es f = f\<lparr>df_entries := ms, df_shift := sh, df_index := index_loop ms sh [0..<n] 0 @ [of_nat (length ms)]\<rparr>"
    unfolding build_def Let_def ms_def [symmetric] n_def [symmetric] sh sh_def [symmetric] by (rule refl)
  have "length ms = below sh n ms" using small by (simp add: below_def takeWhile_eq_all_conv [THEN iffD2])
  moreover have "index_loop ms sh [0..<n] 0 = map (\<lambda>b. of_nat (below sh b ms)) [0..<n]"
    using index_loop_below [OF sorted, of 0 n] by (simp add: below_0)
  ultimately have "df_index (build es f) = map (\<lambda>b. of_nat (below sh b ms)) [0..<Suc n]"
    by (simp add: build)
  moreover have "df_shift (build es f) = sh" by (simp add: build)
  ultimately show ?thesis using sorted small len j32 by (intro exI [of _ sh] exI [of _ n]) (simp add: sh_def)
qed

lemma in_bucket:
  "sorted (map B xs) \<Longrightarrow> e \<in> set xs \<Longrightarrow> \<forall>x \<in> set xs. B e \<le> B x \<Longrightarrow> e \<in> set (takeWhile (\<lambda>x. B x = B e) xs)"
  for B :: "'a \<Rightarrow> nat"
  by (induction xs) (auto dest: order_antisym)

lemma sorted_dropWhile_ge: "sorted (map B (dropWhile (\<lambda>x. B x < b) xs)) \<Longrightarrow> \<forall>x \<in> set (dropWhile (\<lambda>x. B x < b) xs). b \<le> B x"
  for B :: "'a \<Rightarrow> nat"
  by (induction xs) (auto split: if_splits)

lemma bit_15_u8: "k < 4 \<Longrightarrow> bit (15 :: u8) k"
proof -
  assume "k < 4"
  then consider "k = 0" | "k = 1" | "k = 2" | "k = 3" by linarith
  then show ?thesis by cases simp_all
qed

text \<open>
  The index finds the entries of a hash: \<^term>\<open>find_flags\<close> on what \<^term>\<open>build\<close> made of the entries \<open>es\<close>
  returns the flags of all entries with the fingerprint asked for, and nothing if there are none.
\<close>

lemma find_build:
  assumes "length es < 2 ^ 32"
  shows "\<exists>r. find_flags (build es f) h = Some r \<and>
    (case r of
       None \<Rightarrow> \<forall>e \<in> set es. fpr e \<noteq> fpr (avalanche64 h)
     | Some fl \<Rightarrow> (\<exists>e \<in> set es. fpr e = fpr (avalanche64 h)) \<and>
         (\<forall>k < 4. bit fl k \<longleftrightarrow> (\<exists>e \<in> set es. fpr e = fpr (avalanche64 h) \<and> bit e k)))"
proof -
  define ms where "ms = foldl merge_step [] (sort es)"
  have ok: "merged_ok ms (set es)" unfolding ms_def by (rule merge_ok)
  have ms: "df_entries (build es f) = ms" by (simp add: build_def Let_def ms_def)
  from build_index [OF assms, of f, folded ms_def] obtain sh n where
    sh: "df_shift (build es f) = sh" "4 \<le> sh" "sorted (map (bucket_of sh) ms)" "\<And>x. bucket_of sh x < n" "length ms < 2 ^ 32"
    and index: "df_index (build es f) = map (\<lambda>b. of_nat (below sh b ms)) [0..<Suc n]" by blast
  define b where "b = bucket_of sh (domainEntry h 0)"
  define M where "M = takeWhile (\<lambda>x. bucket_of sh x = b) (drop (below sh b ms) ms)"
  have b: "b < n" using sh(4) by (simp add: b_def)
  have le: "below sh c ms \<le> length ms" for c by (simp add: below_def length_takeWhile_le)
  then have "below sh c ms < 2 ^ 32" for c using sh(5) le_less_trans by blast
  then have ix: "unat (df_index (build es f) ! c) = below sh c ms" if "c \<le> n" for c
    using that unfolding index by (simp add: unat_of_nat del: upt_Suc)
  have Mt: "M = take (below sh (Suc b) ms - below sh b ms) (drop (below sh b ms) ms)"
    using below_step [OF sh(3), of b] unfolding M_def by (metis add_diff_cancel_left' takeWhile_eq_take)
  then have find: "find_flags (build es f) h = Some (scan (domainEntry h 0) M)"
    using b le ix [of b] ix [of "Suc b"]
    by (simp add: find_flags_def Let_def sh(1) ms find_loop_scan flip: b_def) (simp add: index)
  have sub: "set M \<subseteq> set ms" by (auto simp: M_def dest!: set_takeWhileD in_set_dropD)
  have M: "sorted_wrt (\<lambda>x y. fpr x < fpr y) M"
    using ok unfolding Mt merged_ok_def by (intro sorted_wrt_take sorted_wrt_drop) blast
  have inM: "e \<in> set M" if "e \<in> set ms" "fpr e = fpr (avalanche64 h)" for e
  proof -
    have be: "bucket_of sh e = b" using bucket_of_fpr [OF sh(2), of e "domainEntry h 0"] that(2) by (simp add: b_def fpr_domainEntry)
    let ?D = "dropWhile (\<lambda>x. bucket_of sh x < b) ms"
    have D: "drop (below sh b ms) ms = ?D" by (simp add: below_def dropWhile_eq_drop)
    have "e \<notin> set (takeWhile (\<lambda>x. bucket_of sh x < b) ms)" using be by (auto dest: set_takeWhileD)
    with that(1) have "e \<in> set ?D" by (metis Un_iff set_append takeWhile_dropWhile_id)
    moreover have "sorted (map (bucket_of sh) ?D)" using sh(3) unfolding D [symmetric] drop_map [symmetric] by (rule sorted_wrt_drop)
    moreover have "\<forall>x \<in> set ?D. b \<le> bucket_of sh x" using calculation(2) by (rule sorted_dropWhile_ge)
    ultimately show ?thesis unfolding M_def D using in_bucket [of "bucket_of sh" ?D e] be by simp
  qed
  note scan = scan_correct [OF M, of h]
  show ?thesis
  proof (cases "scan (domainEntry h 0) M")
    case None
    with scan inM have "\<forall>e \<in> set ms. fpr e \<noteq> fpr (avalanche64 h)" by auto
    then have "fpr (avalanche64 h) \<notin> fpr ` set ms" by auto
    moreover have "fpr ` set ms = fpr ` set es" using ok by (simp add: merged_ok_def)
    ultimately have "\<forall>e \<in> set es. fpr e \<noteq> fpr (avalanche64 h)" by (metis imageI)
    with find None show ?thesis by simp
  next
    case (Some fl)
    with scan obtain e where e: "e \<in> set M" "fpr e = fpr (avalanche64 h)" "fl = ucast e AND 15" by auto
    with sub have em: "e \<in> set ms" by blast
    have "fpr e \<in> fpr ` set es" using ok em unfolding merged_ok_def by blast
    with e(2) have "\<exists>x \<in> set es. fpr x = fpr (avalanche64 h)" by auto
    moreover have "bit fl k \<longleftrightarrow> (\<exists>x \<in> set es. fpr x = fpr (avalanche64 h) \<and> bit x k)" if "k < 4" for k
    proof -
      have "bit fl k \<longleftrightarrow> bit e k" using bit_15_u8 [OF that] that unfolding e(3) bit_and_iff bit_ucast_iff by simp
      also have "\<dots> \<longleftrightarrow> (\<exists>x \<in> set es. fpr x = fpr e \<and> bit x k)" using ok em that unfolding merged_ok_def by blast
      finally show ?thesis by (simp add: e(2))
    qed
    ultimately show ?thesis using find Some by simp
  qed
qed

section \<open>The entries of the rules\<close>

definition path_hash :: "u64 \<Rightarrow> string list \<Rightarrow> u64" where
  "path_hash h path = foldl (\<lambda>h l. domainSuffixHash h (bytes_of l)) h path"

text \<open>The entries a rule records, one for every node of its path.\<close>

definition node_entries :: "u64 \<Rightarrow> string list \<Rightarrow> u8 \<Rightarrow> u64 set" where
  "node_entries h path flag =
     {domainEntry (path_hash h q) (if q = path then flag else ruleHasChildren) | q. prefix q path \<and> q \<noteq> []}"

definition recent_ok :: "u64 list \<times> domainRecent \<Rightarrow> bool" where
  "recent_ok st \<longleftrightarrow> length (snd st) = 4096 \<and> (\<forall>x \<in> set (snd st). x \<noteq> 0 \<longrightarrow> x \<in> set (fst st))"

lemma seen_ok:
  assumes "recent_ok st" "e \<noteq> 0" "seen (snd st) e = (hit, recent)"
  shows "recent_ok (if hit then fst st else fst st @ [e], recent) \<and>
    set (if hit then fst st else fst st @ [e]) = insert e (set (fst st))"
proof -
  define slot where "slot = unat (drop_bit 4 e AND (of_nat (length (snd st)) - 1 :: u64))"
  have len: "length (snd st) = 4096" using assms(1) by (simp add: recent_ok_def)
  have "slot \<le> unat (4095 :: u64)"
    unfolding slot_def len word_le_nat_alt [symmetric] by (simp add: word_and_le1)
  then have slot: "slot < length (snd st)" by (simp add: len)
  have seen: "seen (snd st) e = (if snd st ! slot = e then (True, snd st) else (False, (snd st)[slot := e]))"
    unfolding seen_def slot_def Let_def by (rule refl)
  show ?thesis
  proof (cases "snd st ! slot = e")
    case True
    then have "e \<in> set (snd st)" using slot nth_mem by fastforce
    with assms True seen show ?thesis by (auto simp: recent_ok_def)
  next
    case False
    with assms seen show ?thesis by (auto simp: recent_ok_def dest!: set_update_subset_insert [THEN subsetD])
  qed
qed

lemma path_hash_simps [simp]:
  "path_hash h [] = h" "path_hash h (l # path) = path_hash (domainSuffixHash h (bytes_of l)) path"
  "path_hash h (path @ [l]) = domainSuffixHash (path_hash h path) (bytes_of l)"
  by (simp_all add: path_hash_def)

lemma node_entries_Cons:
  "node_entries h (l # path) flag =
     (let h' = domainSuffixHash h (bytes_of l)
      in if path = [] then {domainEntry h' flag} else insert (domainEntry h' ruleHasChildren) (node_entries h' path flag))"
proof -
  define h' where "h' = domainSuffixHash h (bytes_of l)"
  define E where "E = (\<lambda>q. domainEntry (path_hash h' q) (if q = path then flag else ruleHasChildren))"
  have "{q. prefix q (l # path) \<and> q \<noteq> []} = Cons l ` {q. prefix q path}" by (auto simp: prefix_Cons)
  then have "node_entries h (l # path) flag = E ` {q. prefix q path}"
    unfolding node_entries_def setcompr_eq_image E_def h'_def by (simp add: image_image)
  also have "{q. prefix q path} = insert [] {q. prefix q path \<and> q \<noteq> []}" by auto
  also have "E ` \<dots> = insert (E []) (node_entries h' path flag)"
    unfolding node_entries_def setcompr_eq_image E_def by simp
  finally show ?thesis by (cases "path = []") (simp_all add: E_def h'_def node_entries_def Let_def)
qed

lemma domainEntry_nonzero: "f \<in> {1, 2, 4, 8} \<Longrightarrow> domainEntry h f \<noteq> 0"
proof
  assume "f \<in> {1, 2, 4, 8}" and z: "domainEntry h f = 0"
  then obtain k where "k < 4" "f < 16" "bit f k"
    by (elim insertE emptyE) (auto intro: that [of 0] that [of 1] that [of 2] that [of 3])
  with bit_domainEntry [of f k h] z show False by simp
qed

lemma compact_path_ok:
  "recent_ok st \<Longrightarrow> flag \<in> {1, 2, 4} \<Longrightarrow>
   recent_ok (compact_path flag h s st) \<and>
   set (fst (compact_path flag h s st)) = set (fst st) \<union> node_entries h (domain_labels s) flag \<and>
   length (fst (compact_path flag h s st)) \<le> length (fst st) + Suc (length s)"
proof (induction flag h s st rule: compact_path.induct)
  case (1 flag h s st)
  let ?i = "last_index CHR ''.'' s"
  let ?h = "domainSuffixHash h (bytes_of (drop (case ?i of None \<Rightarrow> 0 | Some k \<Rightarrow> Suc k) s))"
  let ?e = "domainEntry ?h (case ?i of None \<Rightarrow> flag | Some k \<Rightarrow> if k = 0 then flag else ruleHasChildren)"
  obtain hit recent where seen: "seen (snd st) ?e = (hit, recent)" by fastforce
  let ?st = "(if hit then fst st else fst st @ [?e], recent)"
  have "?e \<noteq> 0" using "1.prems"(2) by (intro domainEntry_nonzero) (auto split: option.splits)
  from seen_ok [OF "1.prems"(1) this seen] have st: "recent_ok ?st" "set (fst ?st) = insert ?e (set (fst st))" by simp_all
  have len: "length (fst ?st) \<le> Suc (length (fst st))" by simp
  show ?case
  proof (cases ?i)
    case None
    then have "compact_path flag h s st = ?st" using seen by (subst compact_path.simps) (simp add: Let_def)
    moreover have "node_entries h (domain_labels s) flag = {?e}"
      using None by (simp add: domain_labels.simps [of s] node_entries_Cons Let_def)
    ultimately show ?thesis using st len by auto
  next
    case (Some k)
    have k: "k < length s" using last_index_Some [OF Some] by simp
    show ?thesis
    proof (cases "k = 0")
      case True
      then have "compact_path flag h s st = ?st" using seen Some by (subst compact_path.simps) (simp add: Let_def)
      moreover have "node_entries h (domain_labels s) flag = {?e}"
        using Some True by (simp add: domain_labels.simps [of s] node_entries_Cons Let_def)
      ultimately show ?thesis using st len by auto
    next
      case False
      then have step: "compact_path flag h s st = compact_path flag ?h (take k s) ?st"
        using seen Some by (subst compact_path.simps) (simp add: Let_def)
      have lab: "domain_labels s = drop (Suc k) s # domain_labels (take k s)"
        using Some False by (simp add: domain_labels.simps [of s])
      have "domain_labels (take k s) \<noteq> []" by (subst domain_labels.simps) (simp split: option.splits)
      then have "node_entries h (domain_labels s) flag = insert ?e (node_entries ?h (domain_labels (take k s)) flag)"
        using Some False by (simp add: lab node_entries_Cons Let_def)
      moreover note "1.IH" [OF refl refl refl refl seen [symmetric] refl Some False st(1) "1.prems"(2)]
      ultimately show ?thesis unfolding step using st(2) len k by auto
    qed
  qed
qed


definition compact_rule :: "u64 \<Rightarrow> bool \<Rightarrow> string \<Rightarrow> u64 list \<times> domainRecent \<Rightarrow> go_error option \<times> u64 list \<times> domainRecent" where
  "compact_rule seed incl r s =
     (case domain_rule incl r of
        Inl e \<Rightarrow> (Some e, s)
      | Inr None \<Rightarrow> (None, s)
      | Inr (Some (domain, flag)) \<Rightarrow> compact_record seed domain flag s)"

definition rule_entries :: "u64 \<Rightarrow> domain_rules \<Rightarrow> u64 set" where
  "rule_entries seed RS = (\<Union>r \<in> set RS. node_entries seed (fst r) (snd r))"

lemma feed_compact_rule:
  "feed (compact_rule seed incl) rules st = Some st' \<Longrightarrow> recent_ok st \<Longrightarrow>
   recent_ok st' \<and> set (fst st') = set (fst st) \<union> rule_entries seed (rules_of incl rules) \<and>
   length (fst st') \<le> length (fst st) + sum_list (map (\<lambda>r. Suc (length r)) rules)"
proof (induction rules arbitrary: st)
  case (Cons r rules)
  from Cons.prems(1) obtain st1 where st1: "compact_rule seed incl r st = (None, st1)" "feed (compact_rule seed incl) rules st1 = Some st'"
    by (auto split: prod.splits option.splits)
  have "recent_ok st1 \<and> set (fst st1) = set (fst st) \<union> rule_entries seed (rules_of incl [r]) \<and>
      length (fst st1) \<le> length (fst st) + Suc (length r)"
  proof (cases "domain_rule incl r")
    case (Inr x)
    show ?thesis
    proof (cases x)
      case None
      with Inr st1(1) Cons.prems(2) show ?thesis by (simp add: compact_rule_def rules_of_def rule_entries_def)
    next
      case (Some p)
      obtain d f where p: "p = (d, f)" by fastforce
      note ok = domain_rule_ok [OF Inr [unfolded Some p]]
      have "st1 = compact_path f seed d st" using st1(1) Inr Some p by (simp add: compact_rule_def compact_record_def)
      with compact_path_ok [OF Cons.prems(2), of f seed d] ok(1,2) Inr Some p show ?thesis
        by (auto simp: rules_of_def rule_entries_def)
    qed
  qed (use st1 in \<open>simp add: compact_rule_def\<close>)
  moreover have "rules_of incl (r # rules) = rules_of incl [r] @ rules_of incl rules" by (simp add: rules_of_def split: sum.splits option.splits)
  ultimately show ?case using Cons.IH [OF st1(2)] by (auto simp: rule_entries_def)
qed (simp add: rules_of_def rule_entries_def)

section \<open>The store covers its rules\<close>

abbreviation path_fpr :: "u64 \<Rightarrow> string list \<Rightarrow> u64" where
  "path_fpr seed path \<equiv> fpr (avalanche64 (path_hash seed path))"

text \<open>No other node of the rules has the fingerprint of a suffix of the name.\<close>

definition no_collision :: "u64 \<Rightarrow> domain_rules \<Rightarrow> string list \<Rightarrow> bool" where
  "no_collision seed RS labels \<longleftrightarrow>
     (\<forall>p \<in> set (prefixes labels). \<forall>r \<in> set RS. \<forall>q \<in> set (prefixes (fst r)).
        p \<noteq> [] \<and> q \<noteq> [] \<and> path_fpr seed q = path_fpr seed p \<longrightarrow> q = p)"

lemma flag_bit:
  fixes f :: u8
  assumes "f \<in> {1, 2, 4, 8}"
  obtains k where "k < 4" "f < 16" "\<And>fl :: u8. fl AND f \<noteq> 0 \<longleftrightarrow> bit fl k" "\<And>g :: u8. g \<in> {1, 2, 4, 8} \<Longrightarrow> bit g k \<longleftrightarrow> g = f"
proof -
  from assms obtain k where k: "k < 4" "f = 2 ^ k"
    by (elim insertE emptyE) (auto intro: that [of 0] that [of 1] that [of 2] that [of 3])
  have "fl AND f \<noteq> 0 \<longleftrightarrow> bit fl k" for fl :: u8 using k(1) by (simp add: k(2) and_exp_eq_0_iff_not_bit)
  moreover have "bit g k \<longleftrightarrow> g = f" if "g \<in> {1, 2, 4, 8}" for g :: u8
  proof -
    from that obtain j where j: "j < 4" "g = 2 ^ j"
      by (elim insertE emptyE) (auto intro: that [of 0] that [of 1] that [of 2] that [of 3])
    have "bit g k \<longleftrightarrow> k = j" "bit f k" using j k by (simp_all add: bit_exp_iff)
    with j(2) k(2) show ?thesis by blast
  qed
  moreover have "f < 16" using assms by auto
  ultimately show ?thesis using k(1) that by blast
qed

lemma in_rule_entries:
  "e \<in> rule_entries seed RS \<longleftrightarrow>
     (\<exists>r \<in> set RS. \<exists>q. prefix q (fst r) \<and> q \<noteq> [] \<and> e = domainEntry (path_hash seed q) (if q = fst r then snd r else ruleHasChildren))"
  by (auto simp: rule_entries_def node_entries_def)

text \<open>The flags that the entries of a path add up to.\<close>

definition path_flags :: "u64 \<Rightarrow> domain_rules \<Rightarrow> string list \<Rightarrow> u8 \<Rightarrow> bool" where
  "path_flags seed RS path fl \<longleftrightarrow>
     (\<forall>k < 4. bit fl k \<longleftrightarrow> (\<exists>e \<in> rule_entries seed RS. fpr e = path_fpr seed path \<and> bit e k))"

lemma path_flags_entry:
  assumes "path_flags seed RS path fl" "domainEntry (path_hash seed path) f \<in> rule_entries seed RS" "f \<in> {1, 2, 4, 8}"
  shows "fl AND f \<noteq> 0"
proof -
  obtain k where k: "k < 4" "f < 16" "fl AND f \<noteq> 0 \<longleftrightarrow> bit fl k" "bit f k"
    using flag_bit [OF assms(3)] assms(3) by metis
  then show ?thesis using assms(1,2) unfolding path_flags_def
    by (metis bit_domainEntry fpr_domainEntry)
qed

lemma path_flags_cover:
  assumes "rules_ok RS" "path \<noteq> []" "path_flags seed RS path fl"
  shows "flags_cover RS path fl"
proof -
  have "fl AND f \<noteq> 0" if "f \<in> {1, 2, 4}" "(path, f) \<in> set RS" for f
  proof (rule path_flags_entry [OF assms(3)])
    show "domainEntry (path_hash seed path) f \<in> rule_entries seed RS"
      unfolding in_rule_entries using that(2) assms(2) by (intro bexI [of _ "(path, f)"] exI [of _ path]) simp_all
  qed (use that(1) in auto)
  moreover have "fl AND 8 \<noteq> 0" if "r \<in> set RS" "strict_prefix path (fst r)" for r
  proof (rule path_flags_entry [OF assms(3)])
    show "domainEntry (path_hash seed path) 8 \<in> rule_entries seed RS"
      unfolding in_rule_entries using that assms(2) by (intro bexI [of _ r] exI [of _ path]) (auto simp: strict_prefix_def)
  qed simp
  ultimately show ?thesis unfolding flags_cover_def by blast
qed

lemma path_flags_exact:
  assumes "rules_ok RS" "path \<noteq> []" "path_flags seed RS path fl" "no_collision seed RS labels" "prefix path labels"
  shows "flags_exact RS path fl"
proof -
  have hit: "\<exists>r \<in> set RS. prefix path (fst r) \<and> (if path = fst r then snd r else 8) = f"
    if "f \<in> {1, 2, 4, 8}" "fl AND f \<noteq> 0" for f
  proof -
    note f = that
    obtain k where k: "k < 4" "bit fl k" "\<And>g :: u8. g \<in> {1, 2, 4, 8} \<Longrightarrow> bit g k \<longleftrightarrow> g = f"
      using flag_bit [OF f(1)] f(2) by metis
    from assms(3) k(1,2) obtain e where e: "e \<in> rule_entries seed RS" "fpr e = path_fpr seed path" "bit e k"
      unfolding path_flags_def by blast
    from e(1) obtain r q where q: "r \<in> set RS" "prefix q (fst r)" "q \<noteq> []"
      "e = domainEntry (path_hash seed q) (if q = fst r then snd r else 8)"
      unfolding in_rule_entries by blast
    let ?g = "if q = fst r then snd r else 8"
    have g: "?g \<in> {1, 2, 4, 8}" using assms(1) q(1) by (auto simp: rules_ok_def)
    then have "?g < 16" by auto
    then have "path_fpr seed q = path_fpr seed path" "bit ?g k"
      using e(2,3) k(1) q(4) fpr_domainEntry bit_domainEntry by metis+
    moreover from this(1) have "q = path"
      using assms(2,4,5) q(1-3) by (auto simp: no_collision_def)
    ultimately show ?thesis using q(1,2) k(3) [OF g] by auto
  qed
  have "(path, f) \<in> set RS" if "f \<in> {1, 2, 4}" "fl AND f \<noteq> 0" for f
    using hit [of f] that by (auto split: if_splits)
  moreover have "\<exists>r \<in> set RS. strict_prefix path (fst r)" if "fl AND 8 \<noteq> 0"
  proof -
    from hit [of 8] that obtain r where r: "r \<in> set RS" "prefix path (fst r)" "(if path = fst r then snd r else 8) = 8" by auto
    have "snd r \<in> {1, 2, 4}" using assms(1) r(1) by (simp add: rules_ok_def)
    then have "snd r \<noteq> 8" by auto
    with r(3) have "path \<noteq> fst r" by auto
    with r(1,2) show ?thesis by (auto simp: strict_prefix_def)
  qed
  moreover note path_flags_cover [OF assms(1-3)]
  ultimately show ?thesis unfolding flags_exact_def flags_cover_def by blast
qed

section \<open>The store satisfies the contract\<close>

definition loaded_entries :: "u64 \<Rightarrow> bool \<Rightarrow> string list \<Rightarrow> u64 list option" where
  "loaded_entries seed incl rules =
     (if sum_list (map (\<lambda>r. Suc (length r)) rules) < 2 ^ 32
      then map_option fst (feed (compact_rule seed incl) rules ([], newDomainRecent)) else None)"

definition compact_rules :: "u64 \<Rightarrow> bool \<Rightarrow> string list \<Rightarrow> domain_rules" where
  "compact_rules seed incl rules = (if loaded_entries seed incl rules = None then [] else rules_of incl rules)"

definition compact_store :: "u64 \<Rightarrow> bool \<Rightarrow> string list \<Rightarrow> domainFingerprints" where
  "compact_store seed incl rules =
     build (case loaded_entries seed incl rules of None \<Rightarrow> [] | Some es \<Rightarrow> es)
       \<lparr>df_entries = [], df_index = [], df_shift = 0, df_seed = seed\<rparr>"

lemma compact_store_build:
  "\<exists>es. compact_store seed incl rules = build es \<lparr>df_entries = [], df_index = [], df_shift = 0, df_seed = seed\<rparr> \<and>
     set es = rule_entries seed (compact_rules seed incl rules) \<and> length es < 2 ^ 32"
proof (cases "loaded_entries seed incl rules")
  case None
  then show ?thesis by (intro exI [of _ "[]"]) (simp add: compact_store_def compact_rules_def rule_entries_def)
next
  case (Some es)
  then obtain st where st: "feed (compact_rule seed incl) rules ([], newDomainRecent) = Some st" "es = fst st"
    "sum_list (map (\<lambda>r. Suc (length r)) rules) < 2 ^ 32" by (auto simp: loaded_entries_def split: if_splits)
  have "recent_ok ([], newDomainRecent)" by (simp add: recent_ok_def newDomainRecent_def)
  from feed_compact_rule [OF st(1) this] st(2,3) Some show ?thesis
    by (intro exI [of _ es]) (simp add: compact_store_def compact_rules_def)
qed

lemma compact_rules_ok: "rules_ok (compact_rules seed incl rules)"
  using rules_ok_rules_of by (simp add: compact_rules_def rules_ok_def)

lemma compact_kid_spec:
  fixes seed incl rules
  defines "RS \<equiv> compact_rules seed incl rules"
  shows "\<exists>r. compact_kid (compact_store seed incl rules) (path_hash seed path) l = Some r \<and>
    (case r of
       None \<Rightarrow> \<not> node_exists RS (path @ [l])
     | Some (h, fl) \<Rightarrow> h = path_hash seed (path @ [l]) \<and> path_flags seed RS (path @ [l]) fl)"
proof -
  obtain es f where es: "compact_store seed incl rules = build es f" "set es = rule_entries seed RS" "length es < 2 ^ 32"
    using compact_store_build [of seed incl rules] unfolding RS_def by blast
  from find_build [OF es(3), of f "path_hash seed (path @ [l])", unfolded es(2)] obtain r where
    r: "find_flags (build es f) (path_hash seed (path @ [l])) = Some r"
    "case r of None \<Rightarrow> \<forall>e \<in> rule_entries seed RS. fpr e \<noteq> path_fpr seed (path @ [l])
     | Some fl \<Rightarrow> (\<exists>e \<in> rule_entries seed RS. fpr e = path_fpr seed (path @ [l])) \<and> path_flags seed RS (path @ [l]) fl"
    unfolding path_flags_def by blast
  have "compact_kid (build es f) (path_hash seed path) l = Some (map_option (Pair (path_hash seed (path @ [l]))) r)"
    using r(1) by (simp add: compact_kid_def Let_def)
  moreover have "\<not> node_exists RS (path @ [l])" if "r = None"
  proof
    assume "node_exists RS (path @ [l])"
    then obtain q where q: "q \<in> set RS" "prefix (path @ [l]) (fst q)" by (auto simp: node_exists_def)
    let ?f = "if path @ [l] = fst q then snd q else ruleHasChildren"
    have "?f < 16" using compact_rules_ok [of seed incl rules] q(1) unfolding RS_def rules_ok_def by auto
    moreover have "domainEntry (path_hash seed (path @ [l])) ?f \<in> rule_entries seed RS"
      unfolding in_rule_entries using q by (intro bexI [of _ q] exI [of _ "path @ [l]"] conjI) simp_all
    ultimately show False using r(2) that fpr_domainEntry by fastforce
  qed
  ultimately show ?thesis using r(2) unfolding es(1) by (cases r) simp_all
qed

lemma compact_root_exact: "flags_exact (compact_rules seed incl rules) [] (rootFlags (compact_store seed incl rules))"
proof -
  let ?RS = "compact_rules seed incl rules"
  obtain es f where es: "compact_store seed incl rules = build es f" "set es = rule_entries seed ?RS"
    using compact_store_build [of seed incl rules] by blast
  have "fpr ` set (df_entries (build es f)) = fpr ` set es" using merge_ok [of es] by (simp add: build_def Let_def merged_ok_def)
  then have "df_entries (build es f) = [] \<longleftrightarrow> es = []" by (metis image_is_empty set_empty)
  moreover have "es = [] \<longleftrightarrow> ?RS = []"
  proof -
    have "domainEntry (path_hash seed (fst r)) (snd r) \<in> rule_entries seed ?RS" if "r \<in> set ?RS" for r
      unfolding in_rule_entries using that compact_rules_ok [of seed incl rules]
      by (intro bexI [of _ r] exI [of _ "fst r"]) (auto simp: rules_ok_def)
    then have "?RS \<noteq> [] \<Longrightarrow> rule_entries seed ?RS \<noteq> {}" using list.set_sel(1) by blast
    then have "rule_entries seed ?RS = {} \<longleftrightarrow> ?RS = []" by (auto simp: rule_entries_def)
    with es(2) show ?thesis by (metis set_empty)
  qed
  moreover have "\<forall>r \<in> set ?RS. fst r \<noteq> []" using compact_rules_ok [of seed incl rules] by (simp add: rules_ok_def)
  moreover from this have "([], f) \<notin> set ?RS" for f by force
  moreover have "(\<exists>r \<in> set ?RS. strict_prefix [] (fst r)) \<longleftrightarrow> ?RS \<noteq> []" using calculation(3) by (cases ?RS) (auto simp: strict_prefix_def)
  ultimately show ?thesis by (simp add: es(1) flags_exact_def rootFlags_def)
qed

interpretation compact: domain_cover "compact_rules seed incl rules" "compact_kid (compact_store seed incl rules)" seed
  "rootFlags (compact_store seed incl rules)" "\<lambda>path h. h = path_hash seed path" for seed incl rules
proof (unfold_locales, goal_cases)
  case 1
  show ?case by (rule compact_rules_ok)
next
  case 2
  show ?case by simp
next
  case 3
  show ?case by (rule flags_exact_cover [OF compact_root_exact])
next
  case (4 path h l)
  then show ?case using compact_kid_spec [of seed incl rules path l] by auto
next
  case (5 path h l h' fl)
  then show ?case using compact_kid_spec [of seed incl rules path l] by auto
next
  case (6 path h l)
  then show ?case using compact_kid_spec [of seed incl rules path l] path_flags_cover [OF compact_rules_ok, of "path @ [l]"]
    by (fastforce split: option.splits)
qed

text \<open>The match against the store of a list of rules.\<close>

lemma compact_match:
  assumes ld: "loaded_entries seed incl rules = Some es" and q: "domainQueryName msg = Some qname"
    and db: "db = \<lparr>dc_name = name, dc_fingerprints = build es \<lparr>df_entries = [], df_index = [], df_shift = 0, df_seed = seed\<rparr>,
        dc_loader = l', dc_includeSubdomains = incl\<rparr>"
  shows "\<exists>m matched. DomainCompactDB_Match db msg = Some ([], [], m, matched) \<and>
      (domain_covers (rules_of incl rules) (name_labels qname) \<longrightarrow> matched) \<and>
      (no_collision seed (rules_of incl rules) (name_labels qname) \<longrightarrow>
         matched = domain_covers (rules_of incl rules) (name_labels qname))"
proof -
  have RS: "compact_rules seed incl rules = rules_of incl rules" using ld by (simp add: compact_rules_def)
  have store: "dc_fingerprints db = compact_store seed incl rules" using ld by (simp add: compact_store_def db)
  have seed: "df_seed (compact_store seed incl rules) = seed" by (simp add: compact_store_def build_def Let_def)
  let ?walk = "domain_walk (compact_kid (compact_store seed incl rules)) name qname (length qname) seed
      (rootFlags (compact_store seed incl rules))"
  have "?walk \<noteq> None" by (rule compact.walk_total [of seed seed "[]"]) simp_all
  then obtain m where m: "?walk = Some m" by blast
  have "DomainCompactDB_Match db msg = Some ([], [], m, m \<noteq> None)"
    using m q seed by (simp add: DomainCompactDB_Match_def DomainCompactDB_match_def store db [THEN arg_cong, of dc_name, simplified] domain_result_def)
  moreover have "m \<noteq> None" if "domain_covers (rules_of incl rules) (name_labels qname)"
    using compact.never_missed [of seed incl rules qname name] that m RS by auto
  moreover have "m \<noteq> None \<longleftrightarrow> domain_covers (rules_of incl rules) (name_labels qname)"
    if nc: "no_collision seed (rules_of incl rules) (name_labels qname)"
  proof -
    have "flags_exact (rules_of incl rules) (p @ [k]) fl"
      if "prefix (p @ [k]) (name_labels qname)" "compact_kid (compact_store seed incl rules) (path_hash seed p) k = Some (Some (n', fl))"
      for p k n' fl
      using compact_kid_spec [of seed incl rules p k] that path_flags_exact [OF compact_rules_ok _ _ nc [folded RS], of "p @ [k]"] RS by auto
    then show ?thesis
      using compact.walk_iff_on [of seed incl rules qname name] compact_root_exact [of seed incl rules] m unfolding RS by auto
  qed
  ultimately show ?thesis by blast
qed

text \<open>
  C22: the compact store never misses a listed name, and differs from the exact store only by a
  collision. When a list that records less than \<^verbatim>\<open>2^32\<close> labels was loaded, a query whose name is
  covered by a rule matches whatever the seed is; and when no suffix of the name shares its 60-bit
  fingerprint with a different node of the list, the query matches if and only if a rule covers it.
\<close>

theorem DomainCompactDB_Match_covers:
  assumes "newDomainCompactDB seed w name l incl = (Inr db, l', w')"
  shows "\<exists>rules. (offered w l rules \<or> may_start_empty l \<and> rules = []) \<and>
    (sum_list (map (\<lambda>r. Suc (length r)) rules) < 2 ^ 32 \<longrightarrow>
     (\<forall>msg qname. domainQueryName msg = Some qname \<longrightarrow>
        (\<exists>m matched. DomainCompactDB_Match db msg = Some ([], [], m, matched) \<and>
           (domain_covers (rules_of incl rules) (name_labels qname) \<longrightarrow> matched) \<and>
           (no_collision seed (rules_of incl rules) (name_labels qname) \<longrightarrow>
              matched = domain_covers (rules_of incl rules) (name_labels qname)))))"
proof -
  let ?s0 = "([], newDomainRecent)"
  have fn: "(\<lambda>r s. case domain_rule incl r of Inl e \<Rightarrow> (Some e, s) | Inr None \<Rightarrow> (None, s)
       | Inr (Some (domain, flag)) \<Rightarrow> compact_record seed domain flag s) = compact_rule seed incl"
    by (simp add: compact_rule_def fun_eq_iff)
  obtain es recent where es: "Load w l (\<lambda>_. ?s0) (compact_rule seed incl) ?s0 = ((None, (es, recent)), l', w')"
    and db: "db = \<lparr>dc_name = name, dc_fingerprints = build es \<lparr>df_entries = [], df_index = [], df_shift = 0, df_seed = seed\<rparr>,
        dc_loader = l', dc_includeSubdomains = incl\<rparr>"
    using assms by (auto simp: newDomainCompactDB_def domainRules_def fn split: prod.splits option.splits)
  from Load_cases [OF es] obtain rules where
    r: "offered w l rules \<or> may_start_empty l \<and> rules = []" "feed (compact_rule seed incl) rules ?s0 = Some (es, recent)" by blast
  have "loaded_entries seed incl rules = Some es" if "sum_list (map (\<lambda>r. Suc (length r)) rules) < 2 ^ 32"
    using r(2) that by (simp add: loaded_entries_def)
  with r(1) show ?thesis using compact_match [OF _ _ db] by blast
qed

lemma ref_newDomainCompactDB:
  "\<exists>db. newDomainCompactDB 7 ref_world ''list'' (StaticLoader [''a'']) False = (Inr db, StaticLoader [''a''], ref_world)"
proof -
  have "domain_rule False ''a'' = Inr (Some (''a'', 1))" by code_simp
  then show ?thesis by (simp add: newDomainCompactDB_def domainRules_def compact_record_def split: prod.splits)
qed

lemma ref_no_collision: "no_collision 7 [([''a''], 1)] [''b'']"
  by (simp add: no_collision_def path_hash_def domainSuffixHash_def avalanche64_def fpr_def bytes_of_def)

theorem DomainCompactDB_Match_covers_witness:
  "\<exists>db m m'. newDomainCompactDB 7 ref_world ''list'' (StaticLoader [''a'']) False = (Inr db, StaticLoader [''a''], ref_world) \<and>
     DomainCompactDB_Match db (ref_query ''A.'' 1) = Some ([], [], m, True) \<and>
     DomainCompactDB_Match db (ref_query ''b.'' 1) = Some ([], [], m', False)"
proof -
  obtain db where db: "newDomainCompactDB 7 ref_world ''list'' (StaticLoader [''a'']) False = (Inr db, StaticLoader [''a''], ref_world)"
    using ref_newDomainCompactDB by blast
  have q: "domainQueryName (ref_query ''A.'' 1) = Some ''a''" "domainQueryName (ref_query ''b.'' 1) = Some ''b''"
    "rules_of False [''a''] = [([''a''], 1)]" "name_labels ''a'' = [''a'']" "name_labels ''b'' = [''b'']"
    "domain_covers [([''a''], 1)] [''a'']" "\<not> domain_covers [([''a''], 1)] [''b'']" by code_simp+
  from DomainCompactDB_Match_covers [OF db] have *: "\<forall>msg qname. domainQueryName msg = Some qname \<longrightarrow>
      (\<exists>m matched. DomainCompactDB_Match db msg = Some ([], [], m, matched) \<and>
         (domain_covers [([''a''], 1)] (name_labels qname) \<longrightarrow> matched) \<and>
         (no_collision 7 [([''a''], 1)] (name_labels qname) \<longrightarrow> matched = domain_covers [([''a''], 1)] (name_labels qname)))"
    using q(3) by auto
  from *[rule_format, OF q(1)] *[rule_format, OF q(2)] q(4-7) ref_no_collision db show ?thesis by auto
qed

end
