(* ===== verification/Routing.thy ===== *)
theory Routing
  imports ResolverGroups NetParse
begin

text \<open>
  Routes and the router: \<^verbatim>\<open>route.go\<close> and \<^verbatim>\<open>router.go\<close>. A route is a conjunction of criteria that can be
  inverted; the router sends a query to the resolver of its first matching route.
\<close>

section \<open>Regular expressions and the clock\<close>

text \<open>
  A compiled regular expression is the text it was made from and the set of strings it matches.
  Compilation is the argument \<open>Compile\<close> of the operations that need it. Local time is an argument as
  well, \<open>now i\<close> being the reading for the \<open>i\<close>-th route.
\<close>

record Regexp =
  re_String :: string
  re_MatchString :: "string \<Rightarrow> bool"

type_synonym regexp_Compile = "string \<Rightarrow> Regexp option"

definition Compile_law :: "regexp_Compile \<Rightarrow> bool" where
  "Compile_law C \<longleftrightarrow>
     (\<forall>s re. C s = Some re \<longrightarrow> re_String re = s) \<and>
     (\<exists>re. C [] = Some re \<and> (\<forall>s. re_MatchString re s))"

datatype Weekday = Sunday | Monday | Tuesday | Wednesday | Thursday | Friday | Saturday

fun Weekday_String :: "Weekday \<Rightarrow> string" where
  "Weekday_String Sunday = ''Sunday''"
| "Weekday_String Monday = ''Monday''"
| "Weekday_String Tuesday = ''Tuesday''"
| "Weekday_String Wednesday = ''Wednesday''"
| "Weekday_String Thursday = ''Thursday''"
| "Weekday_String Friday = ''Friday''"
| "Weekday_String Saturday = ''Saturday''"

record LocalTime =
  lt_Weekday :: Weekday
  lt_Hour :: int
  lt_Minute :: int

section \<open>Times of day\<close>

record TimeOfDay =
  td_hour :: int
  td_minute :: int

definition parseTimeOfDay :: "string \<Rightarrow> go_error + TimeOfDay option" where
  "parseTimeOfDay t =
     (if t = [] then Inr None
      else
        let (h, m) = (case cut CHR '':'' t of None \<Rightarrow> (t, None) | Some (h, m) \<Rightarrow> (h, Some m)) in
        case Atoi h of
          None \<Rightarrow> Inl (ErrOther ''Atoi'')
        | Some hour \<Rightarrow>
            if hour < 0 \<or> 23 < hour then Inl (ErrOther ''invalid time of day: hour'')
            else case m of
                None \<Rightarrow> Inr (Some \<lparr>td_hour = hour, td_minute = 0\<rparr>)
              | Some ms \<Rightarrow>
                  (case Atoi ms of
                     None \<Rightarrow> Inl (ErrOther ''Atoi'')
                   | Some mi \<Rightarrow>
                       if mi < 0 \<or> 59 < mi then Inl (ErrOther ''invalid time of day: minute'')
                       else Inr (Some \<lparr>td_hour = hour, td_minute = mi\<rparr>)))"

definition isBefore :: "TimeOfDay \<Rightarrow> int \<Rightarrow> int \<Rightarrow> bool" where
  "isBefore t hour minute \<longleftrightarrow> td_hour t < hour \<or> (td_hour t = hour \<and> td_minute t \<le> minute)"

definition isAfter :: "TimeOfDay \<Rightarrow> int \<Rightarrow> int \<Rightarrow> bool" where
  "isAfter t hour minute \<longleftrightarrow> td_hour t > hour \<or> (td_hour t = hour \<and> td_minute t > minute)"

text \<open>\<^verbatim>\<open>%02d\<close> of a number that is not negative.\<close>

definition pad2 :: "int \<Rightarrow> string" where
  "pad2 n = (let s = Itoa (nat n) in if length s < 2 then CHR ''0'' # s else s)"

definition TimeOfDay_String :: "TimeOfDay \<Rightarrow> string" where
  "TimeOfDay_String t = pad2 (td_hour t) @ '':'' @ pad2 (td_minute t)"

section \<open>Types, classes and weekdays\<close>

text \<open>\<open>TypeToString\<close> is the table of the DNS library, in the order in which Go ranges over it.\<close>

fun stringToType :: "(u16 \<times> string) list \<Rightarrow> string list \<Rightarrow> go_error + u16 list" where
  "stringToType TypeToString [] = Inr []"
| "stringToType TypeToString (typ # s) =
     (case find (\<lambda>(k, v). v = ToUpper typ) TypeToString of
        None \<Rightarrow> Inl (ErrOther (''unknown type '' @ typ))
      | Some (k, v) \<Rightarrow>
          (case stringToType TypeToString s of Inl e \<Rightarrow> Inl e | Inr types \<Rightarrow> Inr (k # types)))"

definition stringToClass :: "string \<Rightarrow> go_error + u16" where
  "stringToClass s =
     (let u = ToUpper s in
      if u = [] then Inr 0
      else if u = ''IN'' \<or> u = ''INET'' then Inr 1
      else if u = ''CH'' then Inr 3
      else if u = ''HS'' then Inr 4
      else if u = ''NONE'' then Inr 254
      else if u = ''ANY'' then Inr 255
      else Inl (ErrOther (''unknown class '' @ s)))"

definition classToString :: "u16 \<Rightarrow> go_error + string" where
  "classToString c =
     (if c = 1 then Inr ''IN''
      else if c = 3 then Inr ''CH''
      else if c = 4 then Inr ''HS''
      else if c = 254 then Inr ''NONE''
      else if c = 255 then Inr ''ANY''
      else Inl (ErrOther ''unknown class identifier''))"

fun stringsToWeekdays :: "string list \<Rightarrow> go_error + Weekday list" where
  "stringsToWeekdays [] = Inr []"
| "stringsToWeekdays (day # days) =
     (let weekday =
        (if day = ''mon'' then Some Monday
         else if day = ''tue'' then Some Tuesday
         else if day = ''wed'' then Some Wednesday
         else if day = ''thu'' then Some Thursday
         else if day = ''fri'' then Some Friday
         else if day = ''sat'' then Some Saturday
         else if day = ''sun'' then Some Sunday
         else None)
      in case weekday of
           None \<Rightarrow> Inl (ErrOther (''unrecognized weekday '' @ day))
         | Some d \<Rightarrow>
             (case stringsToWeekdays days of Inl e \<Rightarrow> Inl e | Inr ds \<Rightarrow> Inr (d # ds)))"

section \<open>Routes\<close>

record 'w route =
  rt_types :: "u16 list"
  rt_class :: u16
  rt_name :: Regexp
  rt_source :: "IPNet option"
  rt_ecsSource :: "IPNet option"
  rt_weekdays :: "Weekday list"
  rt_before :: "TimeOfDay option"
  rt_after :: "TimeOfDay option"
  rt_inverted :: bool
  rt_dohPath :: Regexp
  rt_resolver :: "'w resolver"
  rt_listenerID :: Regexp
  rt_tlsServerName :: Regexp

text \<open>The error of a failed regular expression or network; \<open>the_re\<close> and \<open>the_net\<close> are the checks of \<^verbatim>\<open>NewRoute\<close>.\<close>

definition compile_or :: "regexp_Compile \<Rightarrow> string \<Rightarrow> go_error + Regexp" where
  "compile_or C s = (case C s of None \<Rightarrow> Inl (ErrOther ''regexp'') | Some re \<Rightarrow> Inr re)"

definition network_or :: "string \<Rightarrow> go_error + IPNet option" where
  "network_or s =
     (if s = [] then Inr None
      else case ParseCIDR s of None \<Rightarrow> Inl (ErrOther ''invalid CIDR address'') | Some (_, n) \<Rightarrow> Inr (Some n))"

definition bind_err :: "'e + 'a \<Rightarrow> ('a \<Rightarrow> 'e + 'b) \<Rightarrow> 'e + 'b" where
  "bind_err x f = (case x of Inl e \<Rightarrow> Inl e | Inr a \<Rightarrow> f a)"

lemma bind_err_simps [simp]: "bind_err (Inl e) f = Inl e" "bind_err (Inr a) f = f a"
  by (simp_all add: bind_err_def)

lemma bind_err_Inr_iff: "bind_err x f = Inr b \<longleftrightarrow> (\<exists>a. x = Inr a \<and> f a = Inr b)"
  by (cases x) auto

definition NewRoute ::
  "regexp_Compile \<Rightarrow> (u16 \<times> string) list \<Rightarrow> string \<Rightarrow> string \<Rightarrow> string list \<Rightarrow> string list \<Rightarrow> string \<Rightarrow>
   string \<Rightarrow> string \<Rightarrow> string \<Rightarrow> string \<Rightarrow> string \<Rightarrow> string \<Rightarrow> 'w resolver option \<Rightarrow> go_error + 'w route" where
  "NewRoute C TypeToString name cls types weekdays before after source ecsSource dohPath listenerID
     tlsServerName resolver =
     (case resolver of
        None \<Rightarrow> Inl (ErrOther ''no resolver defined for route'')
      | Some res \<Rightarrow>
          bind_err (stringToType TypeToString types) (\<lambda>t.
          bind_err (stringsToWeekdays weekdays) (\<lambda>w.
          bind_err (parseTimeOfDay before) (\<lambda>b.
          bind_err (parseTimeOfDay after) (\<lambda>a.
          bind_err (stringToClass cls) (\<lambda>c.
          bind_err (compile_or C name) (\<lambda>re.
          bind_err (compile_or C dohPath) (\<lambda>dohRe.
          bind_err (compile_or C listenerID) (\<lambda>listenerRe.
          bind_err (compile_or C tlsServerName) (\<lambda>tlsRe.
          bind_err (network_or source) (\<lambda>sNet.
          bind_err (network_or ecsSource) (\<lambda>ecsNet.
            Inr \<lparr>rt_types = t, rt_class = c, rt_name = re, rt_source = sNet, rt_ecsSource = ecsNet,
                 rt_weekdays = w, rt_before = b, rt_after = a, rt_inverted = False, rt_dohPath = dohRe,
                 rt_resolver = res, rt_listenerID = listenerRe, rt_tlsServerName = tlsRe\<rparr>))))))))))))"

definition matchType :: "'w route \<Rightarrow> u16 \<Rightarrow> bool" where
  "matchType r typ = (if rt_types r = [] then True else typ \<in> set (rt_types r))"

text \<open>The address of the last client-subnet option, nil without one.\<close>

definition last_ecs :: "EDNS0 list \<Rightarrow> IP" where
  "last_ecs opts = foldl (\<lambda>ip s. case s of EDNS0_SUBNET f n sc a \<Rightarrow> a | _ \<Rightarrow> ip) [] opts"

text \<open>The \<^verbatim>\<open>match\<close> method for a query with question \<open>question\<close>.\<close>

definition route_match :: "dnslib \<Rightarrow> LocalTime \<Rightarrow> 'w route \<Rightarrow> Question \<Rightarrow> Msg \<Rightarrow> ClientInfo \<Rightarrow> bool" where
  "route_match L now r question q ci =
     (if \<not> matchType r (q_Qtype question) then rt_inverted r
      else if rt_class r \<noteq> 0 \<and> rt_class r \<noteq> q_Qclass question then rt_inverted r
      else if \<not> re_MatchString (rt_name r) (q_Name question) then rt_inverted r
      else if (case rt_source r of None \<Rightarrow> False | Some n \<Rightarrow> \<not> Contains n (ci_SourceIP ci)) then rt_inverted r
      else if (case rt_ecsSource r of None \<Rightarrow> False
               | Some n \<Rightarrow> let ecsIP = last_ecs (edns0_options L q) in ecsIP = [] \<or> \<not> Contains n ecsIP)
           then rt_inverted r
      else if \<not> re_MatchString (rt_dohPath r) (ci_DoHPath ci) then rt_inverted r
      else if \<not> re_MatchString (rt_listenerID r) (ci_Listener ci) then rt_inverted r
      else if \<not> re_MatchString (rt_tlsServerName r) (ci_TLSServerName ci) then rt_inverted r
      else if rt_weekdays r \<noteq> [] \<and> lt_Weekday now \<notin> set (rt_weekdays r) then rt_inverted r
      else if (case rt_before r of None \<Rightarrow> False | Some t \<Rightarrow> \<not> isAfter t (lt_Hour now) (lt_Minute now))
           then rt_inverted r
      else if (case rt_after r of None \<Rightarrow> False | Some t \<Rightarrow> \<not> isBefore t (lt_Hour now) (lt_Minute now))
           then rt_inverted r
      else \<not> rt_inverted r)"

definition route_Invert :: "'w route \<Rightarrow> bool \<Rightarrow> 'w route" where
  "route_Invert r value = r\<lparr>rt_inverted := value\<rparr>"

definition isDefault :: "'w route \<Rightarrow> bool" where
  "isDefault r \<longleftrightarrow> rt_class r = 0 \<and> rt_types r = [] \<and> re_String (rt_name r) = []"

text \<open>\<^verbatim>\<open>%v\<close> of a slice of strings.\<close>

definition brackets :: "string list \<Rightarrow> string" where
  "brackets ss = ''['' @ Join ss '' '' @ '']''"

definition route_String :: "(u16 \<times> string) list \<Rightarrow> 'w route \<Rightarrow> string" where
  "route_String TypeToString r =
     (if isDefault r then ''(default)''
      else
        let typ = (\<lambda>t. case map_of TypeToString t of None \<Rightarrow> [] | Some s \<Rightarrow> s);
            fragments =
              (if rt_types r \<noteq> [] then [''types='' @ brackets (map typ (rt_types r))] else []) @
              (if re_String (rt_name r) \<noteq> [] then [''name='' @ re_String (rt_name r)] else []) @
              (if rt_class r \<noteq> 0
               then [''class='' @ (case classToString (rt_class r) of Inl _ \<Rightarrow> [] | Inr s \<Rightarrow> s)] else []) @
              (case rt_source r of None \<Rightarrow> [] | Some n \<Rightarrow> [''source='' @ IPNet_String n]) @
              (case rt_ecsSource r of None \<Rightarrow> [] | Some n \<Rightarrow> [''ecs-source='' @ IPNet_String n]) @
              (if re_String (rt_dohPath r) \<noteq> [] then [''doh-path='' @ re_String (rt_dohPath r)] else []) @
              (if re_String (rt_listenerID r) \<noteq> [] then [''listener='' @ re_String (rt_listenerID r)] else []) @
              (if re_String (rt_tlsServerName r) \<noteq> []
               then [''servername='' @ re_String (rt_tlsServerName r)] else []) @
              (if rt_weekdays r \<noteq> [] then [''weekdays='' @ brackets (map Weekday_String (rt_weekdays r))] else []) @
              (case rt_after r of None \<Rightarrow> [] | Some t \<Rightarrow> [''after='' @ TimeOfDay_String t]) @
              (case rt_before r of None \<Rightarrow> [] | Some t \<Rightarrow> [''before='' @ TimeOfDay_String t]) @
              (if rt_inverted r then [''invert=true''] else [])
        in ''('' @ Join fragments '','' @ '')'')"

section \<open>The router\<close>

record 'w Router =
  ro_routes :: "'w route list"
  ro_metrics :: routerMetrics

definition NewRouter :: "'w Router" where
  "NewRouter = \<lparr>ro_routes = [], ro_metrics = newRouterMetrics 0\<rparr>"

definition Router_Add :: "'w Router \<Rightarrow> 'w route list \<Rightarrow> 'w Router" where
  "Router_Add r routes =
     r\<lparr>ro_routes := ro_routes r @ routes,
       ro_metrics := (ro_metrics r)\<lparr>mt_available := mt_available (ro_metrics r) + 1\<rparr>\<rparr>"

text \<open>The loop over the routes, \<open>i\<close> being the index of the first one left.\<close>

fun Router_loop ::
  "dnslib \<Rightarrow> (nat \<Rightarrow> LocalTime) \<Rightarrow> Question \<Rightarrow> Msg \<Rightarrow> ClientInfo \<Rightarrow> nat \<Rightarrow> 'w route list \<Rightarrow> routerMetrics \<Rightarrow>
   'w \<Rightarrow> reply \<times> routerMetrics \<times> 'w" where
  "Router_loop L now question q ci i [] m w = ((None, Some (ErrNoRoute question)), m, w)"
| "Router_loop L now question q ci i (rt # routes) m w =
     (if \<not> route_match L (now i) rt question q ci
      then Router_loop L now question q ci (Suc i) routes m w
      else
        let name = r_String (rt_resolver rt);
            m1 = count_route name m;
            ((a, err), w') = r_Resolve (rt_resolver rt) q ci w
        in ((a, err), (if err \<noteq> None then count_failure name m1 else m1), w'))"

definition Router_Resolve ::
  "dnslib \<Rightarrow> (nat \<Rightarrow> LocalTime) \<Rightarrow> 'w Router \<Rightarrow> Msg \<Rightarrow> ClientInfo \<Rightarrow> 'w \<Rightarrow> reply \<times> 'w Router \<times> 'w" where
  "Router_Resolve L now r q ci w =
     (case m_Question q of
        [] \<Rightarrow> (panic, r, w)
      | question # _ \<Rightarrow>
          (case Router_loop L now question q ci 0 (ro_routes r) (ro_metrics r) w of
             (ae, m, w') \<Rightarrow> (ae, r\<lparr>ro_metrics := m\<rparr>, w')))"

section \<open>What routing guarantees\<close>

text \<open>The criteria of a route, as one conjunction, with times of day in minutes.\<close>

definition minutes :: "TimeOfDay \<Rightarrow> int" where
  "minutes t = 60 * td_hour t + td_minute t"

definition tod_ok :: "TimeOfDay \<Rightarrow> bool" where
  "tod_ok t \<longleftrightarrow> 0 \<le> td_hour t \<and> td_hour t \<le> 23 \<and> 0 \<le> td_minute t \<and> td_minute t \<le> 59"

definition clock_ok :: "LocalTime \<Rightarrow> bool" where
  "clock_ok now \<longleftrightarrow> 0 \<le> lt_Hour now \<and> lt_Hour now \<le> 23 \<and> 0 \<le> lt_Minute now \<and> lt_Minute now \<le> 59"

definition criteria :: "dnslib \<Rightarrow> LocalTime \<Rightarrow> 'w route \<Rightarrow> Question \<Rightarrow> Msg \<Rightarrow> ClientInfo \<Rightarrow> bool" where
  "criteria L now r question q ci \<longleftrightarrow>
     (rt_types r \<noteq> [] \<longrightarrow> q_Qtype question \<in> set (rt_types r)) \<and>
     (rt_class r \<noteq> 0 \<longrightarrow> q_Qclass question = rt_class r) \<and>
     re_MatchString (rt_name r) (q_Name question) \<and>
     (\<forall>n. rt_source r = Some n \<longrightarrow> Contains n (ci_SourceIP ci)) \<and>
     (\<forall>n. rt_ecsSource r = Some n \<longrightarrow>
        last_ecs (edns0_options L q) \<noteq> [] \<and> Contains n (last_ecs (edns0_options L q))) \<and>
     re_MatchString (rt_dohPath r) (ci_DoHPath ci) \<and>
     re_MatchString (rt_listenerID r) (ci_Listener ci) \<and>
     re_MatchString (rt_tlsServerName r) (ci_TLSServerName ci) \<and>
     (rt_weekdays r \<noteq> [] \<longrightarrow> lt_Weekday now \<in> set (rt_weekdays r)) \<and>
     (\<forall>t. rt_after r = Some t \<longrightarrow> minutes t \<le> 60 * lt_Hour now + lt_Minute now) \<and>
     (\<forall>t. rt_before r = Some t \<longrightarrow> 60 * lt_Hour now + lt_Minute now < minutes t)"

definition route_ok :: "'w route \<Rightarrow> bool" where
  "route_ok r \<longleftrightarrow>
     (case rt_before r of None \<Rightarrow> True | Some t \<Rightarrow> tod_ok t) \<and>
     (case rt_after r of None \<Rightarrow> True | Some t \<Rightarrow> tod_ok t)"

lemma isBefore_minutes:
  "tod_ok t \<Longrightarrow> clock_ok now \<Longrightarrow> isBefore t (lt_Hour now) (lt_Minute now) \<longleftrightarrow> minutes t \<le> 60 * lt_Hour now + lt_Minute now"
  by (auto simp: isBefore_def tod_ok_def clock_ok_def minutes_def)

lemma isAfter_minutes:
  "tod_ok t \<Longrightarrow> clock_ok now \<Longrightarrow> isAfter t (lt_Hour now) (lt_Minute now) \<longleftrightarrow> 60 * lt_Hour now + lt_Minute now < minutes t"
  by (auto simp: isAfter_def tod_ok_def clock_ok_def minutes_def)

lemma parseTimeOfDay_ok: "parseTimeOfDay s = Inr (Some t) \<Longrightarrow> tod_ok t"
  by (auto simp: parseTimeOfDay_def tod_ok_def Let_def split: if_splits option.splits prod.splits)

lemma NewRoute_ok: "NewRoute C T n c ts wds b a s e d l tls res = Inr r \<Longrightarrow> route_ok r"
  by (auto simp: NewRoute_def bind_err_Inr_iff route_ok_def parseTimeOfDay_ok
        split: option.splits)

lemma guard_last: "(if a then v else \<not> v) \<longleftrightarrow> (\<not> a) \<noteq> v"
  by simp

lemma guard_step: "(if a then v else b \<noteq> v) \<longleftrightarrow> (\<not> a \<and> b) \<noteq> v"
  by simp

lemma route_match_guards:
  "route_match L now r question q ci \<longleftrightarrow>
     (matchType r (q_Qtype question) \<and> \<not> (rt_class r \<noteq> 0 \<and> rt_class r \<noteq> q_Qclass question) \<and>
      re_MatchString (rt_name r) (q_Name question) \<and>
      \<not> (case rt_source r of None \<Rightarrow> False | Some n \<Rightarrow> \<not> Contains n (ci_SourceIP ci)) \<and>
      \<not> (case rt_ecsSource r of None \<Rightarrow> False
          | Some n \<Rightarrow> let ecsIP = last_ecs (edns0_options L q) in ecsIP = [] \<or> \<not> Contains n ecsIP) \<and>
      re_MatchString (rt_dohPath r) (ci_DoHPath ci) \<and> re_MatchString (rt_listenerID r) (ci_Listener ci) \<and>
      re_MatchString (rt_tlsServerName r) (ci_TLSServerName ci) \<and>
      \<not> (rt_weekdays r \<noteq> [] \<and> lt_Weekday now \<notin> set (rt_weekdays r)) \<and>
      \<not> (case rt_before r of None \<Rightarrow> False | Some t \<Rightarrow> \<not> isAfter t (lt_Hour now) (lt_Minute now)) \<and>
      \<not> (case rt_after r of None \<Rightarrow> False | Some t \<Rightarrow> \<not> isBefore t (lt_Hour now) (lt_Minute now)))
     \<noteq> rt_inverted r"
  unfolding route_match_def
  by (simp only: guard_last guard_step not_not cong: if_cong)

text \<open>A concrete configuration: weekday mornings for the clients of one network.\<close>

definition ref_Compile :: regexp_Compile where
  "ref_Compile s = Some \<lparr>re_String = s, re_MatchString = (\<lambda>x. s = [] \<or> x = s)\<rparr>"

definition ref_types :: "(u16 \<times> string) list" where
  "ref_types = [(1, ''A''), (28, ''AAAA'')]"

definition ref_route :: "unit route" where
  "ref_route = \<lparr>rt_types = [1], rt_class = 1, rt_name = the (ref_Compile []),
     rt_source = Some \<lparr>n_IP = [192, 0, 2, 0], n_Mask = [255, 255, 255, 0]\<rparr>, rt_ecsSource = None,
     rt_weekdays = [Monday], rt_before = Some \<lparr>td_hour = 12, td_minute = 30\<rparr>,
     rt_after = Some \<lparr>td_hour = 9, td_minute = 0\<rparr>, rt_inverted = False, rt_dohPath = the (ref_Compile []),
     rt_resolver = ref_answering ''x'', rt_listenerID = the (ref_Compile []),
     rt_tlsServerName = the (ref_Compile [])\<rparr>"

definition ref_monday :: LocalTime where
  "ref_monday = \<lparr>lt_Weekday = Monday, lt_Hour = 12, lt_Minute = 29\<rparr>"

lemma ref_NewRoute:
  "NewRoute ref_Compile ref_types [] ''IN'' [''a''] [''mon''] ''12:30'' ''9'' ''192.0.2.0/24'' [] [] [] []
     (Some (ref_answering ''x'')) = Inr ref_route"
proof -
  have "stringToType ref_types [''a''] = Inr [1]" "stringsToWeekdays [''mon''] = Inr [Monday]"
    "parseTimeOfDay ''12:30'' = Inr (Some \<lparr>td_hour = 12, td_minute = 30\<rparr>)"
    "parseTimeOfDay ''9'' = Inr (Some \<lparr>td_hour = 9, td_minute = 0\<rparr>)"
    "stringToClass ''IN'' = Inr 1"
    "network_or ''192.0.2.0/24'' = Inr (Some \<lparr>n_IP = [192, 0, 2, 0], n_Mask = [255, 255, 255, 0]\<rparr>)"
    "network_or [] = Inr None"
    by code_simp+
  then show ?thesis
    by (simp add: NewRoute_def ref_route_def compile_or_def ref_Compile_def)
qed

lemma ref_criteria: "criteria ref_lib ref_monday ref_route \<lparr>q_Name = ''x.'', q_Qtype = 1, q_Qclass = 1\<rparr>
    (ref_query ''x.'' TypeA) ref_client"
proof -
  have "Contains \<lparr>n_IP = [192, 0, 2, 0], n_Mask = [255, 255, 255, 0]\<rparr> [192, 0, 2, 1]"
    by code_simp
  then show ?thesis
    by (simp add: criteria_def ref_route_def ref_monday_def minutes_def ref_Compile_def ref_client_def)
qed



lemma ref_route_matches: "route_match ref_lib ref_monday ref_route \<lparr>q_Name = ''x.'', q_Qtype = 1, q_Qclass = 1\<rparr>
     (ref_query ''x.'' TypeA) ref_client"
proof -
  have "Contains \<lparr>n_IP = [192, 0, 2, 0], n_Mask = [255, 255, 255, 0]\<rparr> [192, 0, 2, 1]"
    by code_simp
  then show ?thesis
    by (simp add: route_match_guards ref_route_def ref_monday_def matchType_def ref_Compile_def
        ref_client_def isAfter_def isBefore_def)
qed

lemma Router_loop_skip:
  "\<forall>j < length rs. \<not> route_match L (now (i + j)) (rs ! j) question q ci \<Longrightarrow>
   Router_loop L now question q ci i (rs @ rest) m w =
     Router_loop L now question q ci (i + length rs) rest m w"
proof (induction rs arbitrary: i)
  case (Cons x rs)
  have "\<not> route_match L (now i) x question q ci" using Cons.prems by fastforce
  moreover have "\<forall>j < length rs. \<not> route_match L (now (Suc i + j)) (rs ! j) question q ci"
    using Cons.prems by fastforce
  ultimately show ?case using Cons.IH [of "Suc i"] by simp
qed simp

text \<open>
  C13: the router sends a query to the first route that matches it and to no other. The reply and the
  effects are those of that route's resolver, the query is counted for it, and an error is counted
  as its failure.
\<close>

theorem Router_first_match:
  assumes "m_Question q = question # qs" "ro_routes r = rs1 @ rt # rs2"
    "\<forall>i < length rs1. \<not> route_match L (now i) (rs1 ! i) question q ci"
    "route_match L (now (length rs1)) rt question q ci"
    "r_Resolve (rt_resolver rt) q ci w = ((a, err), w')"
  shows "Router_Resolve L now r q ci w =
    ((a, err),
     r\<lparr>ro_metrics := (if err = None then count_route (r_String (rt_resolver rt)) (ro_metrics r)
                     else count_failure (r_String (rt_resolver rt))
                            (count_route (r_String (rt_resolver rt)) (ro_metrics r)))\<rparr>, w')"
  using Router_loop_skip [of rs1 L now 0 question q ci "rt # rs2" "ro_metrics r" w] assms
  by (auto simp: Router_Resolve_def Let_def split: prod.splits)

theorem Router_first_match_witness:
  "fst (Router_Resolve ref_lib (\<lambda>_. ref_monday)
      (Router_Add NewRouter [route_Invert ref_route True, ref_route]) (ref_query ''x.'' TypeA) ref_client ()) =
   (Some (ref_SetReply new_Msg (ref_query ''x.'' TypeA)), None)"
proof -
  have "\<not> route_match ref_lib ref_monday (route_Invert ref_route True) \<lparr>q_Name = ''x.'', q_Qtype = 1, q_Qclass = 1\<rparr>
     (ref_query ''x.'' TypeA) ref_client"
    using ref_route_matches
    by (simp add: route_match_guards route_Invert_def ref_route_def matchType_def)
  then show ?thesis
    using Router_first_match [of "ref_query ''x.'' TypeA" "\<lparr>q_Name = ''x.'', q_Qtype = 1, q_Qclass = 1\<rparr>" "[]"
        "Router_Add NewRouter [route_Invert ref_route True, ref_route]" "[route_Invert ref_route True]" ref_route
        "[]" ref_lib "\<lambda>_. ref_monday" ref_client "()"] ref_route_matches
    by (simp add: Router_Add_def NewRouter_def ref_query_def ref_route_def)
qed

text \<open>
  When no route matches, the router asks no resolver, changes nothing and returns the error that
  there is no route for the question.
\<close>

theorem Router_no_match:
  assumes "m_Question q = question # qs"
    "\<forall>i < length (ro_routes r). \<not> route_match L (now i) (ro_routes r ! i) question q ci"
  shows "Router_Resolve L now r q ci w = ((None, Some (ErrNoRoute question)), r, w)"
  using Router_loop_skip [of "ro_routes r" L now 0 question q ci "[]" "ro_metrics r" w] assms
  by (simp add: Router_Resolve_def)

theorem Router_no_match_witness:
  "Router_Resolve ref_lib (\<lambda>_. ref_monday) (NewRouter :: unit Router) (ref_query ''x.'' TypeA) ref_client () =
   ((None, Some (ErrNoRoute \<lparr>q_Name = ''x.'', q_Qtype = 1, q_Qclass = 1\<rparr>)), NewRouter, ())"
  using Router_no_match [of "ref_query ''x.'' TypeA" "\<lparr>q_Name = ''x.'', q_Qtype = 1, q_Qclass = 1\<rparr>" "[]"
      "NewRouter :: unit Router" ref_lib "\<lambda>_. ref_monday" ref_client "()"]
  by (simp add: NewRouter_def ref_query_def)

lemma digits_val_zero: "digits_val (CHR ''0'' # s) = digits_val s"
  by (simp add: digits_val_def digit_val_def)

lemma pad2_digits: "0 \<le> n \<Longrightarrow> all_digits (pad2 n)" "0 \<le> n \<Longrightarrow> digits_val (pad2 n) = nat n"
proof -
  have "is_digit CHR ''0''" by code_simp
  then show "all_digits (pad2 n)" "digits_val (pad2 n) = nat n"
    using Itoa_digits [of "nat n"] by (simp_all add: pad2_def Let_def all_digits_def digits_val_zero)
qed

lemma not_digit: "\<not> is_digit CHR '':''" "\<not> is_digit CHR ''-''" "\<not> is_digit CHR ''+''"
  by code_simp+

lemma Atoi_digits: "all_digits s \<Longrightarrow> int (digits_val s) < 2 ^ 63 \<Longrightarrow> Atoi s = Some (int (digits_val s))"
  using not_digit by (cases s) (auto simp: Atoi_def all_digits_def)

lemma Atoi_pad2: "0 \<le> n \<Longrightarrow> n < 100 \<Longrightarrow> Atoi (pad2 n) = Some n"
  by (simp add: Atoi_digits pad2_digits)

lemma cut_append: "d \<notin> set x \<Longrightarrow> cut d (x @ d # y) = Some (x, y)"
  by (induction x) (auto simp: cut_def)

text \<open>
  The printed form of a time of day is read back as the same time, and every time the
  configuration accepts is a time of day.
\<close>

theorem parseTimeOfDay_String:
  "(tod_ok t \<longrightarrow> parseTimeOfDay (TimeOfDay_String t) = Inr (Some t)) \<and>
   (parseTimeOfDay s = Inr (Some t) \<longrightarrow> tod_ok t)"
proof (intro conjI impI)
  assume t: "tod_ok t"
  then have "CHR '':'' \<notin> set (pad2 (td_hour t))"
    using pad2_digits(1) [of "td_hour t"] not_digit(1) by (auto simp: tod_ok_def all_digits_def list_all_iff)
  then have "cut CHR '':'' (TimeOfDay_String t) = Some (pad2 (td_hour t), pad2 (td_minute t))"
    by (simp add: TimeOfDay_String_def cut_append)
  moreover have "Atoi (pad2 (td_hour t)) = Some (td_hour t)" "Atoi (pad2 (td_minute t)) = Some (td_minute t)"
    using t by (simp_all add: Atoi_pad2 tod_ok_def)
  moreover have "TimeOfDay_String t \<noteq> []"
    by (simp add: TimeOfDay_String_def)
  ultimately show "parseTimeOfDay (TimeOfDay_String t) = Inr (Some t)"
    using t by (simp add: parseTimeOfDay_def tod_ok_def)
qed (rule parseTimeOfDay_ok)

theorem parseTimeOfDay_String_witness:
  "parseTimeOfDay (TimeOfDay_String \<lparr>td_hour = 7, td_minute = 5\<rparr>) = Inr (Some \<lparr>td_hour = 7, td_minute = 5\<rparr>)"
  using parseTimeOfDay_String [of "\<lparr>td_hour = 7, td_minute = 5\<rparr>"]
  by (simp add: tod_ok_def)

end
