(* ===== verification/NameLists.thy ===== *)
theory NameLists
  imports DomainCompact Routing
begin

text \<open>
  The other name databases and their combination: hosts files (\<^verbatim>\<open>blocklistdb-hosts.go\<close>), regular
  expressions (\<^verbatim>\<open>blocklistdb-regexp.go\<close>), MAC addresses (\<^verbatim>\<open>mac-db.go\<close>), several databases as one
  (\<^verbatim>\<open>blocklistdb-multi.go\<close>), and the interface \<^verbatim>\<open>BlocklistDB\<close> over all of them.
\<close>

section \<open>Hosts files\<close>

text \<open>\<^verbatim>\<open>strings.Fields\<close> on ASCII, and \<^verbatim>\<open>IP.IsUnspecified\<close>.\<close>

fun fields_loop :: "string \<Rightarrow> string \<Rightarrow> string list" where
  "fields_loop acc [] = (if acc = [] then [] else [acc])"
| "fields_loop acc (c # s) =
     (if is_space c then (if acc = [] then fields_loop [] s else acc # fields_loop [] s)
      else fields_loop (acc @ [c]) s)"

definition Fields :: "string \<Rightarrow> string list" where
  "Fields s = fields_loop [] s"

definition IsUnspecified :: "IP \<Rightarrow> bool" where
  "IsUnspecified ip \<longleftrightarrow> To4 ip = [0, 0, 0, 0] \<or> ip = replicate 16 0"

record ipRecords =
  ir_ip4 :: "IP list"
  ir_ip6 :: "IP list"

record HostsDB =
  ho_name :: string
  ho_filters :: "(string, ipRecords) gomap"
  ho_ptrMap :: "(string, string list) gomap"
  ho_loader :: BlocklistLoader

abbreviation (input) maxHostsResponses :: nat where "maxHostsResponses \<equiv> 10"

type_synonym hosts_maps = "(string, ipRecords) gomap \<times> (string, string list) gomap"

definition get_records :: "(string, ipRecords) gomap \<Rightarrow> string \<Rightarrow> ipRecords" where
  "get_records filters name = (case map_of filters name of None \<Rightarrow> \<lparr>ir_ip4 = [], ir_ip6 = []\<rparr> | Some ips \<Rightarrow> ips)"

definition hosts_name :: "bool \<Rightarrow> IP \<Rightarrow> string \<Rightarrow> (string, ipRecords) gomap \<Rightarrow> (string, ipRecords) gomap" where
  "hosts_name isIP4 ip name0 filters =
     (let name = ToLower (TrimSuffix name0 ''.''); ips = get_records filters name
      in if isIP4
         then if maxHostsResponses < length (ir_ip4 ips) then filters
              else AList.update name (ips\<lparr>ir_ip4 := ir_ip4 ips @ [ip]\<rparr>) filters
         else if maxHostsResponses < length (ir_ip6 ips) then filters
              else AList.update name (ips\<lparr>ir_ip6 := ir_ip6 ips @ [ip]\<rparr>) filters)"

definition hosts_rule :: "dnslib \<Rightarrow> string \<Rightarrow> hosts_maps \<Rightarrow> go_error option \<times> hosts_maps" where
  "hosts_rule L r maps =
     (case Fields (TrimSpace r) of
        [] \<Rightarrow> (None, maps)
      | ipString # names \<Rightarrow>
          if HasPrefix ipString ''#'' \<or> names = [] then (None, maps)
          else
            let ip0 = ParseIP ipString;
                ip = (if IsUnspecified ip0 then [] else ip0);
                filters = fold (hosts_name (length (To4 ip0) = 4) ip) names (fst maps)
            in case ReverseAddr L ipString of
                 None \<Rightarrow> (None, (filters, snd maps))
               | Some reverseAddr \<Rightarrow>
                   (None, (filters, AList.update reverseAddr
                             ((case map_of (snd maps) reverseAddr of None \<Rightarrow> [] | Some ns \<Rightarrow> ns) @ names) (snd maps))))"

definition NewHostsDB :: "dnslib \<Rightarrow> world \<Rightarrow> string \<Rightarrow> BlocklistLoader \<Rightarrow> (go_error + HostsDB) \<times> BlocklistLoader \<times> world" where
  "NewHostsDB L w name loader =
     (case Load w loader (\<lambda>_. ([], [])) (hosts_rule L) ([], []) of
        ((Some err, _), l, w') \<Rightarrow> (Inl err, l, w')
      | ((None, (filters, ptrMap)), l, w') \<Rightarrow>
          (Inr \<lparr>ho_name = name, ho_filters = filters, ho_ptrMap = ptrMap, ho_loader = l\<rparr>, l, w'))"

definition HostsDB_Match :: "HostsDB \<Rightarrow> Msg \<Rightarrow> db_match" where
  "HostsDB_Match m msg =
     (case m_Question msg of
        [] \<Rightarrow> None
      | q # _ \<Rightarrow>
          if q_Qtype q = TypePTR
          then let found = map_of (ho_ptrMap m) (ToLower (q_Name q));
                   names = (case found of None \<Rightarrow> [] | Some ns \<Rightarrow> ns);
                   rule = (case names of [] \<Rightarrow> [] | n # _ \<Rightarrow> n)
               in Some ([], names, Some \<lparr>bm_List = ho_name m, bm_Rule = rule\<rparr>, found \<noteq> None)
          else let name = ToLower (TrimSuffix (q_Name q) ''.'');
                   ips = get_records (ho_filters m) name
               in Some (if q_Qtype q = TypeA then ir_ip4 ips else ir_ip6 ips, [],
                        Some \<lparr>bm_List = ho_name m, bm_Rule = name\<rparr>, map_of (ho_filters m) name \<noteq> None))"

section \<open>Regular expressions\<close>

record RegexpDB =
  rx_name :: string
  rx_rules :: "Regexp list"
  rx_loader :: BlocklistLoader

definition regexp_rule :: "regexp_Compile \<Rightarrow> string \<Rightarrow> Regexp list \<Rightarrow> go_error option \<times> Regexp list" where
  "regexp_rule Compile r0 filters =
     (let r = TrimSpace r0
      in if r = [] \<or> HasPrefix r ''#'' then (None, filters)
         else case Compile r of None \<Rightarrow> (Some (ErrOther r), filters) | Some re \<Rightarrow> (None, filters @ [re]))"

definition NewRegexpDB ::
  "regexp_Compile \<Rightarrow> world \<Rightarrow> string \<Rightarrow> BlocklistLoader \<Rightarrow> (go_error + RegexpDB) \<times> BlocklistLoader \<times> world" where
  "NewRegexpDB Compile w name loader =
     (case Load w loader (\<lambda>_. []) (regexp_rule Compile) [] of
        ((Some err, _), l, w') \<Rightarrow> (Inl err, l, w')
      | ((None, filters), l, w') \<Rightarrow> (Inr \<lparr>rx_name = name, rx_rules = filters, rx_loader = l\<rparr>, l, w'))"

definition RegexpDB_Match :: "RegexpDB \<Rightarrow> Msg \<Rightarrow> db_match" where
  "RegexpDB_Match m msg =
     (case m_Question msg of
        [] \<Rightarrow> None
      | q # _ \<Rightarrow>
          (case find (\<lambda>rule. re_MatchString rule (ToLower (q_Name q))) (rx_rules m) of
             None \<Rightarrow> Some ([], [], None, False)
           | Some rule \<Rightarrow> Some ([], [], Some \<lparr>bm_List = rx_name m, bm_Rule = re_String rule\<rparr>, True)))"

section \<open>MAC addresses\<close>

record MACDB =
  ma_name :: string
  ma_loader :: BlocklistLoader
  ma_macs :: "u8 list list"

text \<open>\<^verbatim>\<open>hex.Decode\<close>: pairs of hexadecimal digits.\<close>

fun hex_Decode :: "string \<Rightarrow> u8 list option" where
  "hex_Decode [] = Some []"
| "hex_Decode [c] = None"
| "hex_Decode (c # d # s) =
     (case (hex_val c, hex_val d) of
        (Some x, Some y) \<Rightarrow> map_option ((#) (of_nat (16 * x + y))) (hex_Decode s)
      | _ \<Rightarrow> None)"

definition parseMAC :: "string \<Rightarrow> u8 list option" where
  "parseMAC addr =
     (if length addr \<noteq> 17 \<or> (\<exists>i \<in> set [0..<5]. addr ! (i * 3 + 2) \<noteq> CHR '':'') then None
      else case hex_Decode (filter (\<lambda>c. c \<noteq> CHR '':'') addr) of
             None \<Rightarrow> None
           | Some out \<Rightarrow> if length out \<noteq> 6 then None else Some out)"

definition mac_rule :: "string \<Rightarrow> u8 list list \<Rightarrow> go_error option \<times> u8 list list" where
  "mac_rule r0 macs =
     (let r = TrimSpace r0
      in if HasPrefix r ''#'' \<or> r = [] then (None, macs)
         else case parseMAC r of None \<Rightarrow> (Some (ErrOther r), macs) | Some mac \<Rightarrow> (None, macs @ [mac]))"

definition NewMACDB :: "world \<Rightarrow> string \<Rightarrow> BlocklistLoader \<Rightarrow> (go_error + MACDB) \<times> BlocklistLoader \<times> world" where
  "NewMACDB w name loader =
     (case Load w loader (\<lambda>_. []) mac_rule [] of
        ((Some err, _), l, w') \<Rightarrow> (Inl err, l, w')
      | ((None, macs), l, w') \<Rightarrow> (Inr \<lparr>ma_name = name, ma_loader = l, ma_macs = macs\<rparr>, l, w'))"

text \<open>The last option 65001 that holds a MAC address.\<close>

definition opt65001 :: "EDNS0 list \<Rightarrow> u8 list" where
  "opt65001 opts =
     foldl (\<lambda>found opt. case opt of
         EDNS0_LOCAL code data \<Rightarrow> if code = 65001 \<and> length data = 6 then data else found
       | _ \<Rightarrow> found) [] opts"

definition MACDB_Match :: "dnslib \<Rightarrow> MACDB \<Rightarrow> Msg \<Rightarrow> db_match" where
  "MACDB_Match L m msg =
     (let mac = opt65001 (edns0_options L msg)
      in if length mac = 6 \<and> mac \<in> set (ma_macs m)
         then Some ([], [], Some \<lparr>bm_List = ma_name m, bm_Rule = EncodeToString mac\<rparr>, True)
         else Some ([], [], None, False))"

section \<open>The interface\<close>

datatype BlocklistDB =
    BDomain DomainDB
  | BCompact DomainCompactDB
  | BHosts HostsDB
  | BRegexp RegexpDB
  | BMAC MACDB
  | BMulti "BlocklistDB list"

fun first_match :: "('db \<Rightarrow> db_match) \<Rightarrow> 'db list \<Rightarrow> db_match" where
  "first_match match [] = Some ([], [], None, False)"
| "first_match match (db # dbs) =
     (case match db of
        None \<Rightarrow> None
      | Some (ip, names, m, ok) \<Rightarrow> if ok then Some (ip, names, m, ok) else first_match match dbs)"

lemma first_match_cong [fundef_cong]:
  "dbs = dbs' \<Longrightarrow> (\<And>db. db \<in> set dbs' \<Longrightarrow> f db = g db) \<Longrightarrow> first_match f dbs = first_match g dbs'"
  by (induction dbs arbitrary: dbs') (auto split: option.splits)

fun BlocklistDB_Match :: "dnslib \<Rightarrow> BlocklistDB \<Rightarrow> Msg \<Rightarrow> db_match" where
  "BlocklistDB_Match L (BDomain m) msg = DomainDB_Match m msg"
| "BlocklistDB_Match L (BCompact m) msg = DomainCompactDB_Match m msg"
| "BlocklistDB_Match L (BHosts m) msg = HostsDB_Match m msg"
| "BlocklistDB_Match L (BRegexp m) msg = RegexpDB_Match m msg"
| "BlocklistDB_Match L (BMAC m) msg = MACDB_Match L m msg"
| "BlocklistDB_Match L (BMulti dbs) msg = first_match (\<lambda>db. BlocklistDB_Match L db msg) dbs"

text \<open>
  Reloading. As for the IP databases, a reload returns the new database and its error, the old
  database, whose loader the new one shares, and the outside. \<open>rnd\<close> is the random number drawn for a
  compact database.
\<close>

type_synonym 'db reloaded = "('db option \<times> go_error option) \<times> 'db \<times> world"

definition reload_with ::
  "('m \<Rightarrow> 'db) \<Rightarrow> (BlocklistLoader \<Rightarrow> 'm \<Rightarrow> 'm) \<Rightarrow> 'm \<Rightarrow> (go_error + 'm) \<times> BlocklistLoader \<times> world \<Rightarrow> 'db reloaded" where
  "reload_with con set_loader m r =
     (case r of
        (Inl err, l, w) \<Rightarrow> ((None, Some err), con (set_loader l m), w)
      | (Inr db, l, w) \<Rightarrow> ((Some (con db), None), con (set_loader l m), w))"

definition HostsDB_Reload :: "dnslib \<Rightarrow> world \<Rightarrow> HostsDB \<Rightarrow> BlocklistDB reloaded" where
  "HostsDB_Reload L w m = reload_with BHosts (\<lambda>l m. m\<lparr>ho_loader := l\<rparr>) m (NewHostsDB L w (ho_name m) (ho_loader m))"

definition RegexpDB_Reload :: "regexp_Compile \<Rightarrow> world \<Rightarrow> RegexpDB \<Rightarrow> BlocklistDB reloaded" where
  "RegexpDB_Reload Compile w m =
     reload_with BRegexp (\<lambda>l m. m\<lparr>rx_loader := l\<rparr>) m (NewRegexpDB Compile w (rx_name m) (rx_loader m))"

definition MACDB_Reload :: "world \<Rightarrow> MACDB \<Rightarrow> BlocklistDB reloaded" where
  "MACDB_Reload w m = reload_with BMAC (\<lambda>l m. m\<lparr>ma_loader := l\<rparr>) m (NewMACDB w (ma_name m) (ma_loader m))"

text \<open>The loop of \<^verbatim>\<open>MultiDB.Reload\<close>: a database that could not be reloaded carries over.\<close>

fun multi_reload :: "(world \<Rightarrow> 'db \<Rightarrow> 'db reloaded) \<Rightarrow> world \<Rightarrow> 'db list \<Rightarrow> 'db list \<times> 'db list \<times> world" where
  "multi_reload reload w [] = ([], [], w)"
| "multi_reload reload w (db # dbs) =
     (case reload w db of
        ((n, err), db', w') \<Rightarrow>
          (case multi_reload reload w' dbs of
             (news, olds, w'') \<Rightarrow>
               ((case (n, err) of (Some x, None) \<Rightarrow> x | _ \<Rightarrow> db') # news, db' # olds, w'')))"

lemma multi_reload_cong [fundef_cong]:
  "w = w' \<Longrightarrow> dbs = dbs' \<Longrightarrow> (\<And>db w. db \<in> set dbs' \<Longrightarrow> f w db = g w db) \<Longrightarrow> multi_reload f w dbs = multi_reload g w' dbs'"
  by (induction dbs arbitrary: w w' dbs') (auto split: prod.splits)

fun BlocklistDB_Reload ::
  "dnslib \<Rightarrow> regexp_Compile \<Rightarrow> (DomainCompactDB \<Rightarrow> u64) \<Rightarrow> world \<Rightarrow> BlocklistDB \<Rightarrow> BlocklistDB reloaded" where
  "BlocklistDB_Reload L Compile rnd w (BDomain m) =
     (case DomainDB_Reload w m of ((n, err), m', w') \<Rightarrow> ((map_option BDomain n, err), BDomain m', w'))"
| "BlocklistDB_Reload L Compile rnd w (BCompact m) =
     (case DomainCompactDB_Reload (rnd m) w m of ((n, err), m', w') \<Rightarrow> ((map_option BCompact n, err), BCompact m', w'))"
| "BlocklistDB_Reload L Compile rnd w (BHosts m) = HostsDB_Reload L w m"
| "BlocklistDB_Reload L Compile rnd w (BRegexp m) = RegexpDB_Reload Compile w m"
| "BlocklistDB_Reload L Compile rnd w (BMAC m) = MACDB_Reload w m"
| "BlocklistDB_Reload L Compile rnd w (BMulti dbs) =
     (case multi_reload (BlocklistDB_Reload L Compile rnd) w dbs of
        (news, olds, w') \<Rightarrow> ((Some (BMulti news), None), BMulti olds, w'))"

section \<open>Refreshing\<close>

lemma match_loader [simp]:
  "DomainDB_Match (m1\<lparr>dd_loader := l\<rparr>) = DomainDB_Match m1"
  "DomainCompactDB_Match (m2\<lparr>dc_loader := l\<rparr>) = DomainCompactDB_Match m2"
  "HostsDB_Match (m3\<lparr>ho_loader := l\<rparr>) = HostsDB_Match m3"
  "RegexpDB_Match (m4\<lparr>rx_loader := l\<rparr>) = RegexpDB_Match m4"
  "MACDB_Match L (m5\<lparr>ma_loader := l\<rparr>) = MACDB_Match L m5"
  by (simp_all add: fun_eq_iff DomainDB_Match_def DomainDB_match_def DomainCompactDB_Match_def DomainCompactDB_match_def
      HostsDB_Match_def RegexpDB_Match_def MACDB_Match_def Let_def cong: if_cong list.case_cong option.case_cong)

lemma reload_keeps_match:
  "BlocklistDB_Reload L Compile rnd w db = (r, db', w') \<Longrightarrow> BlocklistDB_Match K db' msg = BlocklistDB_Match K db msg"
proof (induction db arbitrary: r db' w w')
  case (BDomain m)
  then show ?case
    by (auto simp: DomainDB_Reload_def split: prod.splits sum.splits)
next
  case (BCompact m)
  then show ?case
    by (auto simp: DomainCompactDB_Reload_def split: prod.splits sum.splits)
next
  case (BHosts m)
  then show ?case
    by (auto simp: HostsDB_Reload_def reload_with_def split: prod.splits sum.splits)
next
  case (BRegexp m)
  then show ?case
    by (auto simp: RegexpDB_Reload_def reload_with_def split: prod.splits sum.splits)
next
  case (BMAC m)
  then show ?case
    by (auto simp: MACDB_Reload_def reload_with_def split: prod.splits sum.splits)
next
  case (BMulti dbs)
  have "first_match (\<lambda>db. BlocklistDB_Match K db msg) olds = first_match (\<lambda>db. BlocklistDB_Match K db msg) xs"
    if "multi_reload (BlocklistDB_Reload L Compile rnd) w xs = (news, olds, w1)" "set xs \<subseteq> set dbs" for xs news olds w w1
    using that
  proof (induction xs arbitrary: news olds w)
    case (Cons x xs)
    from Cons.prems(1) obtain n err x' w2 news' olds' where x: "BlocklistDB_Reload L Compile rnd w x = ((n, err), x', w2)"
      "multi_reload (BlocklistDB_Reload L Compile rnd) w2 xs = (news', olds', w1)" "olds = x' # olds'"
      by (auto split: prod.splits)
    moreover have "BlocklistDB_Match K x' msg = BlocklistDB_Match K x msg"
      using BMulti.IH [OF _ x(1)] Cons.prems(2) by simp
    ultimately show ?case using Cons.IH [OF x(2)] Cons.prems(2) by (simp split: option.splits)
  qed simp
  with BMulti.prems show ?case by (auto split: prod.splits)
qed

lemma multi_reload_each:
  "multi_reload (BlocklistDB_Reload L Compile rnd) w dbs = (news, olds, w') \<Longrightarrow>
   list_all2 (\<lambda>old new. (\<forall>K msg. BlocklistDB_Match K new msg = BlocklistDB_Match K old msg) \<or>
      (\<exists>w1 w2 old'. BlocklistDB_Reload L Compile rnd w1 old = ((Some new, None), old', w2))) dbs news"
proof (induction dbs arbitrary: news olds w)
  case (Cons db dbs)
  from Cons.prems obtain n err db' w1 news' olds' where x: "BlocklistDB_Reload L Compile rnd w db = ((n, err), db', w1)"
    "multi_reload (BlocklistDB_Reload L Compile rnd) w1 dbs = (news', olds', w')"
    "news = (case (n, err) of (Some x, None) \<Rightarrow> x | _ \<Rightarrow> db') # news'"
    by (auto split: prod.splits)
  note keep = reload_keeps_match [OF x(1)]
  have "(\<forall>K msg. BlocklistDB_Match K (hd news) msg = BlocklistDB_Match K db msg) \<or>
      (\<exists>w1 w2 old'. BlocklistDB_Reload L Compile rnd w1 db = ((Some (hd news), None), old', w2))"
    using x keep by (cases n; cases err) auto
  with Cons.IH [OF x(2)] x(3) show ?case by simp
qed simp

text \<open>
  A list that cannot be read keeps its rules and does not hold up the others. After a refresh of
  a combination of lists every list is either newly and successfully loaded or matches as before.
\<close>

theorem MultiDB_refresh:
  assumes "refreshDatabase (BlocklistDB_Reload L Compile rnd) w (BMulti dbs) = (db', w')"
  shows "\<exists>news. db' = BMulti news \<and>
    list_all2 (\<lambda>old new. (\<forall>K msg. BlocklistDB_Match K new msg = BlocklistDB_Match K old msg) \<or>
      (\<exists>w1 w2 old'. BlocklistDB_Reload L Compile rnd w1 old = ((Some new, None), old', w2))) dbs news"
  using assms multi_reload_each by (auto simp: refreshDatabase_def split: prod.splits)


definition ref_missing :: RegexpDB where
  "ref_missing = \<lparr>rx_name = ''list'', rx_rules = [], rx_loader = NewFileLoader ''missing'' False\<rparr>"

theorem MultiDB_refresh_witness:
  "\<exists>news. fst (refreshDatabase (BlocklistDB_Reload ref_lib ref_Compile (\<lambda>_. 7)) ref_world (BMulti [BRegexp ref_missing])) = BMulti news \<and>
     list_all2 (\<lambda>old new. (\<forall>K msg. BlocklistDB_Match K new msg = BlocklistDB_Match K old msg) \<or>
       (\<exists>w1 w2 old'. BlocklistDB_Reload ref_lib ref_Compile (\<lambda>_. 7) w1 old = ((Some new, None), old', w2))) [BRegexp ref_missing] news"
  using MultiDB_refresh [OF surjective_pairing] by blast

section \<open>How many addresses a hosts file yields\<close>

definition hosts_bounded :: "(string, ipRecords) gomap \<Rightarrow> bool" where
  "hosts_bounded filters \<longleftrightarrow>
     (\<forall>name. length (ir_ip4 (get_records filters name)) \<le> Suc maxHostsResponses \<and>
             length (ir_ip6 (get_records filters name)) \<le> Suc maxHostsResponses)"

lemma get_records_update:
  "get_records (AList.update name ips filters) n = (if n = name then ips else get_records filters n)"
  by (simp add: get_records_def update_conv')

lemma hosts_name_bounded: "hosts_bounded filters \<Longrightarrow> hosts_bounded (hosts_name b ip name filters)"
  by (auto simp: hosts_bounded_def hosts_name_def Let_def get_records_update)

lemma hosts_rule_bounded: "hosts_bounded (fst maps) \<Longrightarrow> hosts_bounded (fst (snd (hosts_rule L r maps)))"
proof -
  assume ok: "hosts_bounded (fst maps)"
  have "hosts_bounded (fold (hosts_name b ip) names filters)" if "hosts_bounded filters" for b ip names filters
    using that by (induction names arbitrary: filters) (simp_all add: hosts_name_bounded)
  with ok show ?thesis by (auto simp: hosts_rule_def Let_def split: list.splits option.splits)
qed

text \<open>
  A hosts file yields at most eleven addresses for a name and an address family, one more than the
  constant \<^verbatim>\<open>maxHostsResponses\<close> and its comment say; a file that repeats a name eleven times yields eleven.
\<close>

theorem HostsDB_responses:
  assumes "NewHostsDB L w name l = (Inr db, l', w')" "HostsDB_Match db msg = Some (ips, names, m, ok)"
  shows "length ips \<le> Suc maxHostsResponses"
proof -
  obtain maps where load: "Load w l (\<lambda>_. ([], [])) (hosts_rule L) ([], []) = ((None, maps), l', w')"
    and db: "ho_filters db = fst maps"
    using assms(1) by (auto simp: NewHostsDB_def split: prod.splits option.splits)
  from Load_cases [OF load] obtain rules where f: "feed (hosts_rule L) rules ([], []) = Some maps" by blast
  have "hosts_bounded (fst maps)"
  proof (rule feed_invariant [OF f])
    show "hosts_bounded (fst ([], []))" by (simp add: hosts_bounded_def get_records_def)
    show "hosts_bounded (fst s')" if "hosts_rule L r s = (None, s')" "hosts_bounded (fst s)" for r s s'
      using hosts_rule_bounded [OF that(2), of L r] that(1) by simp
  qed
  then show ?thesis using assms(2) db
    by (auto simp: HostsDB_Match_def hosts_bounded_def Let_def split: list.splits if_splits)
qed

definition ref_hosts :: "string list" where
  "ref_hosts = [''192.0.2.1 h h h h h h h h h h H.'']"

theorem HostsDB_responses_witness:
  "\<exists>db ips names m ok. NewHostsDB ref_lib ref_world ''list'' (StaticLoader ref_hosts) = (Inr db, StaticLoader ref_hosts, ref_world) \<and>
     HostsDB_Match db (ref_query ''h.'' TypeA) = Some (ips, names, m, ok) \<and> length ips = 11 \<and> length ips \<le> Suc maxHostsResponses"
proof -
  have "case NewHostsDB ref_lib ref_world ''list'' (StaticLoader ref_hosts) of
      (Inr db, _) \<Rightarrow> (case HostsDB_Match db (ref_query ''h.'' TypeA) of None \<Rightarrow> False | Some (ips, _) \<Rightarrow> length ips = 11)
    | _ \<Rightarrow> False" by code_simp
  moreover have "snd (NewHostsDB ref_lib ref_world ''list'' (StaticLoader ref_hosts)) = (StaticLoader ref_hosts, ref_world)"
    by (simp add: NewHostsDB_def split: prod.splits option.splits)
  ultimately obtain db ips names m ok where
    db: "NewHostsDB ref_lib ref_world ''list'' (StaticLoader ref_hosts) = (Inr db, StaticLoader ref_hosts, ref_world)"
    and ips: "HostsDB_Match db (ref_query ''h.'' TypeA) = Some (ips, names, m, ok)" "length ips = 11"
    by (cases "NewHostsDB ref_lib ref_world ''list'' (StaticLoader ref_hosts)") (auto split: sum.splits option.splits)
  from HostsDB_responses [OF db ips(1)] db ips show ?thesis by blast
qed

end
