(* ===== verification/Blocklists.thy ===== *)
theory Blocklists
  imports NameLists
begin

text \<open>
  The resolvers that block: \<^verbatim>\<open>blocklist.go\<close> on the query name, \<^verbatim>\<open>client-blocklist.go\<close> on the client address,
  \<^verbatim>\<open>response-blocklist-ip.go\<close> and \<^verbatim>\<open>response-blocklist-name.go\<close> on the records of the response, with the
  extended errors of \<^verbatim>\<open>edns0ede.go\<close> and \<^verbatim>\<open>template.go\<close>. Text templates are a library: a parsed template is a
  function of its input, and parsing one is the argument \<open>parse\<close>.
\<close>

section \<open>Templates and extended errors\<close>

record templateInput =
  ti_ID :: u16
  ti_Question :: string
  ti_QuestionClass :: string
  ti_QuestionType :: string
  ti_Blocklist :: string
  ti_BlocklistRule :: string

type_synonym Template = "templateInput \<Rightarrow> string \<times> go_error option"

definition NewTemplate :: "(string \<Rightarrow> Template option) \<Rightarrow> string \<Rightarrow> go_error + Template" where
  "NewTemplate parse text' = (case parse text' of None \<Rightarrow> Inl (ErrOther text') | Some t \<Rightarrow> Inr t)"

definition Template_Apply :: "Template option \<Rightarrow> templateInput \<Rightarrow> string \<times> go_error option" where
  "Template_Apply t input = (case t of None \<Rightarrow> ([], None) | Some f \<Rightarrow> f input)"

record EDNS0EDETemplate =
  et_infoCode :: u16
  et_textTemplate :: Template

definition NewEDNS0EDETemplate ::
  "(string \<Rightarrow> Template option) \<Rightarrow> u16 \<Rightarrow> string \<Rightarrow> go_error + EDNS0EDETemplate option" where
  "NewEDNS0EDETemplate parse infoCode extraText =
     (if infoCode = 0 \<and> extraText = [] then Inr None
      else case NewTemplate parse extraText of
             Inl err \<Rightarrow> Inl err
           | Inr tpl \<Rightarrow> Inr (Some \<lparr>et_infoCode = infoCode, et_textTemplate = tpl\<rparr>))"

definition ede_input :: "dnslib \<Rightarrow> Msg \<Rightarrow> BlocklistMatch option \<Rightarrow> templateInput" where
  "ede_input L q match =
     (let question = (case m_Question q of [] \<Rightarrow> \<lparr>q_Name = [], q_Qtype = 0, q_Qclass = 0\<rparr> | x # _ \<Rightarrow> x)
      in \<lparr>ti_ID = m_Id q, ti_Question = q_Name question, ti_QuestionClass = Class_String L (q_Qclass question),
          ti_QuestionType = Type_String L (q_Qtype question),
          ti_Blocklist = (case match of None \<Rightarrow> [] | Some m \<Rightarrow> bm_List m),
          ti_BlocklistRule = (case match of None \<Rightarrow> [] | Some m \<Rightarrow> bm_Rule m)\<rparr>)"

text \<open>\<^verbatim>\<open>opt.Option = append(opt.Option, ede)\<close>, through the pointer \<^verbatim>\<open>IsEdns0\<close> returns.\<close>

definition append_option :: "dnslib \<Rightarrow> Msg \<Rightarrow> EDNS0 \<Rightarrow> Msg" where
  "append_option L m opt =
     (case edns0_of L m of None \<Rightarrow> m | Some r \<Rightarrow> edns0_put L m (r\<lparr>rr_Data := OPT (opt_Option (rr_Data r) @ [opt])\<rparr>))"

definition EDE_Apply :: "dnslib \<Rightarrow> EDNS0EDETemplate option \<Rightarrow> Msg \<Rightarrow> Msg \<Rightarrow> BlocklistMatch option \<Rightarrow> Msg \<times> go_error option" where
  "EDE_Apply L t msg q match =
     (case t of
        None \<Rightarrow> (msg, None)
      | Some tpl \<Rightarrow>
          (case Template_Apply (Some (et_textTemplate tpl)) (ede_input L q match) of
             (_, Some err) \<Rightarrow> (msg, Some err)
           | (extraText, None) \<Rightarrow>
               (append_option L (SetEdns0 L msg 4096 False) (EDNS0_EDE (et_infoCode tpl) extraText), None)))"

section \<open>Blocklist\<close>

record blocklistMetrics =
  mt_blocked :: nat
  mt_allowed :: nat

definition newBlocklistMetrics :: blocklistMetrics where
  "newBlocklistMetrics = \<lparr>mt_blocked = 0, mt_allowed = 0\<rparr>"

record 'w BlocklistOptions =
  bo_BlocklistResolver :: "'w resolver option"
  bo_BlocklistDB :: "BlocklistDB option"
  bo_BlocklistRefresh :: int
  bo_AllowListResolver :: "'w resolver option"
  bo_AllowlistDB :: "BlocklistDB option"
  bo_AllowlistRefresh :: int
  bo_EDNS0EDETemplate :: "EDNS0EDETemplate option"

record 'w Blocklist =
  bl_opt :: "'w BlocklistOptions"
  bl_resolver :: "'w resolver"
  bl_metrics :: blocklistMetrics

abbreviation (input) maxPTRResponses :: nat where "maxPTRResponses \<equiv> 10"

definition NewBlocklist :: "'w resolver \<Rightarrow> 'w BlocklistOptions \<Rightarrow> 'w Blocklist" where
  "NewBlocklist resolver opt = \<lparr>bl_opt = opt, bl_resolver = resolver, bl_metrics = newBlocklistMetrics\<rparr>"

text \<open>
  A round of a refresh goroutine, which the constructors start for a list that is there and has a
  refresh period.
\<close>

definition refresh_slot ::
  "(world \<Rightarrow> 'db \<Rightarrow> 'db reloaded) \<Rightarrow> int \<Rightarrow> world \<Rightarrow> 'db option \<Rightarrow> 'db option \<times> world" where
  "refresh_slot reload period w slot =
     (case slot of
        Some db \<Rightarrow> if 0 < period then (case refreshDatabase reload w db of (db', w') \<Rightarrow> (Some db', w')) else (slot, w)
      | None \<Rightarrow> (None, w))"

definition Blocklist_refresh ::
  "(world \<Rightarrow> BlocklistDB \<Rightarrow> BlocklistDB reloaded) \<Rightarrow> world \<Rightarrow> 'w Blocklist \<Rightarrow> 'w Blocklist \<times> world" where
  "Blocklist_refresh reload w r =
     (case refresh_slot reload (bo_BlocklistRefresh (bl_opt r)) w (bo_BlocklistDB (bl_opt r)) of
        (db, w') \<Rightarrow> (r\<lparr>bl_opt := (bl_opt r)\<lparr>bo_BlocklistDB := db\<rparr>\<rparr>, w'))"

definition Allowlist_refresh ::
  "(world \<Rightarrow> BlocklistDB \<Rightarrow> BlocklistDB reloaded) \<Rightarrow> world \<Rightarrow> 'w Blocklist \<Rightarrow> 'w Blocklist \<times> world" where
  "Allowlist_refresh reload w r =
     (case refresh_slot reload (bo_AllowlistRefresh (bl_opt r)) w (bo_AllowlistDB (bl_opt r)) of
        (db, w') \<Rightarrow> (r\<lparr>bl_opt := (bl_opt r)\<lparr>bo_AllowlistDB := db\<rparr>\<rparr>, w'))"

definition matchAllowlist :: "dnslib \<Rightarrow> 'w Blocklist \<Rightarrow> Msg \<Rightarrow> (BlocklistMatch option \<times> bool) option" where
  "matchAllowlist L r q =
     (case bo_AllowlistDB (bl_opt r) of
        None \<Rightarrow> Some (None, False)
      | Some db \<Rightarrow> map_option (\<lambda>(_, _, match, ok). (match, ok)) (BlocklistDB_Match L db q))"

definition matchBlocklist :: "dnslib \<Rightarrow> 'w Blocklist \<Rightarrow> Msg \<Rightarrow> db_match" where
  "matchBlocklist L r q = (case bo_BlocklistDB (bl_opt r) of None \<Rightarrow> None | Some db \<Rightarrow> BlocklistDB_Match L db q)"

definition count_allowed :: "'w Blocklist \<Rightarrow> 'w Blocklist" where
  "count_allowed r = r\<lparr>bl_metrics := (bl_metrics r)\<lparr>mt_allowed := Suc (mt_allowed (bl_metrics r))\<rparr>\<rparr>"

definition count_blocked :: "'w Blocklist \<Rightarrow> 'w Blocklist" where
  "count_blocked r = r\<lparr>bl_metrics := (bl_metrics r)\<lparr>mt_blocked := Suc (mt_blocked (bl_metrics r))\<rparr>\<rparr>"

definition spoof_rr :: "Question \<Rightarrow> IP \<Rightarrow> RR list" where
  "spoof_rr question ip =
     (if length (To4 ip) = 4 \<and> q_Qtype question = TypeA
      then [\<lparr>rr_Hdr = \<lparr>h_Name = q_Name question, h_Rrtype = TypeA, h_Class = q_Qclass question, h_Ttl = 3600\<rparr>, rr_Data = A ip\<rparr>]
      else if length ip = 16 \<and> q_Qtype question = TypeAAAA
      then [\<lparr>rr_Hdr = \<lparr>h_Name = q_Name question, h_Rrtype = TypeAAAA, h_Class = q_Qclass question, h_Ttl = 3600\<rparr>, rr_Data = AAAA ip\<rparr>]
      else [])"

text \<open>What a blocked query is answered with when there is no resolver for blocked queries.\<close>

definition block_answer :: "dnslib \<Rightarrow> EDNS0EDETemplate option \<Rightarrow> Msg \<Rightarrow> Question \<Rightarrow> IP list \<Rightarrow> BlocklistMatch option \<Rightarrow> Msg" where
  "block_answer L tpl q question ips match =
     (let answer = (SetReply L new_Msg q)\<lparr>m_RecursionAvailable := True\<rparr>;
          spoof = concat (map (spoof_rr question) ips)
      in if spoof \<noteq> [] then answer\<lparr>m_Answer := spoof\<rparr>
         else SetRcode L (fst (EDE_Apply L tpl answer q match)) q RcodeNameError)"

definition Blocklist_Resolve ::
  "dnslib \<Rightarrow> 'w Blocklist \<Rightarrow> Msg \<Rightarrow> ClientInfo \<Rightarrow> 'w \<Rightarrow> reply \<times> 'w Blocklist \<times> 'w" where
  "Blocklist_Resolve L r q ci w =
     (let forward = (\<lambda>res r. case r_Resolve res q ci w of (ae, w') \<Rightarrow> (ae, r, w'))
      in case m_Question q of
        [] \<Rightarrow> (panic, r, w)
      | question # _ \<Rightarrow>
        (case matchAllowlist L r q of
           None \<Rightarrow> (panic, r, w)
         | Some (match, True) \<Rightarrow>
             if match = None then (panic, r, w)
             else forward (case bo_AllowListResolver (bl_opt r) of Some a \<Rightarrow> a | None \<Rightarrow> bl_resolver r) (count_allowed r)
         | Some (_, False) \<Rightarrow>
             (case matchBlocklist L r q of
                None \<Rightarrow> (panic, r, w)
              | Some (ips, names, match, ok) \<Rightarrow>
                  if \<not> ok then forward (bl_resolver r) (count_allowed r)
                  else if match = None then (panic, r, w)
                  else if q_Qtype question = TypePTR \<and> names \<noteq> []
                  then (case ptr L q (take maxPTRResponses names) of
                          None \<Rightarrow> (panic, count_blocked r, w)
                        | Some a \<Rightarrow> ((Some a, None), count_blocked r, w))
                  else case bo_BlocklistResolver (bl_opt r) of
                         Some b \<Rightarrow> forward b (count_blocked r)
                       | None \<Rightarrow>
                           ((Some (block_answer L (bo_EDNS0EDETemplate (bl_opt r)) q question ips match), None),
                            count_blocked r, w))))"

section \<open>ClientBlocklist\<close>

record 'w ClientBlocklist =
  cb_BlocklistResolver :: "'w resolver option"
  cb_BlocklistDB :: "IPBlocklistDB option"
  cb_BlocklistRefresh :: int
  cb_UseECS :: bool
  cb_resolver :: "'w resolver"
  cb_metrics :: blocklistMetrics

definition NewClientBlocklist ::
  "'w resolver \<Rightarrow> 'w resolver option \<Rightarrow> IPBlocklistDB option \<Rightarrow> int \<Rightarrow> bool \<Rightarrow> 'w ClientBlocklist" where
  "NewClientBlocklist resolver blocklistResolver db refresh useECS =
     \<lparr>cb_BlocklistResolver = blocklistResolver, cb_BlocklistDB = db, cb_BlocklistRefresh = refresh, cb_UseECS = useECS,
      cb_resolver = resolver, cb_metrics = newBlocklistMetrics\<rparr>"

definition ClientBlocklist_refresh ::
  "(world \<Rightarrow> IPBlocklistDB \<Rightarrow> IPBlocklistDB reloaded) \<Rightarrow> world \<Rightarrow> 'w ClientBlocklist \<Rightarrow> 'w ClientBlocklist \<times> world" where
  "ClientBlocklist_refresh reload w r =
     (case refresh_slot reload (cb_BlocklistRefresh r) w (cb_BlocklistDB r) of (db, w') \<Rightarrow> (r\<lparr>cb_BlocklistDB := db\<rparr>, w'))"

definition ClientBlocklist_match :: "'w ClientBlocklist \<Rightarrow> IP \<Rightarrow> ip_match" where
  "ClientBlocklist_match r ip = (case cb_BlocklistDB r of None \<Rightarrow> None | Some db \<Rightarrow> IPDB_Match db ip)"

text \<open>The address of the first client subnet option.\<close>

definition client_ip :: "dnslib \<Rightarrow> bool \<Rightarrow> Msg \<Rightarrow> ClientInfo \<Rightarrow> IP" where
  "client_ip L useECS q ci =
     (if useECS
      then case find is_EDNS0_SUBNET (edns0_options L q) of Some ecs \<Rightarrow> ecs_Address ecs | None \<Rightarrow> ci_SourceIP ci
      else ci_SourceIP ci)"

definition ClientBlocklist_Resolve ::
  "dnslib \<Rightarrow> 'w ClientBlocklist \<Rightarrow> Msg \<Rightarrow> ClientInfo \<Rightarrow> 'w \<Rightarrow> reply \<times> 'w ClientBlocklist \<times> 'w" where
  "ClientBlocklist_Resolve L r q ci w =
     (let ip = client_ip L (cb_UseECS r) q ci;
          allow = r\<lparr>cb_metrics := (cb_metrics r)\<lparr>mt_allowed := Suc (mt_allowed (cb_metrics r))\<rparr>\<rparr>;
          block = r\<lparr>cb_metrics := (cb_metrics r)\<lparr>mt_blocked := Suc (mt_blocked (cb_metrics r))\<rparr>\<rparr>;
          forward = (\<lambda>res r. case r_Resolve res q ci w of (ae, w') \<Rightarrow> (ae, r, w'))
      in if ip = [] then forward (cb_resolver r) allow
         else case ClientBlocklist_match r ip of
                None \<Rightarrow> (panic, r, w)
              | Some (match, True) \<Rightarrow>
                  if match = None then (panic, r, w)
                  else (case cb_BlocklistResolver r of
                          Some b \<Rightarrow> forward b block
                        | None \<Rightarrow> ((Some (refused L q), None), block, w))
              | Some (_, False) \<Rightarrow> forward (cb_resolver r) allow)"

section \<open>ResponseBlocklistIP\<close>

record 'w ResponseBlocklistIP =
  ri_BlocklistResolver :: "'w resolver option"
  ri_BlocklistDB :: "IPBlocklistDB option"
  ri_BlocklistRefresh :: int
  ri_Filter :: bool
  ri_Inverted :: bool
  ri_EDNS0EDETemplate :: "EDNS0EDETemplate option"
  ri_resolver :: "'w resolver"

definition NewResponseBlocklistIP ::
  "'w resolver \<Rightarrow> 'w resolver option \<Rightarrow> IPBlocklistDB option \<Rightarrow> int \<Rightarrow> bool \<Rightarrow> bool \<Rightarrow> EDNS0EDETemplate option \<Rightarrow> 'w ResponseBlocklistIP" where
  "NewResponseBlocklistIP resolver blocklistResolver db refresh filter' inverted tpl =
     \<lparr>ri_BlocklistResolver = blocklistResolver, ri_BlocklistDB = db, ri_BlocklistRefresh = refresh, ri_Filter = filter', 
      ri_Inverted = inverted, ri_EDNS0EDETemplate = tpl, ri_resolver = resolver\<rparr>"

definition ResponseBlocklistIP_refresh ::
  "(world \<Rightarrow> IPBlocklistDB \<Rightarrow> IPBlocklistDB reloaded) \<Rightarrow> world \<Rightarrow> 'w ResponseBlocklistIP \<Rightarrow> 'w ResponseBlocklistIP \<times> world" where
  "ResponseBlocklistIP_refresh reload w r =
     (case refresh_slot reload (ri_BlocklistRefresh r) w (ri_BlocklistDB r) of (db, w') \<Rightarrow> (r\<lparr>ri_BlocklistDB := db\<rparr>, w'))"

definition ResponseBlocklistIP_match :: "'w ResponseBlocklistIP \<Rightarrow> IP \<Rightarrow> ip_match" where
  "ResponseBlocklistIP_match r ip = (case ri_BlocklistDB r of None \<Rightarrow> None | Some db \<Rightarrow> IPDB_Match db ip)"

definition rr_address :: "RR \<Rightarrow> IP option" where
  "rr_address rr = (case rr_Data rr of A ip \<Rightarrow> Some ip | AAAA ip \<Rightarrow> Some ip | _ \<Rightarrow> None)"

text \<open>The first record that is to be blocked, if any; \<open>None\<close> is a panic.\<close>

fun find_blocked :: "(RR \<Rightarrow> (BlocklistMatch option \<times> bool) option option) \<Rightarrow> RR list \<Rightarrow> BlocklistMatch option option option" where
  "find_blocked verdict [] = Some None"
| "find_blocked verdict (rr # rrs) =
     (case verdict rr of
        None \<Rightarrow> find_blocked verdict rrs
      | Some None \<Rightarrow> None
      | Some (Some (match, blocked)) \<Rightarrow> if blocked then Some (Some match) else find_blocked verdict rrs)"

text \<open>The verdict on a record: \<open>None\<close> when it is not looked at, otherwise the match and whether it is to be blocked.\<close>

definition ip_verdict :: "'w ResponseBlocklistIP \<Rightarrow> RR \<Rightarrow> (BlocklistMatch option \<times> bool) option option" where
  "ip_verdict r rr =
     map_option (\<lambda>ip. map_option (\<lambda>(match, ok). (match, ok \<noteq> ri_Inverted r)) (ResponseBlocklistIP_match r ip)) (rr_address rr)"

definition blocked_reply ::
  "dnslib \<Rightarrow> 'w resolver option \<Rightarrow> EDNS0EDETemplate option \<Rightarrow> Msg \<Rightarrow> BlocklistMatch option \<Rightarrow> ClientInfo \<Rightarrow> 'w \<Rightarrow> reply \<times> 'w" where
  "blocked_reply L alt tpl query match ci w =
     (case alt of
        Some b \<Rightarrow> r_Resolve b query ci w
      | None \<Rightarrow> ((Some (fst (EDE_Apply L tpl (nxdomain L query) query match)), None), w))"

definition ResponseBlocklistIP_blockIfMatch ::
  "dnslib \<Rightarrow> 'w ResponseBlocklistIP \<Rightarrow> Msg \<Rightarrow> Msg \<Rightarrow> ClientInfo \<Rightarrow> 'w \<Rightarrow> reply \<times> 'w" where
  "ResponseBlocklistIP_blockIfMatch L r query answer ci w =
     (case find_blocked (ip_verdict r) (all_rrs answer) of
        None \<Rightarrow> (panic, w)
      | Some None \<Rightarrow> ((Some answer, None), w)
      | Some (Some match) \<Rightarrow> blocked_reply L (ri_BlocklistResolver r) (ri_EDNS0EDETemplate r) query match ci w)"

fun filterRR :: "'w ResponseBlocklistIP \<Rightarrow> RR list \<Rightarrow> RR list option" where
  "filterRR r [] = Some []"
| "filterRR r (rr # rrs) =
     (case ip_verdict r rr of
        None \<Rightarrow> map_option ((#) rr) (filterRR r rrs)
      | Some None \<Rightarrow> None
      | Some (Some (match, blocked)) \<Rightarrow> if blocked then filterRR r rrs else map_option ((#) rr) (filterRR r rrs))"

definition filterMatch ::
  "dnslib \<Rightarrow> 'w ResponseBlocklistIP \<Rightarrow> Msg \<Rightarrow> Msg \<Rightarrow> ClientInfo \<Rightarrow> 'w \<Rightarrow> reply \<times> 'w" where
  "filterMatch L r query answer ci w =
     (case filterRR r (m_Answer answer) of
        None \<Rightarrow> (panic, w)
      | Some [] \<Rightarrow>
          (case ri_BlocklistResolver r of
             Some b \<Rightarrow> r_Resolve b query ci w
           | None \<Rightarrow> ((Some (nxdomain L query), None), w))
      | Some kept \<Rightarrow>
          (case (filterRR r (m_Ns answer), filterRR r (m_Extra answer)) of
             (Some ns, Some extra) \<Rightarrow> ((Some (answer\<lparr>m_Answer := kept, m_Ns := ns, m_Extra := extra\<rparr>), None), w)
           | _ \<Rightarrow> (panic, w)))"

definition ResponseBlocklistIP_Resolve ::
  "dnslib \<Rightarrow> 'w ResponseBlocklistIP \<Rightarrow> Msg \<Rightarrow> ClientInfo \<Rightarrow> 'w \<Rightarrow> reply \<times> 'w" where
  "ResponseBlocklistIP_Resolve L r q ci w =
     (case r_Resolve (ri_resolver r) q ci w of
        ((Some answer, None), w') \<Rightarrow>
          if m_Rcode answer \<noteq> RcodeSuccess then ((Some answer, None), w')
          else if ri_Filter r then filterMatch L r q answer ci w'
          else ResponseBlocklistIP_blockIfMatch L r q answer ci w'
      | (ae, w') \<Rightarrow> (ae, w'))"

section \<open>ResponseBlocklistName\<close>

record 'w ResponseBlocklistName =
  rn_BlocklistResolver :: "'w resolver option"
  rn_BlocklistDB :: "BlocklistDB option"
  rn_BlocklistRefresh :: int
  rn_Inverted :: bool
  rn_EDNS0EDETemplate :: "EDNS0EDETemplate option"
  rn_resolver :: "'w resolver"

definition NewResponseBlocklistName ::
  "'w resolver \<Rightarrow> 'w resolver option \<Rightarrow> BlocklistDB option \<Rightarrow> int \<Rightarrow> bool \<Rightarrow> EDNS0EDETemplate option \<Rightarrow> 'w ResponseBlocklistName" where
  "NewResponseBlocklistName resolver blocklistResolver db refresh inverted tpl =
     \<lparr>rn_BlocklistResolver = blocklistResolver, rn_BlocklistDB = db, rn_BlocklistRefresh = refresh, 
      rn_Inverted = inverted, rn_EDNS0EDETemplate = tpl, rn_resolver = resolver\<rparr>"

definition ResponseBlocklistName_refresh ::
  "(world \<Rightarrow> BlocklistDB \<Rightarrow> BlocklistDB reloaded) \<Rightarrow> world \<Rightarrow> 'w ResponseBlocklistName \<Rightarrow> 'w ResponseBlocklistName \<times> world" where
  "ResponseBlocklistName_refresh reload w r =
     (case refresh_slot reload (rn_BlocklistRefresh r) w (rn_BlocklistDB r) of (db, w') \<Rightarrow> (r\<lparr>rn_BlocklistDB := db\<rparr>, w'))"

definition svcbString :: "string \<Rightarrow> (string \<times> string) list \<Rightarrow> string" where
  "svcbString target values = target @ concat (map (\<lambda>(k, v). '' '' @ k @ ''='' @ v) values)"

definition record_name :: "RR \<Rightarrow> string option" where
  "record_name rr =
     (case rr_Data rr of
        CNAME target \<Rightarrow> Some target
      | MX mx \<Rightarrow> Some mx
      | NS ns \<Rightarrow> Some ns
      | PTR p \<Rightarrow> Some p
      | SRV target \<Rightarrow> Some target
      | HTTPS target values \<Rightarrow> Some (svcbString target values)
      | TXT txt \<Rightarrow> Some (Join txt '' '')
      | SVCB target values \<Rightarrow> Some (svcbString target values)
      | SOA ns \<Rightarrow> Some ns
      | _ \<Rightarrow> None)"

definition ResponseBlocklistName_match :: "dnslib \<Rightarrow> 'w ResponseBlocklistName \<Rightarrow> Msg \<Rightarrow> (BlocklistMatch option \<times> bool) option" where
  "ResponseBlocklistName_match L r msg =
     (case rn_BlocklistDB r of
        None \<Rightarrow> None
      | Some db \<Rightarrow> map_option (\<lambda>(_, _, match, ok). (match, ok)) (BlocklistDB_Match L db msg))"

definition name_verdict :: "dnslib \<Rightarrow> 'w ResponseBlocklistName \<Rightarrow> RR \<Rightarrow> (BlocklistMatch option \<times> bool) option option" where
  "name_verdict L r rr =
     map_option (\<lambda>name. map_option (\<lambda>(match, ok). (match, ok \<noteq> rn_Inverted r))
         (ResponseBlocklistName_match L r (SetQuestion L new_Msg name 0))) (record_name rr)"

definition ResponseBlocklistName_blockIfMatch ::
  "dnslib \<Rightarrow> 'w ResponseBlocklistName \<Rightarrow> Msg \<Rightarrow> Msg \<Rightarrow> ClientInfo \<Rightarrow> 'w \<Rightarrow> reply \<times> 'w" where
  "ResponseBlocklistName_blockIfMatch L r query answer ci w =
     (case find_blocked (name_verdict L r) (all_rrs answer) of
        None \<Rightarrow> (panic, w)
      | Some None \<Rightarrow> ((Some answer, None), w)
      | Some (Some match) \<Rightarrow> blocked_reply L (rn_BlocklistResolver r) (rn_EDNS0EDETemplate r) query match ci w)"

definition ResponseBlocklistName_Resolve ::
  "dnslib \<Rightarrow> 'w ResponseBlocklistName \<Rightarrow> Msg \<Rightarrow> ClientInfo \<Rightarrow> 'w \<Rightarrow> reply \<times> 'w" where
  "ResponseBlocklistName_Resolve L r q ci w =
     (case r_Resolve (rn_resolver r) q ci w of
        ((Some answer, None), w') \<Rightarrow> ResponseBlocklistName_blockIfMatch L r q answer ci w'
      | (ae, w') \<Rightarrow> (ae, w'))"

section \<open>What is blocked and what is not\<close>

lemma first_match_ok:
  "first_match match dbs = Some (ips, names, m, True) \<Longrightarrow> \<exists>db \<in> set dbs. match db = Some (ips, names, m, True)"
  by (induction dbs) (auto split: option.splits if_splits)

text \<open>A database that reports a match also says which rule matched.\<close>

lemma BlocklistDB_Match_match:
  "BlocklistDB_Match L db msg = Some (ips, names, m, True) \<Longrightarrow> m \<noteq> None"
proof (induction L db msg arbitrary: ips names m rule: BlocklistDB_Match.induct)
  case (6 L dbs msg)
  then show ?case using first_match_ok by fastforce
qed (auto simp: DomainDB_Match_def DomainCompactDB_Match_def domain_result_def HostsDB_Match_def RegexpDB_Match_def
    MACDB_Match_def Let_def split: option.splits list.splits if_splits prod.splits Option.bind_splits)

lemma append_option_keeps [simp]:
  "m_Id (append_option L m opt) = m_Id m" "m_Answer (append_option L m opt) = m_Answer m"
  "m_Ns (append_option L m opt) = m_Ns m" "m_Rcode (append_option L m opt) = m_Rcode m"
  by (simp_all add: append_option_def edns0_put_def split: option.splits)

text \<open>An extended error changes nothing of a message but its additional section.\<close>

lemma EDE_Apply_keeps:
  assumes "SetEdns0_law L"
  shows "m_Id (fst (EDE_Apply L tpl a q m)) = m_Id a" "m_Answer (fst (EDE_Apply L tpl a q m)) = m_Answer a"
    "m_Ns (fst (EDE_Apply L tpl a q m)) = m_Ns a" "m_Rcode (fst (EDE_Apply L tpl a q m)) = m_Rcode a"
proof -
  obtain r where "SetEdns0 L a 4096 False = a\<lparr>m_Extra := m_Extra a @ [r]\<rparr>"
    using assms unfolding SetEdns0_law_def by blast
  then show "m_Id (fst (EDE_Apply L tpl a q m)) = m_Id a" "m_Answer (fst (EDE_Apply L tpl a q m)) = m_Answer a"
    "m_Ns (fst (EDE_Apply L tpl a q m)) = m_Ns a" "m_Rcode (fst (EDE_Apply L tpl a q m)) = m_Rcode a"
    by (simp_all add: EDE_Apply_def split: option.splits prod.splits)
qed

text \<open>The answer to a blocked query: records for the name and of the type asked for, or NXDOMAIN.\<close>

definition blocking_answer :: "Msg \<Rightarrow> Question \<Rightarrow> Msg \<Rightarrow> bool" where
  "blocking_answer q question a \<longleftrightarrow>
     m_Id a = m_Id q \<and> m_Ns a = [] \<and>
     (\<forall>rr \<in> set (m_Answer a). rr_Name rr = q_Name question \<and> rr_Rrtype rr = q_Qtype question \<and> rr_Ttl rr = 3600) \<and>
     (if m_Answer a = [] then m_Rcode a = RcodeNameError else m_Rcode a = RcodeSuccess)"

lemma block_answer_blocks:
  assumes "SetReply_law L" "SetRcode_law L" "SetEdns0_law L"
  shows "blocking_answer q question (block_answer L tpl q question ips match)"
proof -
  have "rr_Name rr = q_Name question \<and> rr_Rrtype rr = q_Qtype question \<and> rr_Ttl rr = 3600"
    if "rr \<in> set (concat (map (spoof_rr question) ips))" for rr
    using that by (auto simp: spoof_rr_def split: if_splits)
  moreover note EDE_Apply_keeps [OF assms(3), of tpl "(SetReply L new_Msg q)\<lparr>m_RecursionAvailable := True\<rparr>" q match]
  ultimately show ?thesis
    using assms(1,2) by (simp add: blocking_answer_def block_answer_def Let_def SetReply_law_def SetRcode_law_def new_Msg_def)
qed

lemma ptr_blocks:
  assumes "SetReply_law L" "m_Question q = question # qs" "q_Qtype question = TypePTR" "names \<noteq> []" "ptr L q names = Some a"
  shows "blocking_answer q question a"
  using assms by (auto simp: blocking_answer_def ptr_def SetReply_law_def new_Msg_def)

text \<open>The lists decide on a query: the allowlist first, then the blocklist. The result is the verdict.\<close>

datatype list_verdict = Allowed | Unlisted | Blocked

definition blocklist_verdict :: "dnslib \<Rightarrow> 'w Blocklist \<Rightarrow> Msg \<Rightarrow> list_verdict option" where
  "blocklist_verdict L r q =
     (case matchAllowlist L r q of
        None \<Rightarrow> None
      | Some (_, True) \<Rightarrow> Some Allowed
      | Some (_, False) \<Rightarrow> map_option (\<lambda>(_, _, _, ok). if ok then Blocked else Unlisted) (matchBlocklist L r q))"

lemma Blocklist_Resolve_forwards:
  assumes "m_Question q \<noteq> []"
  shows "blocklist_verdict L r q = Some Allowed \<Longrightarrow>
      Blocklist_Resolve L r q ci w =
        (case r_Resolve (case bo_AllowListResolver (bl_opt r) of Some a \<Rightarrow> a | None \<Rightarrow> bl_resolver r) q ci w of
           (ae, w') \<Rightarrow> (ae, count_allowed r, w'))"
    and "blocklist_verdict L r q = Some Unlisted \<Longrightarrow>
      Blocklist_Resolve L r q ci w = (case r_Resolve (bl_resolver r) q ci w of (ae, w') \<Rightarrow> (ae, count_allowed r, w'))"
proof -
  obtain question qs where q: "m_Question q = question # qs" using assms by (cases "m_Question q") auto
  show "Blocklist_Resolve L r q ci w =
        (case r_Resolve (case bo_AllowListResolver (bl_opt r) of Some a \<Rightarrow> a | None \<Rightarrow> bl_resolver r) q ci w of
           (ae, w') \<Rightarrow> (ae, count_allowed r, w'))" if "blocklist_verdict L r q = Some Allowed"
  proof -
    from that obtain match where m: "matchAllowlist L r q = Some (match, True)"
      by (auto simp: blocklist_verdict_def split: option.splits bool.splits if_splits)
    then have "match \<noteq> None"
      using BlocklistDB_Match_match by (fastforce simp: matchAllowlist_def split: option.splits)
    with m q show ?thesis by (auto simp: Blocklist_Resolve_def)
  qed
  show "Blocklist_Resolve L r q ci w = (case r_Resolve (bl_resolver r) q ci w of (ae, w') \<Rightarrow> (ae, count_allowed r, w'))"
    if "blocklist_verdict L r q = Some Unlisted"
  proof -
    from that obtain am ips names match where
      "matchAllowlist L r q = Some (am, False)" "matchBlocklist L r q = Some (ips, names, match, False)"
      by (auto simp: blocklist_verdict_def split: option.splits bool.splits if_splits)
    with q show ?thesis by (simp add: Blocklist_Resolve_def)
  qed
qed

lemma Blocklist_Resolve_blocks:
  assumes "SetReply_law L" "SetRcode_law L" "SetEdns0_law L" "m_Question q = question # qs"
    "blocklist_verdict L r q = Some Blocked" "bo_BlocklistResolver (bl_opt r) = None"
  shows "\<exists>a. Blocklist_Resolve L r q ci w = ((Some a, None), count_blocked r, w) \<and> blocking_answer q question a"
proof -
  obtain am ips names match where lists: "matchAllowlist L r q = Some (am, False)" "matchBlocklist L r q = Some (ips, names, match, True)"
    using assms(5) by (auto simp: blocklist_verdict_def split: option.splits bool.splits if_splits)
  then have "match \<noteq> None"
    using BlocklistDB_Match_match by (auto simp: matchBlocklist_def split: option.splits)
  moreover obtain p where p: "ptr L q (take maxPTRResponses names) = Some p" using assms(4) by (simp add: ptr_def)
  moreover note block_answer_blocks [OF assms(1-3)] ptr_blocks [OF assms(1,4) _ _ p]
  ultimately show ?thesis using lists assms(4,6) by (auto simp: Blocklist_Resolve_def)
qed

section \<open>What a filtered response holds\<close>

definition record_passes :: "'w ResponseBlocklistIP \<Rightarrow> RR \<Rightarrow> bool" where
  "record_passes r rr \<longleftrightarrow>
     (case rr_address rr of None \<Rightarrow> True | Some ip \<Rightarrow> map_option snd (ResponseBlocklistIP_match r ip) = Some (ri_Inverted r))"

lemma filterRR_filter: "filterRR r rrs = Some rrs' \<Longrightarrow> rrs' = filter (record_passes r) rrs"
  by (induction rrs arbitrary: rrs')
     (auto simp: ip_verdict_def record_passes_def split: option.splits if_splits)

lemma find_blocked_none: "find_blocked (ip_verdict r) rrs = Some None \<Longrightarrow> rr \<in> set rrs \<Longrightarrow> record_passes r rr"
  by (induction rrs) (auto simp: ip_verdict_def record_passes_def split: option.splits if_splits)

lemma nxdomain_Rcode: "SetRcode_law L \<Longrightarrow> m_Rcode (nxdomain L q) = RcodeNameError"
  by (simp add: nxdomain_def responseWithCode_def SetRcode_law_def)

lemma ResponseBlocklistIP_passes:
  assumes "SetRcode_law L" "SetEdns0_law L" "ri_BlocklistResolver r = None"
    and "ResponseBlocklistIP_Resolve L r q ci w = ((Some a, None), w')" "m_Rcode a = RcodeSuccess" "rr \<in> set (all_rrs a)"
  shows "record_passes r rr"
proof -
  obtain u w1 where u: "r_Resolve (ri_resolver r) q ci w = ((Some u, None), w1)"
    using assms(4) by (auto simp: ResponseBlocklistIP_Resolve_def split: prod.splits option.splits)
  have nx: "m_Rcode (fst (EDE_Apply L tpl (nxdomain L q) q m)) \<noteq> RcodeSuccess" "m_Rcode (nxdomain L q) \<noteq> RcodeSuccess" for tpl m
    using EDE_Apply_keeps(4) [OF assms(2)] nxdomain_Rcode [OF assms(1)] by simp_all
  show ?thesis
  proof (cases "ri_Filter r")
    case True
    with assms u have "filterMatch L r q u ci w1 = ((Some a, None), w')"
      by (auto simp: ResponseBlocklistIP_Resolve_def split: if_splits)
    then obtain kept ns extra where "a = u\<lparr>m_Answer := kept, m_Ns := ns, m_Extra := extra\<rparr>"
      "filterRR r (m_Answer u) = Some kept" "filterRR r (m_Ns u) = Some ns" "filterRR r (m_Extra u) = Some extra"
      using nx assms(3,5) by (auto simp: filterMatch_def split: option.splits list.splits)
    with assms(6) show ?thesis by (auto simp: all_rrs_def dest!: filterRR_filter)
  next
    case False
    with assms u have "ResponseBlocklistIP_blockIfMatch L r q u ci w1 = ((Some a, None), w')"
      by (auto simp: ResponseBlocklistIP_Resolve_def split: if_splits)
    with nx assms(3,5,6) show ?thesis
      by (auto simp: ResponseBlocklistIP_blockIfMatch_def blocked_reply_def split: option.splits intro: find_blocked_none)
  qed
qed

end
