(* ===== verification/Edns.thy ===== *)
theory Edns
  imports Blocklists
begin

text \<open>
  EDNS0 options of queries and answers: \<^verbatim>\<open>ecs-modifier.go\<close>, \<^verbatim>\<open>edns0-modifier.go\<close> and \<^verbatim>\<open>padding.go\<close>. The
  modifiers change a copy of the query; here a modifier is a function from the query and the client to the
  changed query.
\<close>

section \<open>Options of the OPT record\<close>

text \<open>The message after \<^verbatim>\<open>edns0.Option = opts\<close> for the OPT record at an index of the additional section.\<close>

definition with_options :: "Msg \<Rightarrow> nat \<Rightarrow> EDNS0 list \<Rightarrow> Msg" where
  "with_options m i opts = m\<lparr>m_Extra := (m_Extra m)[i := (m_Extra m ! i)\<lparr>rr_Data := OPT opts\<rparr>]\<rparr>"

definition map_options :: "dnslib \<Rightarrow> (EDNS0 list \<Rightarrow> EDNS0 list) \<Rightarrow> Msg \<Rightarrow> Msg" where
  "map_options L f q =
     (case IsEdns0 L q of None \<Rightarrow> q | Some i \<Rightarrow> with_options q i (f (opt_Option (rr_Data (m_Extra q ! i)))))"

definition ensure_edns0 :: "dnslib \<Rightarrow> Msg \<Rightarrow> Msg" where
  "ensure_edns0 L q = (case IsEdns0 L q of None \<Rightarrow> SetEdns0 L q 4096 False | Some _ \<Rightarrow> q)"

text \<open>Documented: which record \<^verbatim>\<open>IsEdns0\<close> finds depends on the types of the records only.\<close>

definition IsEdns0_types_law :: "dnslib \<Rightarrow> bool" where
  "IsEdns0_types_law L \<longleftrightarrow> (\<forall>m m'. map is_opt (m_Extra m) = map is_opt (m_Extra m') \<longrightarrow> IsEdns0 L m = IsEdns0 L m')"

lemma ref_last_opt_types: "map is_opt xs = map is_opt ys \<Longrightarrow> ref_last_opt i xs = ref_last_opt i ys"
proof (induction xs arbitrary: ys i)
  case (Cons x xs)
  then obtain y ys' where "ys = y # ys'" "is_opt x = is_opt y" "map is_opt xs = map is_opt ys'" by (cases ys) auto
  with Cons.IH [of ys' "Suc i"] show ?case by simp
qed simp

lemma ref_lib_types_law [simp]: "IsEdns0_types_law ref_lib" "IsEdns0_types_law (ref_lib_packing m0 w0)"
  by (auto simp: IsEdns0_types_law_def ref_lib_def intro: ref_last_opt_types)

section \<open>Client subnet\<close>

type_synonym modifier_func = "Msg \<Rightarrow> ClientInfo \<Rightarrow> Msg"

definition ECSModifierDelete :: "dnslib \<Rightarrow> modifier_func" where
  "ECSModifierDelete L q ci = map_options L (filter (\<lambda>opt. \<not> is_EDNS0_SUBNET opt)) q"

definition ecs_option :: "IP \<Rightarrow> u8 \<Rightarrow> u8 \<Rightarrow> EDNS0" where
  "ecs_option sourceIP prefix4 prefix6 =
     (if length (To4 sourceIP) = 4
      then EDNS0_SUBNET 1 prefix4 0 (Mask (To4 sourceIP) (CIDRMask (uint prefix4) 32))
      else EDNS0_SUBNET 2 prefix6 0 (Mask sourceIP (CIDRMask (uint prefix6) 128)))"

definition ECSModifierAdd :: "dnslib \<Rightarrow> IP \<Rightarrow> u8 \<Rightarrow> u8 \<Rightarrow> modifier_func" where
  "ECSModifierAdd L addr prefix4 prefix6 q ci =
     (let sourceIP = (if addr = [] then ci_SourceIP ci else addr)
      in map_options L (\<lambda>opts. opts @ [ecs_option sourceIP prefix4 prefix6]) (ensure_edns0 L (ECSModifierDelete L q ci)))"

definition ECSModifierAddIfMissing :: "dnslib \<Rightarrow> IP \<Rightarrow> u8 \<Rightarrow> u8 \<Rightarrow> modifier_func" where
  "ECSModifierAddIfMissing L addr prefix4 prefix6 q ci =
     (if \<exists>opt \<in> set (edns0_options L q). is_EDNS0_SUBNET opt then q else ECSModifierAdd L addr prefix4 prefix6 q ci)"

definition ecs_privacy :: "u8 \<Rightarrow> u8 \<Rightarrow> EDNS0 \<Rightarrow> EDNS0" where
  "ecs_privacy prefix4 prefix6 opt =
     (case opt of
        EDNS0_SUBNET family netmask scope addr \<Rightarrow>
          (if family = 1 then EDNS0_SUBNET family prefix4 scope (Mask (To4 addr) (CIDRMask (uint prefix4) 32))
           else if family = 2 then EDNS0_SUBNET family prefix6 scope (Mask addr (CIDRMask (uint prefix6) 128))
           else opt)
      | _ \<Rightarrow> opt)"

definition ECSModifierPrivacy :: "dnslib \<Rightarrow> u8 \<Rightarrow> u8 \<Rightarrow> modifier_func" where
  "ECSModifierPrivacy L prefix4 prefix6 q ci = map_options L (map (ecs_privacy prefix4 prefix6)) q"

section \<open>Other options\<close>

definition EDNS0ModifierDelete :: "dnslib \<Rightarrow> u16 \<Rightarrow> modifier_func" where
  "EDNS0ModifierDelete L code q ci = map_options L (filter (\<lambda>opt. Option_code L opt \<noteq> code)) q"

definition EDNS0ModifierAdd :: "dnslib \<Rightarrow> u16 \<Rightarrow> u8 list \<Rightarrow> modifier_func" where
  "EDNS0ModifierAdd L code data q ci =
     map_options L (\<lambda>opts. opts @ [EDNS0_LOCAL code data]) (ensure_edns0 L (EDNS0ModifierDelete L code q ci))"

text \<open>The resolvers \<^verbatim>\<open>ECSModifier\<close> and \<^verbatim>\<open>EDNS0Modifier\<close>, which differ only in the function they apply.\<close>

record 'w EDNS0Modifier =
  em_resolver :: "'w resolver"
  em_modifier :: "modifier_func option"

definition NewEDNS0Modifier :: "'w resolver \<Rightarrow> modifier_func option \<Rightarrow> 'w EDNS0Modifier" where
  "NewEDNS0Modifier resolver f = \<lparr>em_resolver = resolver, em_modifier = f\<rparr>"

definition EDNS0Modifier_Resolve :: "'w EDNS0Modifier \<Rightarrow> Msg \<Rightarrow> ClientInfo \<Rightarrow> 'w \<Rightarrow> reply \<times> 'w" where
  "EDNS0Modifier_Resolve r q ci w =
     r_Resolve (em_resolver r) (case em_modifier r of None \<Rightarrow> q | Some f \<Rightarrow> f q ci) ci w"

record 'w ECSModifier =
  ec_resolver :: "'w resolver"
  ec_modifier :: "modifier_func option"

definition NewECSModifier :: "'w resolver \<Rightarrow> modifier_func option \<Rightarrow> 'w ECSModifier" where
  "NewECSModifier resolver f = \<lparr>ec_resolver = resolver, ec_modifier = f\<rparr>"

definition ECSModifier_Resolve :: "'w ECSModifier \<Rightarrow> Msg \<Rightarrow> ClientInfo \<Rightarrow> 'w \<Rightarrow> reply \<times> 'w" where
  "ECSModifier_Resolve r q ci w =
     r_Resolve (ec_resolver r) (case ec_modifier r of None \<Rightarrow> q | Some f \<Rightarrow> f q ci) ci w"

section \<open>Padding\<close>

abbreviation (input) QueryPaddingBlockSize :: nat where "QueryPaddingBlockSize \<equiv> 128"
abbreviation (input) ResponsePaddingBlockSize :: nat where "ResponsePaddingBlockSize \<equiv> 468"

text \<open>
  The loop over the options: the padding of every option with the padding code is emptied. The type
  assertion panics, here \<open>None\<close>, for an option that has that code but not that type.
\<close>

fun clear_padding :: "dnslib \<Rightarrow> EDNS0 list \<Rightarrow> EDNS0 list option" where
  "clear_padding L [] = Some []"
| "clear_padding L (opt # opts) =
     (if Option_code L opt = EDNS0PADDING
      then if is_EDNS0_PADDING opt then map_option ((#) (EDNS0_PADDING [])) (clear_padding L opts) else None
      else map_option ((#) opt) (clear_padding L opts))"

definition ensure_padding :: "dnslib \<Rightarrow> EDNS0 list \<Rightarrow> EDNS0 list" where
  "ensure_padding L opts =
     (if \<exists>opt \<in> set opts. Option_code L opt = EDNS0PADDING then opts else opts @ [EDNS0_PADDING []])"

text \<open>The write through the pointer to the last padding option.\<close>

definition write_padding :: "EDNS0 list \<Rightarrow> nat \<Rightarrow> EDNS0 list" where
  "write_padding opts n =
     (let after = takeWhile (\<lambda>opt. \<not> is_EDNS0_PADDING opt) (rev opts)
      in take (length opts - Suc (length after)) opts @ EDNS0_PADDING (replicate n 0) # rev after)"

definition padQuery :: "dnslib \<Rightarrow> Msg \<Rightarrow> Msg option" where
  "padQuery L q =
     (case IsEdns0 L q of
        None \<Rightarrow> Some q
      | Some i \<Rightarrow>
          (case clear_padding L (opt_Option (rr_Data (m_Extra q ! i))) of
             None \<Rightarrow> None
           | Some cleared \<Rightarrow>
               (let opts = ensure_padding L cleared;
                    len = Msg_Len L (with_options q i opts);
                    padLen = QueryPaddingBlockSize - len mod QueryPaddingBlockSize
                in Some (with_options q i (write_padding opts padLen)))))"

definition answer_padding :: "nat \<Rightarrow> nat \<Rightarrow> nat" where
  "answer_padding len udpSize =
     (let padLen = ResponsePaddingBlockSize - len mod ResponsePaddingBlockSize
      in if udpSize < len + padLen then udpSize - len else padLen)"

definition padAnswer :: "dnslib \<Rightarrow> Msg \<Rightarrow> Msg \<Rightarrow> Msg option" where
  "padAnswer L q a0 =
     (case edns0_of L q of
        None \<Rightarrow> Some a0
      | Some edns0q \<Rightarrow>
          (let a = (case IsEdns0 L a0 of None \<Rightarrow> SetEdns0 L a0 (OPT_UDPSize L edns0q) (OPT_Do L edns0q) | Some _ \<Rightarrow> a0)
           in case IsEdns0 L a of
                None \<Rightarrow> None
              | Some i \<Rightarrow>
                  (case clear_padding L (opt_Option (rr_Data (m_Extra a ! i))) of
                     None \<Rightarrow> None
                   | Some cleared \<Rightarrow>
                       (let opts = ensure_padding L cleared; len = Msg_Len L (with_options a i opts)
                        in Some (with_options a i (write_padding opts (answer_padding len (unat (OPT_UDPSize L edns0q)))))))))"

definition stripPadding :: "dnslib \<Rightarrow> Msg \<Rightarrow> Msg" where
  "stripPadding L m = map_options L (filter (\<lambda>opt. Option_code L opt \<noteq> EDNS0PADDING)) m"

section \<open>What upstream learns of the client\<close>

lemma is_opt_with_OPT [simp]: "is_opt (r\<lparr>rr_Data := OPT opts\<rparr>)"
  by (simp add: is_opt_def)

lemma with_options_types:
  assumes "i < length (m_Extra m)" "is_opt (m_Extra m ! i)"
  shows "map is_opt (m_Extra (with_options m i opts)) = map is_opt (m_Extra m)"
  using assms by (auto simp: with_options_def list_eq_iff_nth_eq nth_list_update)

lemma IsEdns0_with_options:
  assumes "IsEdns0_law L" "IsEdns0_types_law L" "IsEdns0 L m = Some i"
  shows "IsEdns0 L (with_options m i opts) = Some i"
  using with_options_types [of i m opts] IsEdns0_law_SomeD [OF assms(1,3)] assms(2,3) unfolding IsEdns0_types_law_def by metis

lemma edns0_options_map:
  assumes "IsEdns0_law L" "IsEdns0_types_law L" "IsEdns0 L m \<noteq> None"
  shows "edns0_options L (map_options L f m) = f (edns0_options L m)" "IsEdns0 L (map_options L f m) \<noteq> None"
proof -
  from assms(3) obtain i where i: "IsEdns0 L m = Some i" by auto
  note IsEdns0_with_options [OF assms(1,2) i] IsEdns0_law_SomeD [OF assms(1) i]
  then show "edns0_options L (map_options L f m) = f (edns0_options L m)" "IsEdns0 L (map_options L f m) \<noteq> None"
    by (simp_all add: map_options_def i edns0_options_def edns0_of_def) (simp add: with_options_def)
qed

lemma edns0_options_none: "IsEdns0 L m = None \<Longrightarrow> edns0_options L m = [] \<and> map_options L f m = m"
  by (simp add: edns0_options_def edns0_of_def map_options_def)

lemma ensure_edns0_options:
  assumes "SetEdns0_law L"
  shows "edns0_options L (ensure_edns0 L m) = edns0_options L m" "IsEdns0 L (ensure_edns0 L m) \<noteq> None"
proof -
  obtain r where r: "SetEdns0 L m 4096 False = m\<lparr>m_Extra := m_Extra m @ [r]\<rparr>" "opt_Option (rr_Data r) = []"
    "IsEdns0 L (SetEdns0 L m 4096 False) = Some (length (m_Extra m))"
    using assms unfolding SetEdns0_law_def by blast
  then show "edns0_options L (ensure_edns0 L m) = edns0_options L m" "IsEdns0 L (ensure_edns0 L m) \<noteq> None"
    by (auto simp: ensure_edns0_def edns0_options_def edns0_of_def split: option.splits)
qed

text \<open>Removing options and appending one, the shape of both \<^verbatim>\<open>Add\<close> modifiers.\<close>

lemma replace_options:
  assumes "IsEdns0_law L" "IsEdns0_types_law L" "SetEdns0_law L"
  shows "edns0_options L (map_options L (\<lambda>opts. opts @ [x]) (ensure_edns0 L (map_options L (filter P) q))) =
    filter P (edns0_options L q) @ [x]"
proof -
  have "edns0_options L (map_options L (filter P) q) = filter P (edns0_options L q)"
    using edns0_options_map(1) [OF assms(1,2), of q] edns0_options_none [of L q] by (cases "IsEdns0 L q") auto
  then show ?thesis using edns0_options_map(1) [OF assms(1,2) ensure_edns0_options(2) [OF assms(3)]] ensure_edns0_options(1) [OF assms(3)]
    by simp
qed

text \<open>Two addresses of the same family that agree on the first bits.\<close>

definition same_network :: "u8 \<Rightarrow> u8 \<Rightarrow> IP \<Rightarrow> IP \<Rightarrow> bool" where
  "same_network prefix4 prefix6 ip ip' \<longleftrightarrow>
     (if length (To4 ip) = 4
      then length (To4 ip') = 4 \<and> take (unat prefix4) (ip_bits (To4 ip)) = take (unat prefix4) (ip_bits (To4 ip'))
      else length (To4 ip') \<noteq> 4 \<and> length ip' = length ip \<and> take (unat prefix6) (ip_bits ip) = take (unat prefix6) (ip_bits ip'))"

lemma Mask_mask_bytes: "length ip = l \<Longrightarrow> l = 4 \<or> l = 16 \<Longrightarrow> To4 ip = [] \<or> l = 4 \<Longrightarrow> Mask ip (mask_bytes l n) = map2 (AND) ip (mask_bytes l n)"
  by (auto simp: Mask_def Let_def)

lemma Mask_Nil [simp]: "Mask ip [] = []"
  by (simp add: Mask_def Let_def)

lemma ecs_option_same_network:
  assumes "same_network prefix4 prefix6 ip ip'"
  shows "ecs_option ip prefix4 prefix6 = ecs_option ip' prefix4 prefix6"
proof (cases "length (To4 ip) = 4")
  case True
  then show ?thesis
    using assms by (auto simp: same_network_def ecs_option_def CIDRMask_def Mask_mask_bytes map2_mask_bytes_eq_iff)
next
  case False
  with assms have ip': "length (To4 ip') \<noteq> 4" "length ip' = length ip" by (simp_all add: same_network_def)
  with False have "To4 ip = []" "To4 ip' = []" using length_To4 by blast+
  then have "length ip \<noteq> 4" by auto
  show ?thesis
  proof (cases "length ip = 16")
    case True
    with False assms ip' \<open>To4 ip = []\<close> \<open>To4 ip' = []\<close> show ?thesis
      by (auto simp: same_network_def ecs_option_def CIDRMask_def Mask_mask_bytes map2_mask_bytes_eq_iff)
  next
    case False
    with ip' \<open>length ip \<noteq> 4\<close> \<open>To4 ip = []\<close> \<open>To4 ip' = []\<close> show ?thesis
      by (auto simp: ecs_option_def CIDRMask_def Mask_def Let_def)
  qed
qed

text \<open>
  C32: the client subnet tells upstream the network of the client and no more. After \<^verbatim>\<open>ECSModifierAdd\<close>
  without a fixed address the query has exactly one client subnet option, after the other options,
  which are unchanged, and it is the same for any two clients whose addresses agree on the configured
  number of leading bits.
\<close>

theorem ECSModifierAdd_hides:
  assumes "IsEdns0_law L" "IsEdns0_types_law L" "SetEdns0_law L"
    and "same_network prefix4 prefix6 (ci_SourceIP ci) (ci_SourceIP ci')"
  shows "ECSModifierAdd L [] prefix4 prefix6 q ci = ECSModifierAdd L [] prefix4 prefix6 q ci' \<and>
    (\<exists>subnet. is_EDNS0_SUBNET subnet \<and>
       edns0_options L (ECSModifierAdd L [] prefix4 prefix6 q ci) = filter (\<lambda>opt. \<not> is_EDNS0_SUBNET opt) (edns0_options L q) @ [subnet])"
proof
  show "ECSModifierAdd L [] prefix4 prefix6 q ci = ECSModifierAdd L [] prefix4 prefix6 q ci'"
    using ecs_option_same_network [OF assms(4)] by (simp add: ECSModifierAdd_def ECSModifierDelete_def)
  have "is_EDNS0_SUBNET (ecs_option (ci_SourceIP ci) prefix4 prefix6)" by (simp add: ecs_option_def)
  then show "\<exists>subnet. is_EDNS0_SUBNET subnet \<and>
       edns0_options L (ECSModifierAdd L [] prefix4 prefix6 q ci) = filter (\<lambda>opt. \<not> is_EDNS0_SUBNET opt) (edns0_options L q) @ [subnet]"
    using replace_options [OF assms(1-3)] by (auto simp: ECSModifierAdd_def ECSModifierDelete_def)
qed

theorem ECSModifierAdd_hides_witness:
  "ECSModifierAdd ref_lib [] 24 56 (ref_query ''a.'' 1) ref_client =
     ECSModifierAdd ref_lib [] 24 56 (ref_query ''a.'' 1) (ref_client\<lparr>ci_SourceIP := [192, 0, 2, 200]\<rparr>)"
proof -
  have "same_network 24 56 (ci_SourceIP ref_client) (ci_SourceIP (ref_client\<lparr>ci_SourceIP := [192, 0, 2, 200]\<rparr>))"
    by (simp add: same_network_def ref_client_def ip_bits_def byte_bits_def upt_rec)
  from ECSModifierAdd_hides [OF _ _ _ this, of ref_lib "ref_query ''a.'' 1"] show ?thesis by simp
qed

section \<open>Padded lengths\<close>

text \<open>
  Documented: the code of a padding option is the padding code, and every byte of padding makes the
  message one byte longer.
\<close>

definition Padding_law :: "dnslib \<Rightarrow> bool" where
  "Padding_law L \<longleftrightarrow>
     (\<forall>p. Option_code L (EDNS0_PADDING p) = EDNS0PADDING) \<and> (\<forall>c d. Option_code L (EDNS0_LOCAL c d) = c) \<and>
     (\<forall>m i opts opts' n. i < length (m_Extra m) \<longrightarrow>
        Msg_Len L (with_options m i (opts @ EDNS0_PADDING (replicate n 0) # opts')) =
        Msg_Len L (with_options m i (opts @ EDNS0_PADDING [] # opts')) + n)"

text \<open>The options of a message whose padding options all have the type the code expects.\<close>

definition padding_typed :: "dnslib \<Rightarrow> EDNS0 list \<Rightarrow> bool" where
  "padding_typed L opts \<longleftrightarrow> (\<forall>opt \<in> set opts. Option_code L opt = EDNS0PADDING \<longrightarrow> is_EDNS0_PADDING opt)"

lemma clear_padding_Some:
  "Padding_law L \<Longrightarrow> padding_typed L opts \<Longrightarrow>
   clear_padding L opts = Some (map (\<lambda>opt. if is_EDNS0_PADDING opt then EDNS0_PADDING [] else opt) opts)"
  by (induction opts) (auto simp: padding_typed_def Padding_law_def is_EDNS0_PADDING_def)

lemma clear_padding_None:
  "opt \<in> set opts \<Longrightarrow> Option_code L opt = EDNS0PADDING \<Longrightarrow> \<not> is_EDNS0_PADDING opt \<Longrightarrow> clear_padding L opts = None"
  by (induction opts) auto

lemma write_padding_split:
  assumes "EDNS0_PADDING [] \<in> set opts" "\<forall>opt \<in> set opts. is_EDNS0_PADDING opt \<longrightarrow> opt = EDNS0_PADDING []"
  shows "\<exists>before after. opts = before @ EDNS0_PADDING [] # after \<and> (\<forall>n. write_padding opts n = before @ EDNS0_PADDING (replicate n 0) # after)"
proof -
  obtain before x after where split: "opts = before @ x # after" "is_EDNS0_PADDING x" "\<forall>y \<in> set after. \<not> is_EDNS0_PADDING y"
    using split_list_last_prop [of opts is_EDNS0_PADDING] assms(1) by (metis is_EDNS0_PADDING_def)
  then have "takeWhile (\<lambda>opt. \<not> is_EDNS0_PADDING opt) (rev opts) = rev after"
    by (auto simp: takeWhile_append)
  with split assms(2) show ?thesis by (auto simp: write_padding_def)
qed

text \<open>Emptying and adding padding, then writing it: one padding option of the message is written.\<close>

lemma padded_options:
  assumes "Padding_law L" "padding_typed L opts0"
  defines "opts \<equiv> ensure_padding L (map (\<lambda>opt. if is_EDNS0_PADDING opt then EDNS0_PADDING [] else opt) opts0)"
  shows "\<exists>before after. opts = before @ EDNS0_PADDING [] # after \<and> (\<forall>n. write_padding opts n = before @ EDNS0_PADDING (replicate n 0) # after)"
proof (rule write_padding_split)
  have typed: "is_EDNS0_PADDING opt" if "Option_code L opt = 12" "opt \<in> set opts0" for opt
    using assms(2) that by (simp add: padding_typed_def)
  show "EDNS0_PADDING [] \<in> set opts"
  proof (cases "\<exists>opt \<in> set opts0. is_EDNS0_PADDING opt")
    case True
    then show ?thesis by (auto simp: opts_def ensure_padding_def)
  next
    case False
    then have "map (\<lambda>opt. if is_EDNS0_PADDING opt then EDNS0_PADDING [] else opt) opts0 = opts0" by (simp add: map_idI)
    with False typed show ?thesis by (auto simp: opts_def ensure_padding_def)
  qed
  show "\<forall>opt \<in> set opts. is_EDNS0_PADDING opt \<longrightarrow> opt = EDNS0_PADDING []"
    unfolding opts_def ensure_padding_def by (auto split: if_splits)
qed

lemma padded_length:
  assumes "Padding_law L" "padding_typed L opts0" "i < length (m_Extra m)"
  defines "opts \<equiv> ensure_padding L (map (\<lambda>opt. if is_EDNS0_PADDING opt then EDNS0_PADDING [] else opt) opts0)"
  shows "Msg_Len L (with_options m i (write_padding opts n)) = Msg_Len L (with_options m i opts) + n"
proof -
  from padded_options [OF assms(1,2)] obtain before after where
    "opts = before @ EDNS0_PADDING [] # after" "write_padding opts n = before @ EDNS0_PADDING (replicate n 0) # after"
    unfolding opts_def by blast
  with assms(1,3) show ?thesis by (simp add: Padding_law_def)
qed

lemma block_dvd: "0 < (b :: nat) \<Longrightarrow> b dvd n + (b - n mod b)"
proof -
  assume "0 < b"
  then have "n + (b - n mod b) = b * (n div b) + b" 
    using mod_less_divisor [of b n] mult_div_mod_eq [of b n] by linarith
  then show ?thesis by simp
qed

lemma padQuery_block:
  assumes "Padding_law L" "IsEdns0_law L" "IsEdns0 L q = Some i" "padding_typed L (edns0_options L q)"
  shows "\<exists>q'. padQuery L q = Some q' \<and> 128 dvd Msg_Len L q'"
proof -
  have less: "i < length (m_Extra q)" using IsEdns0_law_SomeD [OF assms(2,3)] by blast
  have typed: "padding_typed L (opt_Option (rr_Data (m_Extra q ! i)))" using assms(3,4) by (simp add: edns0_options_def edns0_of_def)
  then show ?thesis
    using clear_padding_Some [OF assms(1) typed] padded_length [OF assms(1) typed less] block_dvd [of 128]
    by (simp add: padQuery_def assms(3) Let_def)
qed

text \<open>The length of a message with an empty padding option.\<close>

definition unpadded_len :: "dnslib \<Rightarrow> Msg \<Rightarrow> nat" where
  "unpadded_len L m =
     Msg_Len L (map_options L (\<lambda>opts. ensure_padding L (map (\<lambda>opt. if is_EDNS0_PADDING opt then EDNS0_PADDING [] else opt) opts)) m)"

lemma padAnswer_block:
  assumes "Padding_law L" "IsEdns0_law L" "edns0_of L q = Some opt" "IsEdns0 L a = Some i" "padding_typed L (edns0_options L a)"
  shows "\<exists>a'. padAnswer L q a = Some a' \<and> Msg_Len L a' = unpadded_len L a + answer_padding (unpadded_len L a) (unat (OPT_UDPSize L opt))"
proof -
  have less: "i < length (m_Extra a)" using IsEdns0_law_SomeD [OF assms(2,4)] by blast
  have typed: "padding_typed L (opt_Option (rr_Data (m_Extra a ! i)))" using assms(4,5) by (simp add: edns0_options_def edns0_of_def)
  let ?opts = "ensure_padding L (map (\<lambda>opt. if is_EDNS0_PADDING opt then EDNS0_PADDING [] else opt) (opt_Option (rr_Data (m_Extra a ! i))))"
  have len: "unpadded_len L a = Msg_Len L (with_options a i ?opts)" by (simp add: unpadded_len_def map_options_def assms(4))
  then have "padAnswer L q a = Some (with_options a i (write_padding ?opts (answer_padding (unpadded_len L a) (unat (OPT_UDPSize L opt)))))"
    using clear_padding_Some [OF assms(1) typed] by (simp add: padAnswer_def assms(3,4) Let_def)
  then show ?thesis using padded_length [OF assms(1) typed less] len by simp
qed

lemma answer_padding_cases:
  assumes "n = answer_padding len size'"
  shows "n \<le> 468" "if len + n < size' then 468 dvd len + n else len + n = size' \<or> size' < len \<and> n = 0"
  using assms block_dvd [of 468 len] by (auto simp: answer_padding_def Let_def)

text \<open>
  C33: a padded query has a length that is a multiple of 128 bytes. An answer is padded by at most 468
  bytes to a multiple of 468 bytes, except where that is more than the client can take: then it is
  padded up to what the client can take, and not at all when it is larger already.
\<close>

theorem padding_lengths:
  assumes "Padding_law L" "IsEdns0_law L" "edns0_of L q = Some opt" "padding_typed L (edns0_options L q)"
    and "IsEdns0 L a \<noteq> None" "padding_typed L (edns0_options L a)"
  shows "(\<exists>q'. padQuery L q = Some q' \<and> 128 dvd Msg_Len L q') \<and>
    (\<exists>a'. padAnswer L q a = Some a' \<and> unpadded_len L a \<le> Msg_Len L a' \<and> Msg_Len L a' \<le> unpadded_len L a + 468 \<and>
       (if Msg_Len L a' < unat (OPT_UDPSize L opt) then 468 dvd Msg_Len L a'
        else Msg_Len L a' = unat (OPT_UDPSize L opt) \<or> unat (OPT_UDPSize L opt) < unpadded_len L a \<and> Msg_Len L a' = unpadded_len L a))"
proof
  show "\<exists>q'. padQuery L q = Some q' \<and> 128 dvd Msg_Len L q'"
    using padQuery_block [OF assms(1,2) _ assms(4)] assms(3) by (auto simp: edns0_of_def)
  obtain i where "IsEdns0 L a = Some i" using assms(5) by auto
  from padAnswer_block [OF assms(1-3) this assms(6)] answer_padding_cases [OF refl]
  show "\<exists>a'. padAnswer L q a = Some a' \<and> unpadded_len L a \<le> Msg_Len L a' \<and> Msg_Len L a' \<le> unpadded_len L a + 468 \<and>
       (if Msg_Len L a' < unat (OPT_UDPSize L opt) then 468 dvd Msg_Len L a'
        else Msg_Len L a' = unat (OPT_UDPSize L opt) \<or> unat (OPT_UDPSize L opt) < unpadded_len L a \<and> Msg_Len L a' = unpadded_len L a)"
    by fastforce
qed

text \<open>A library whose lengths grow with the padding.\<close>

definition ref_opt_len :: "EDNS0 \<Rightarrow> nat" where
  "ref_opt_len opt = 4 + (case opt of EDNS0_PADDING p \<Rightarrow> length p | _ \<Rightarrow> 0)"

definition ref_rr_len :: "RR \<Rightarrow> nat" where
  "ref_rr_len r = 11 + (case rr_Data r of OPT opts \<Rightarrow> sum_list (map ref_opt_len opts) | _ \<Rightarrow> 0)"

definition ref_len_lib :: dnslib where
  "ref_len_lib = ref_lib\<lparr>Msg_Len := (\<lambda>m. 12 + sum_list (map ref_rr_len (m_Extra m)))\<rparr>"

lemma ref_len_lib_simps [simp]:
  "IsEdns0 ref_len_lib m = ref_last_opt 0 (m_Extra m)" "SetEdns0 ref_len_lib = SetEdns0 ref_lib"
  "Option_code ref_len_lib = ref_code" "Msg_Len ref_len_lib m = 12 + sum_list (map ref_rr_len (m_Extra m))"
  "OPT_UDPSize ref_len_lib r = h_Class (rr_Hdr r)"
  by (simp_all add: ref_len_lib_def ref_lib_def)

lemma ref_len_lib_laws [simp]:
  "IsEdns0_law ref_len_lib" "IsEdns0_types_law ref_len_lib" "SetEdns0_law ref_len_lib" "Padding_law ref_len_lib"
proof -
  have eq: "IsEdns0 ref_len_lib = IsEdns0 ref_lib" by (simp add: fun_eq_iff ref_lib_def)
  show "IsEdns0_law ref_len_lib" using ref_lib_laws(1) unfolding IsEdns0_law_def eq .
  show "IsEdns0_types_law ref_len_lib" using ref_lib_types_law(1) unfolding IsEdns0_types_law_def eq .
  show "SetEdns0_law ref_len_lib" using ref_lib_SetEdns0_law(2) unfolding SetEdns0_law_def eq by simp
  show "Padding_law ref_len_lib"
    by (auto simp: Padding_law_def with_options_def upd_conv_take_nth_drop ref_rr_len_def ref_opt_len_def)
qed

definition ref_edns_query :: Msg where
  "ref_edns_query = (ref_query ''a.'' 1)\<lparr>m_Extra := [ref_opt 1232]\<rparr>"

theorem padding_lengths_witness:
  "(\<exists>q'. padQuery ref_len_lib ref_edns_query = Some q' \<and> 128 dvd Msg_Len ref_len_lib q') \<and>
   (\<exists>a'. padAnswer ref_len_lib ref_edns_query ref_edns_query = Some a' \<and> Msg_Len ref_len_lib a' = 468)"
proof -
  have q: "edns0_of ref_len_lib ref_edns_query = Some (ref_opt 1232)" "edns0_options ref_len_lib ref_edns_query = []"
    "IsEdns0 ref_len_lib ref_edns_query \<noteq> None"
    by (simp_all add: edns0_of_def edns0_options_def ref_edns_query_def)
  have "map_option (Msg_Len ref_len_lib) (padAnswer ref_len_lib ref_edns_query ref_edns_query) = Some 468"
    by (simp add: padAnswer_def q Let_def with_options_def ref_edns_query_def ensure_padding_def write_padding_def
        ref_rr_len_def ref_opt_len_def answer_padding_def ref_opt_def edns0_of_def is_opt_def)
  with padding_lengths [of ref_len_lib ref_edns_query "ref_opt 1232" ref_edns_query] q show ?thesis
    by (auto simp: padding_typed_def)
qed

text \<open>
  C34: a padding option set by the EDNS0 modifier crashes padding. \<^verbatim>\<open>EDNS0ModifierAdd\<close> with the code of
  padding adds an option of another Go type than padding expects, so that padding the query for an
  encrypted transport panics.
\<close>

theorem padQuery_after_modifier_panics:
  assumes "IsEdns0_law L" "IsEdns0_types_law L" "SetEdns0_law L" "Padding_law L"
  shows "padQuery L (EDNS0ModifierAdd L EDNS0PADDING data q ci) = None"
proof -
  let ?q = "EDNS0ModifierAdd L EDNS0PADDING data q ci"
  have opts: "EDNS0_LOCAL EDNS0PADDING data \<in> set (edns0_options L ?q)"
    using replace_options [OF assms(1-3)] by (simp add: EDNS0ModifierAdd_def EDNS0ModifierDelete_def)
  show ?thesis
  proof (cases "IsEdns0 L ?q")
    case None
    with opts show ?thesis by (simp add: edns0_options_def edns0_of_def)
  next
    case (Some i)
    with opts have "EDNS0_LOCAL EDNS0PADDING data \<in> set (opt_Option (rr_Data (m_Extra ?q ! i)))"
      by (simp add: edns0_options_def edns0_of_def)
    from clear_padding_None [OF this, of L] assms(4) Some show ?thesis by (simp add: padQuery_def Padding_law_def)
  qed
qed

theorem padQuery_after_modifier_panics_witness:
  "padQuery ref_len_lib (EDNS0ModifierAdd ref_len_lib EDNS0PADDING [1, 2] ref_edns_query ref_client) = None"
  using padQuery_after_modifier_panics [of ref_len_lib] by simp

end
