(* ===== verification/Rewriting.thy ===== *)
theory Rewriting
  imports Blocklists
begin

text \<open>
  The small resolvers that rewrite queries or responses: \<^verbatim>\<open>replace.go\<close>, \<^verbatim>\<open>response-collapse.go\<close>,
  \<^verbatim>\<open>response-minimize.go\<close>, \<^verbatim>\<open>truncate-retry.go\<close>, \<^verbatim>\<open>static.go\<close> and \<^verbatim>\<open>drop.go\<close>.
\<close>

section \<open>Replace\<close>

text \<open>\<open>ReplaceAllString\<close> is the method of the compiled expression.\<close>

record replaceExp =
  xe_from :: Regexp
  xe_to :: string

record 'w Replace =
  xr_resolver :: "'w resolver"
  xr_exp :: "replaceExp list"

definition replace_apply :: "(Regexp \<Rightarrow> string \<Rightarrow> string \<Rightarrow> string) \<Rightarrow> replaceExp list \<Rightarrow> string \<Rightarrow> string" where
  "replace_apply ReplaceAllString exps name = fold (\<lambda>e name. ReplaceAllString (xe_from e) name (xe_to e)) exps name"

fun compile_exps :: "regexp_Compile \<Rightarrow> (string \<times> string) list \<Rightarrow> go_error + replaceExp list" where
  "compile_exps Compile [] = Inr []"
| "compile_exps Compile ((from', to') # ops) =
     (case Compile from' of
        None \<Rightarrow> Inl (ErrOther from')
      | Some re \<Rightarrow> (case compile_exps Compile ops of Inl err \<Rightarrow> Inl err | Inr es \<Rightarrow> Inr (\<lparr>xe_from = re, xe_to = to'\<rparr> # es)))"

definition NewReplace :: "regexp_Compile \<Rightarrow> 'w resolver \<Rightarrow> (string \<times> string) list \<Rightarrow> go_error + 'w Replace" where
  "NewReplace Compile resolver list =
     (case compile_exps Compile list of Inl err \<Rightarrow> Inl err | Inr es \<Rightarrow> Inr \<lparr>xr_resolver = resolver, xr_exp = es\<rparr>)"

text \<open>A write to the name of the first question.\<close>

definition set_qname :: "string \<Rightarrow> Msg \<Rightarrow> Msg" where
  "set_qname name m = (case m_Question m of [] \<Rightarrow> m | question # qs \<Rightarrow> m\<lparr>m_Question := question\<lparr>q_Name := name\<rparr> # qs\<rparr>)"

definition Replace_Resolve ::
  "(Regexp \<Rightarrow> string \<Rightarrow> string \<Rightarrow> string) \<Rightarrow> 'w Replace \<Rightarrow> Msg \<Rightarrow> ClientInfo \<Rightarrow> 'w \<Rightarrow> reply \<times> 'w" where
  "Replace_Resolve ReplaceAllString r q ci w =
     (case m_Question q of
        [] \<Rightarrow> (panic, w)
      | question # _ \<Rightarrow>
          (let oldName = q_Name question; newName = replace_apply ReplaceAllString (xr_exp r) oldName
           in if newName = oldName then r_Resolve (xr_resolver r) q ci w
              else case r_Resolve (xr_resolver r) (set_qname newName q) ci w of
                     ((Some a, None), w') \<Rightarrow>
                       ((Some ((set_qname oldName a)\<lparr>m_Answer :=
                          map (\<lambda>rr. if rr_Name rr = newName then set_Name oldName rr else rr) (m_Answer a)\<rparr>), None), w')
                   | ((_, err), w') \<Rightarrow> ((None, err), w')))"

section \<open>Responses\<close>

record 'w ResponseCollapse =
  co_resolver :: "'w resolver"
  co_NullRCode :: int

definition NewResponseCollapse :: "'w resolver \<Rightarrow> int \<Rightarrow> 'w ResponseCollapse" where
  "NewResponseCollapse resolver nullRCode = \<lparr>co_resolver = resolver, co_NullRCode = nullRCode\<rparr>"

definition ResponseCollapse_Resolve :: "dnslib \<Rightarrow> 'w ResponseCollapse \<Rightarrow> Msg \<Rightarrow> ClientInfo \<Rightarrow> 'w \<Rightarrow> reply \<times> 'w" where
  "ResponseCollapse_Resolve L r q ci w =
     (case r_Resolve (co_resolver r) q ci w of
        ((Some answer, None), w') \<Rightarrow>
          (if m_Rcode answer \<noteq> RcodeSuccess then ((Some answer, None), w')
           else case m_Question q of
                  [] \<Rightarrow> (panic, w')
                | question # _ \<Rightarrow>
                    (let aRR = map (set_Name (q_Name question))
                           (filter (\<lambda>rr. rr_Rrtype rr = q_Qtype question \<and> rr_Class rr = q_Qclass question) (m_Answer answer))
                     in if aRR = [] then ((Some (responseWithCode L q (co_NullRCode r)), None), w')
                        else ((Some (answer\<lparr>m_Answer := aRR\<rparr>), None), w')))
      | (ae, w') \<Rightarrow> (ae, w'))"

record 'w ResponseMinimize =
  mi_resolver :: "'w resolver"

definition NewResponseMinimize :: "'w resolver \<Rightarrow> 'w ResponseMinimize" where
  "NewResponseMinimize resolver = \<lparr>mi_resolver = resolver\<rparr>"

definition ResponseMinimize_Resolve :: "'w ResponseMinimize \<Rightarrow> Msg \<Rightarrow> ClientInfo \<Rightarrow> 'w \<Rightarrow> reply \<times> 'w" where
  "ResponseMinimize_Resolve r q ci w =
     (case r_Resolve (mi_resolver r) q ci w of
        ((Some answer, None), w') \<Rightarrow> ((Some (answer\<lparr>m_Extra := [], m_Ns := []\<rparr>), None), w')
      | (ae, w') \<Rightarrow> (ae, w'))"

record 'w TruncateRetry =
  tr_resolver :: "'w resolver"
  tr_retryResolver :: "'w resolver"

definition NewTruncateRetry :: "'w resolver \<Rightarrow> 'w resolver \<Rightarrow> 'w TruncateRetry" where
  "NewTruncateRetry resolver retryResolver = \<lparr>tr_resolver = resolver, tr_retryResolver = retryResolver\<rparr>"

definition TruncateRetry_Resolve :: "'w TruncateRetry \<Rightarrow> Msg \<Rightarrow> ClientInfo \<Rightarrow> 'w \<Rightarrow> reply \<times> 'w" where
  "TruncateRetry_Resolve r q ci w =
     (case r_Resolve (tr_resolver r) q ci w of
        ((Some a, None), w') \<Rightarrow> if m_Truncated a then r_Resolve (tr_retryResolver r) q ci w' else ((Some a, None), w')
      | (ae, w') \<Rightarrow> (ae, w'))"

section \<open>Fixed responses\<close>

definition DropResolver_Resolve :: "Msg \<Rightarrow> ClientInfo \<Rightarrow> 'w \<Rightarrow> reply \<times> 'w" where
  "DropResolver_Resolve q ci w = ((None, None), w)"

text \<open>
  \<^verbatim>\<open>dns.NewRR\<close> returns a nil record and no error for a text without a record. A record of the resolver
  may therefore be nil, here \<open>None\<close>; copying a nil record panics.
\<close>

record StaticResolver =
  st_answer :: "RR option list"
  st_ns :: "RR option list"
  st_extra :: "RR option list"
  st_rcode :: int
  st_truncate :: bool
  st_EDNS0EDETemplate :: "EDNS0EDETemplate option"

record StaticResolverOptions =
  so_Answer :: "string list"
  so_NS :: "string list"
  so_Extra :: "string list"
  so_RCode :: int
  so_Truncate :: bool
  so_EDNS0EDETemplate :: "EDNS0EDETemplate option"

definition parse_records :: "dnslib \<Rightarrow> string list \<Rightarrow> RR option list option" where
  "parse_records L records = those (map (NewRR L) records)"

definition NewStaticResolver :: "dnslib \<Rightarrow> StaticResolverOptions \<Rightarrow> go_error + StaticResolver" where
  "NewStaticResolver L opt =
     (case (parse_records L (so_Answer opt), parse_records L (so_NS opt), parse_records L (so_Extra opt)) of
        (Some answer, Some ns, Some extra) \<Rightarrow>
          Inr \<lparr>st_answer = answer, st_ns = ns, st_extra = extra, st_rcode = so_RCode opt, st_truncate = so_Truncate opt,
               st_EDNS0EDETemplate = so_EDNS0EDETemplate opt\<rparr>
      | _ \<Rightarrow> Inl (ErrOther ''record''))"

definition StaticResolver_Resolve :: "dnslib \<Rightarrow> StaticResolver \<Rightarrow> Msg \<Rightarrow> ClientInfo \<Rightarrow> 'w \<Rightarrow> reply \<times> 'w" where
  "StaticResolver_Resolve L r q ci w =
     (case (those (st_answer r), those (st_ns r), those (st_extra r)) of
        (Some answer, Some ns, Some extra) \<Rightarrow>
          (let a = (SetReply L new_Msg q)\<lparr>m_RecursionAvailable := True, m_Authoritative := True,
                     m_Answer := map (set_Name (qName q)) (copyRRs answer), m_Ns := copyRRs ns, m_Extra := copyRRs extra,
                     m_Rcode := st_rcode r, m_Truncated := st_truncate r\<rparr>
           in ((Some (fst (EDE_Apply L (st_EDNS0EDETemplate r) a q None)), None), w))
      | _ \<Rightarrow> (panic, w))"

section \<open>Names that stay inside\<close>

text \<open>
  The name a query was rewritten to does not reach the client: the question of the answer is the one
  of the client again, and no answer record has the rewritten name.
\<close>

lemma Replace_restores:
  assumes "m_Question q = question # qs" "replace_apply R (xr_exp r) (q_Name question) = newName" "newName \<noteq> q_Name question"
    and "Replace_Resolve R r q ci w = ((Some a, None), w')" "m_Question a \<noteq> []"
  shows "qName a = q_Name question" "rr \<in> set (m_Answer a) \<Longrightarrow> rr_Name rr \<noteq> newName"
proof -
  obtain u where u: "a = (set_qname (q_Name question) u)\<lparr>m_Answer :=
      map (\<lambda>rr. if rr_Name rr = newName then set_Name (q_Name question) rr else rr) (m_Answer u)\<rparr>"
    using assms(1-4) by (auto simp: Replace_Resolve_def Let_def split: prod.splits option.splits if_splits)
  then show "qName a = q_Name question" using assms(5) by (auto simp: set_qname_def qName_def split: list.splits)
  show "rr_Name rr \<noteq> newName" if "rr \<in> set (m_Answer a)" using that u assms(3) by auto
qed

text \<open>A collapsed answer holds only records of the type and class asked for, under the name asked for.\<close>

lemma ResponseCollapse_only:
  assumes "SetReply_law L" "SetRcode_law L" "m_Question q = question # qs"
    and "ResponseCollapse_Resolve L r q ci w = ((Some a, None), w')" "m_Rcode a = RcodeSuccess" "rr \<in> set (m_Answer a)"
  shows "rr_Rrtype rr = q_Qtype question \<and> rr_Class rr = q_Qclass question \<and> rr_Name rr = q_Name question"
  using assms responseWithCode_reply [OF assms(1,2)]
  by (auto simp: ResponseCollapse_Resolve_def Let_def set_Name_def split: prod.splits option.splits if_splits)

text \<open>
  A configured text without a record is accepted, and every query then panics.
\<close>

lemma Static_nil_record:
  assumes "text' \<in> set (so_Answer opt)" "NewRR L text' = Some None" "NewStaticResolver L opt = Inr r"
  shows "fst (StaticResolver_Resolve L r q ci w) = panic"
proof -
  have none: "those xs = None" if "None \<in> set xs" for xs :: "RR option list"
    using that by (induction xs) (auto split: option.splits)
  have "None \<in> set rs" if "those (map f xs) = Some rs" "x \<in> set xs" "f x = Some None" for f :: "string \<Rightarrow> RR option option" and xs x rs
    using that by (induction xs arbitrary: rs) (auto split: option.splits)
  then have "None \<in> set (st_answer r)"
    using assms by (auto simp: NewStaticResolver_def parse_records_def split: option.splits)
  then show ?thesis using none by (simp add: StaticResolver_Resolve_def)
qed

end
