(* ===== verification/TtlModifier.thy ===== *)
theory TtlModifier
  imports RefLib
begin

text \<open>
  \<^verbatim>\<open>ttl-modifier.go\<close>: a resolver that rewrites the TTLs of a response, first with one of several
  selection functions, then to stay within limits. The functions work on the records of all sections
  except OPT records, whose TTL field is not a TTL.
\<close>

section \<open>Walking over the headers\<close>

text \<open>
  \<^verbatim>\<open>iterateOverAnswerRRHeader\<close> calls a closure with a pointer to each header. The closures of this file
  read and write the TTL and some variables of the caller: they are functions from the TTL and the
  variables to the new TTL and the new variables.
\<close>

fun iterate_rrs :: "(u32 \<Rightarrow> 's \<Rightarrow> u32 \<times> 's) \<Rightarrow> RR list \<Rightarrow> 's \<Rightarrow> RR list \<times> 's" where
  "iterate_rrs f [] s = ([], s)"
| "iterate_rrs f (rr # rrs) s =
     (if is_opt rr then (case iterate_rrs f rrs s of (rrs', s') \<Rightarrow> (rr # rrs', s'))
      else case f (rr_Ttl rr) s of
             (ttl, s1) \<Rightarrow> (case iterate_rrs f rrs s1 of (rrs', s2) \<Rightarrow> (set_Ttl ttl rr # rrs', s2)))"

definition iterateOverAnswerRRHeader :: "Msg \<Rightarrow> (u32 \<Rightarrow> 's \<Rightarrow> u32 \<times> 's) \<Rightarrow> 's \<Rightarrow> Msg \<times> 's" where
  "iterateOverAnswerRRHeader a f s =
     (case iterate_rrs f (m_Answer a) s of
        (answer, s1) \<Rightarrow>
          (case iterate_rrs f (m_Ns a) s1 of
             (ns, s2) \<Rightarrow>
               (case iterate_rrs f (m_Extra a) s2 of
                  (extra, s3) \<Rightarrow> (a\<lparr>m_Answer := answer, m_Ns := ns, m_Extra := extra\<rparr>, s3))))"

text \<open>The second walk of most selection functions: every TTL becomes the same.\<close>

definition write_all :: "u32 \<Rightarrow> Msg \<Rightarrow> Msg \<times> bool" where
  "write_all value a = iterateOverAnswerRRHeader a (\<lambda>ttl modified. (value, modified \<or> ttl \<noteq> value)) False"

section \<open>Selection functions\<close>

text \<open>A selection function gets the modifier, of which it reads the limits, and the response.\<close>

type_synonym TTLSelectFunc = "u32 \<Rightarrow> u32 \<Rightarrow> Msg \<Rightarrow> Msg \<times> bool"

definition TTLSelectLowest :: TTLSelectFunc where
  "TTLSelectLowest minTTL' maxTTL' a =
     (case iterateOverAnswerRRHeader a (\<lambda>ttl lowest. (ttl, if ttl < lowest then ttl else lowest)) MaxUint32 of
        (a1, lowest) \<Rightarrow> write_all lowest a1)"

definition TTLSelectHighest :: TTLSelectFunc where
  "TTLSelectHighest minTTL' maxTTL' a =
     (case iterateOverAnswerRRHeader a (\<lambda>ttl highest. (ttl, if highest < ttl then ttl else highest)) 0 of
        (a1, highest) \<Rightarrow> write_all highest a1)"

text \<open>The sum is a 64-bit integer in the source; a message holds too few records for it to overflow.\<close>

definition TTLSelectAverage :: TTLSelectFunc where
  "TTLSelectAverage minTTL' maxTTL' a =
     (case iterateOverAnswerRRHeader a (\<lambda>ttl (n, s). (ttl, (Suc n, s + unat ttl))) (0, 0) of
        (a1, (n, s)) \<Rightarrow> write_all (of_nat (s div (if n = 0 then 1 else n))) a1)"

definition TTLSelectFirst :: TTLSelectFunc where
  "TTLSelectFirst minTTL' maxTTL' a =
     (case iterateOverAnswerRRHeader a (\<lambda>ttl (first, gotFirst). (ttl, if gotFirst then (first, gotFirst) else (ttl, True))) (0, False) of
        (a1, (first, gotFirst)) \<Rightarrow> write_all first a1)"

definition TTLSelectLast :: TTLSelectFunc where
  "TTLSelectLast minTTL' maxTTL' a =
     (case iterateOverAnswerRRHeader a (\<lambda>ttl last'. (ttl, ttl)) 0 of (a1, last') \<Rightarrow> write_all last' a1)"

text \<open>\<open>Intn n\<close> is the random number below \<open>n\<close> drawn for the response.\<close>

definition TTLSelectRandom :: "(nat \<Rightarrow> nat) \<Rightarrow> TTLSelectFunc" where
  "TTLSelectRandom Intn minTTL' maxTTL' a =
     (let value = (if minTTL' < maxTTL' then minTTL' + of_nat (Intn (unat (maxTTL' - minTTL'))) else minTTL')
      in (fst (iterateOverAnswerRRHeader a (\<lambda>ttl s. (value, s)) ()), True))"

section \<open>The resolver\<close>

record 'w TTLModifier =
  tm_SelectFunc :: "TTLSelectFunc option"
  tm_MinTTL :: u32
  tm_MaxTTL :: u32
  tm_resolver :: "'w resolver"

definition NewTTLModifier :: "'w resolver \<Rightarrow> TTLSelectFunc option \<Rightarrow> u32 \<Rightarrow> u32 \<Rightarrow> 'w TTLModifier" where
  "NewTTLModifier resolver select minTTL' maxTTL' =
     \<lparr>tm_SelectFunc = select, tm_MinTTL = minTTL', tm_MaxTTL = (if maxTTL' = 0 then MaxUint32 else maxTTL'), tm_resolver = resolver\<rparr>"

definition clamp :: "u32 \<Rightarrow> u32 \<Rightarrow> u32 \<Rightarrow> bool \<Rightarrow> u32 \<times> bool" where
  "clamp minTTL' maxTTL' ttl modified =
     (let (ttl1, modified1) = (if ttl < minTTL' then (minTTL', True) else (ttl, modified))
      in if maxTTL' < ttl1 then (maxTTL', True) else (ttl1, modified1))"

definition TTLModifier_Resolve :: "'w TTLModifier \<Rightarrow> Msg \<Rightarrow> ClientInfo \<Rightarrow> 'w \<Rightarrow> reply \<times> 'w" where
  "TTLModifier_Resolve r q ci w =
     (case r_Resolve (tm_resolver r) q ci w of
        ((Some a, None), w') \<Rightarrow>
          (let (a1, modified) = (case tm_SelectFunc r of None \<Rightarrow> (a, False) | Some f \<Rightarrow> f (tm_MinTTL r) (tm_MaxTTL r) a);
               (a2, modified2) = iterateOverAnswerRRHeader a1 (clamp (tm_MinTTL r) (tm_MaxTTL r)) modified
           in ((Some a2, None), w'))
      | (ae, w') \<Rightarrow> (ae, w'))"

section \<open>What a walk does\<close>

text \<open>Two lists of records that differ in the TTLs of records that are not OPT, and in nothing else.\<close>

definition same_but_ttl :: "RR \<Rightarrow> RR \<Rightarrow> bool" where
  "same_but_ttl x y \<longleftrightarrow> (if is_opt x then y = x else \<exists>t. y = set_Ttl t x)"

definition ttls_rewritten :: "Msg \<Rightarrow> Msg \<Rightarrow> bool" where
  "ttls_rewritten a b \<longleftrightarrow>
     b = a\<lparr>m_Answer := m_Answer b, m_Ns := m_Ns b, m_Extra := m_Extra b\<rparr> \<and> list_all2 same_but_ttl (m_Answer a) (m_Answer b) \<and>
     list_all2 same_but_ttl (m_Ns a) (m_Ns b) \<and> list_all2 same_but_ttl (m_Extra a) (m_Extra b)"

lemma same_but_ttl_trans: "same_but_ttl x y \<Longrightarrow> same_but_ttl y z \<Longrightarrow> same_but_ttl x z"
  by (auto simp: same_but_ttl_def split: if_splits)

lemma same_but_ttl_refl [simp]: "same_but_ttl x x"
  unfolding same_but_ttl_def by (auto intro: exI [of _ "rr_Ttl x"])

lemma ttls_rewritten_refl: "ttls_rewritten a a"
  by (simp add: ttls_rewritten_def list.rel_refl)

lemma ttls_rewritten_trans: "ttls_rewritten a b \<Longrightarrow> ttls_rewritten b c \<Longrightarrow> ttls_rewritten a c"
  unfolding ttls_rewritten_def using list_all2_trans [of same_but_ttl, OF same_but_ttl_trans]
  by (cases a, cases b, cases c) auto

lemma iterate_rrs_same: "iterate_rrs f rrs s = (rrs', s') \<Longrightarrow> list_all2 same_but_ttl rrs rrs'"
  by (induction f rrs s arbitrary: rrs' s' rule: iterate_rrs.induct)
     (auto simp: same_but_ttl_def split: if_splits prod.splits)

lemma iterate_same: "iterateOverAnswerRRHeader a f s = (b, s') \<Longrightarrow> ttls_rewritten a b"
  by (auto simp: ttls_rewritten_def iterateOverAnswerRRHeader_def dest: iterate_rrs_same split: prod.splits)

text \<open>A TTL written by the closure satisfies what the closure ensures.\<close>

lemma iterate_rrs_all:
  "(\<And>t s. P (fst (f t s))) \<Longrightarrow> iterate_rrs f rrs s = (rrs', s') \<Longrightarrow> rr \<in> set rrs' \<Longrightarrow> is_opt rr \<or> P (rr_Ttl rr)"
proof (induction f rrs s arbitrary: rrs' s' rule: iterate_rrs.induct)
  case (2 f x rrs s)
  obtain t s1 where t: "f (rr_Ttl x) s = (t, s1)" by fastforce
  with 2(3) [of "rr_Ttl x" s] have "P t" by simp
  with 2 t show ?case by (fastforce split: if_splits prod.splits)
qed simp

lemma iterate_all:
  assumes "\<And>t s. P (fst (f t s))" "iterateOverAnswerRRHeader a f s = (b, s')" "rr \<in> set (data_rrs b)"
  shows "P (rr_Ttl rr)"
  using assms(2,3)
  by (auto simp: iterateOverAnswerRRHeader_def data_rrs_def all_rrs_def split: prod.splits
      dest!: iterate_rrs_all [of P f, OF assms(1)])

lemma clamp_bounds:
  "fst (clamp lo hi t m) \<le> hi \<and> (lo \<le> hi \<longrightarrow> lo \<le> fst (clamp lo hi t m)) \<and>
   (lo \<le> t \<and> t \<le> hi \<longrightarrow> fst (clamp lo hi t m) = t)"
  by (auto simp: clamp_def)

text \<open>The selection functions of the source.\<close>

definition select_funcs :: "TTLSelectFunc set" where
  "select_funcs = {TTLSelectLowest, TTLSelectHighest, TTLSelectAverage, TTLSelectFirst, TTLSelectLast} \<union> range TTLSelectRandom"

lemma write_all_same: "write_all v a = (b, m) \<Longrightarrow> ttls_rewritten a b"
  unfolding write_all_def by (rule iterate_same)

text \<open>The shape of a selection function: read all TTLs, then write the same one everywhere.\<close>

lemma read_write_same: "ttls_rewritten a (fst (write_all v (fst (iterateOverAnswerRRHeader a g s))))"
  using ttls_rewritten_trans [OF iterate_same [OF surjective_pairing] write_all_same [OF surjective_pairing]] .

lemma select_same: "f \<in> select_funcs \<Longrightarrow> ttls_rewritten a (fst (f lo hi a))"
  using iterate_same [OF surjective_pairing]
  by (auto simp: select_funcs_def TTLSelectLowest_def TTLSelectHighest_def TTLSelectFirst_def TTLSelectLast_def
      TTLSelectAverage_def TTLSelectRandom_def Let_def split_def read_write_same)

text \<open>
  C31: the TTLs of a modified response are within the configured limits. Whatever selection function
  is configured, no record but OPT has a TTL above the maximum, none has one below the minimum unless
  the maximum is lower still, a maximum of 0 is no limit, and nothing of the response has changed
  but TTLs.
\<close>

theorem TTLModifier_bounds:
  assumes "r_Resolve up q ci w = ((Some a, None), w')" "f = None \<or> (\<exists>g \<in> select_funcs. f = Some g)"
  shows "\<exists>b. TTLModifier_Resolve (NewTTLModifier up f lo hi) q ci w = ((Some b, None), w') \<and> ttls_rewritten a b \<and>
    (\<forall>rr \<in> set (data_rrs b). (hi \<noteq> 0 \<longrightarrow> rr_Ttl rr \<le> hi) \<and> (hi = 0 \<or> lo \<le> hi \<longrightarrow> lo \<le> rr_Ttl rr))"
proof -
  let ?hi = "if hi = 0 then MaxUint32 else hi"
  obtain a1 m where a1: "(case f of None \<Rightarrow> (a, False) | Some f \<Rightarrow> f lo ?hi a) = (a1, m)" by fastforce
  obtain b m' where b: "iterateOverAnswerRRHeader a1 (clamp lo ?hi) m = (b, m')" by fastforce
  have "ttls_rewritten a a1"
    using assms(2) a1 ttls_rewritten_refl [of a] by (auto simp del: if_split) (metis select_same fst_conv)
  then have "ttls_rewritten a b" using iterate_same [OF b] ttls_rewritten_trans by blast
  moreover have "rr_Ttl rr \<le> ?hi \<and> (lo \<le> ?hi \<longrightarrow> lo \<le> rr_Ttl rr)" if "rr \<in> set (data_rrs b)" for rr
    using iterate_all [where P = "\<lambda>t. t \<le> ?hi \<and> (lo \<le> ?hi \<longrightarrow> lo \<le> t)", OF _ b that] clamp_bounds by blast
  ultimately show ?thesis
    using a1 b assms(1) by (intro exI [of _ b]) (auto simp: TTLModifier_Resolve_def NewTTLModifier_def split: if_splits cong: option.case_cong)
qed

theorem TTLModifier_bounds_witness:
  "\<exists>b. TTLModifier_Resolve (NewTTLModifier (ref_serving [ref_rr ''a.'' 1 5 (A [1]), ref_rr ''a.'' 1 900 (A [2])]) (Some TTLSelectHighest) 10 300)
         (ref_query ''a.'' 1) ref_client () = ((Some b, None), ()) \<and>
     (\<forall>rr \<in> set (data_rrs b). ((300 :: u32) \<noteq> 0 \<longrightarrow> rr_Ttl rr \<le> 300) \<and> ((300 :: u32) = 0 \<or> (10 :: u32) \<le> 300 \<longrightarrow> 10 \<le> rr_Ttl rr))"
  using TTLModifier_bounds [OF ref_serving_simps(2), of "Some TTLSelectHighest"] by (fastforce simp: select_funcs_def)

text \<open>
  The lowest TTL is the lowest: after \<^verbatim>\<open>TTLSelectLowest\<close> every record has the smallest TTL any of
  them had.
\<close>

lemma iterate_rrs_read:
  "iterate_rrs (\<lambda>t s. (t, g t s)) rrs s = (rrs, fold (\<lambda>rr s. if is_opt rr then s else g (rr_Ttl rr) s) rrs s)"
  by (induction rrs arbitrary: s) auto

lemma iterate_read:
  "iterateOverAnswerRRHeader a (\<lambda>t s. (t, g t s)) s = (a, fold (\<lambda>rr s. if is_opt rr then s else g (rr_Ttl rr) s) (all_rrs a) s)"
  by (simp add: iterateOverAnswerRRHeader_def iterate_rrs_read all_rrs_def)

lemma Min_insert_min: "finite X \<Longrightarrow> Min (insert s (insert t X)) = Min (insert (min t s) X)" for s :: u32
  by (cases "X = {}") (simp_all add: min.left_commute min.commute)

lemma fold_lowest:
  "fold (\<lambda>rr (s :: u32). if is_opt rr then s else if rr_Ttl rr < s then rr_Ttl rr else s) rrs s =
   Min (insert s (rr_Ttl ` set (filter (\<lambda>r. \<not> is_opt r) rrs)))"
proof (induction rrs arbitrary: s)
  case (Cons rr rrs)
  have "(if rr_Ttl rr < s then rr_Ttl rr else s) = min (rr_Ttl rr) s" by (auto simp: min_def)
  with Cons show ?case by (simp add: Min_insert_min [symmetric])
qed simp

lemma TTLSelectLowest_lowest:
  assumes "TTLSelectLowest lo hi a = (b, m)" "rr \<in> set (data_rrs b)"
  shows "rr_Ttl rr = Min (insert MaxUint32 (rr_Ttl ` set (data_rrs a)))"
proof -
  let ?v = "Min (insert MaxUint32 (rr_Ttl ` set (data_rrs a)))"
  have "TTLSelectLowest lo hi a = write_all ?v a"
    by (simp add: TTLSelectLowest_def iterate_read fold_lowest data_rrs_def)
  with assms(1) have "iterateOverAnswerRRHeader a (\<lambda>ttl modified. (?v, modified \<or> ttl \<noteq> ?v)) False = (b, m)"
    by (simp add: write_all_def)
  from iterate_all [where P = "\<lambda>t. t = ?v", OF _ this assms(2)] show ?thesis by simp
qed

end
