(* ===== verification/RateLimit.thy ===== *)
theory RateLimit
  imports RefLib "HOL-Library.Signed_Division"
begin

text \<open>
  \<^verbatim>\<open>rate-limiter.go\<close>: a resolver that forwards a limited number of queries per client network and time
  window. The time of a query, in seconds, is an argument.
\<close>

section \<open>The resolver\<close>

record rateLimiterMetrics =
  rm_query :: nat
  rm_exceed :: nat
  rm_drop :: nat

record 'w RateLimiter =
  rl_resolver :: "'w resolver"
  rl_Requests :: u64
  rl_Window :: u64
  rl_Prefix4 :: u8
  rl_Prefix6 :: u8
  rl_LimitResolver :: "'w resolver option"
  rl_currWinID :: int
  rl_counters :: "(string, u64) gomap option"
  rl_metrics :: rateLimiterMetrics

definition NewRateLimiter :: "'w resolver \<Rightarrow> u64 \<Rightarrow> u64 \<Rightarrow> u8 \<Rightarrow> u8 \<Rightarrow> 'w resolver option \<Rightarrow> 'w RateLimiter" where
  "NewRateLimiter resolver requests window prefix4 prefix6 limitResolver =
     \<lparr>rl_resolver = resolver, rl_Requests = requests,
      rl_Window = (if window = 0 then 60 else window),
      rl_Prefix4 = (if prefix4 = 0 then 24 else prefix4),
      rl_Prefix6 = (if prefix6 = 0 then 56 else prefix6),
      rl_LimitResolver = limitResolver, rl_currWinID = 0, rl_counters = None,
      rl_metrics = \<lparr>rm_query = 0, rm_exceed = 0, rm_drop = 0\<rparr>\<rparr>"

text \<open>The key of a client is its printed network.\<close>

definition client_key :: "'w RateLimiter \<Rightarrow> IP \<Rightarrow> string" where
  "client_key r source =
     IP_String (if length (To4 source) = 4 then Mask source (CIDRMask (uint (rl_Prefix4 r)) 32)
                else Mask source (CIDRMask (uint (rl_Prefix6 r)) 128))"

definition window_of :: "'w RateLimiter \<Rightarrow> int \<Rightarrow> int" where
  "window_of r now = now sdiv sint (rl_Window r)"

text \<open>
  The section under the lock: move on to the current window, then count the request. It says whether
  to reject; \<open>None\<close> is the panic of a write to a nil map.
\<close>

definition next_window :: "int \<Rightarrow> 'w RateLimiter \<Rightarrow> 'w RateLimiter" where
  "next_window windowID r =
     (if windowID \<noteq> rl_currWinID r then r\<lparr>rl_currWinID := windowID, rl_counters := Some []\<rparr> else r)"

definition count_request :: "string \<Rightarrow> 'w RateLimiter \<Rightarrow> (bool \<times> 'w RateLimiter) option" where
  "count_request key r =
     (case rl_counters r of
        None \<Rightarrow> None
      | Some counters \<Rightarrow>
          (let v = (case map_of counters key of None \<Rightarrow> 0 | Some v \<Rightarrow> v)
           in Some (rl_Requests r \<le> v, r\<lparr>rl_counters := Some (AList.update key (v + 1) counters)\<rparr>)))"

definition RateLimiter_Resolve ::
  "'w RateLimiter \<Rightarrow> int \<Rightarrow> Msg \<Rightarrow> ClientInfo \<Rightarrow> 'w \<Rightarrow> reply \<times> 'w RateLimiter \<times> 'w" where
  "RateLimiter_Resolve r0 now q ci w =
     (let r = r0\<lparr>rl_metrics := (rl_metrics r0)\<lparr>rm_query := Suc (rm_query (rl_metrics r0))\<rparr>\<rparr>
      in case count_request (client_key r (ci_SourceIP ci)) (next_window (window_of r now) r) of
           None \<Rightarrow> (panic, next_window (window_of r now) r, w)
         | Some (True, r1) \<Rightarrow>
             (let r2 = r1\<lparr>rl_metrics := (rl_metrics r1)\<lparr>rm_exceed := Suc (rm_exceed (rl_metrics r1))\<rparr>\<rparr>
              in case rl_LimitResolver r2 of
                   Some limit \<Rightarrow> (case r_Resolve limit q ci w of (ae, w') \<Rightarrow> (ae, r2, w'))
                 | None \<Rightarrow> ((None, None), r2\<lparr>rl_metrics := (rl_metrics r2)\<lparr>rm_drop := Suc (rm_drop (rl_metrics r2))\<rparr>\<rparr>, w))
         | Some (False, r1) \<Rightarrow> (case r_Resolve (rl_resolver r1) q ci w of (ae, w') \<Rightarrow> (ae, r1, w')))"

text \<open>A run of queries, each with its time.\<close>

fun RateLimiter_run :: "'w RateLimiter \<Rightarrow> (int \<times> Msg \<times> ClientInfo) list \<Rightarrow> 'w \<Rightarrow> 'w RateLimiter \<times> 'w" where
  "RateLimiter_run r [] w = (r, w)"
| "RateLimiter_run r ((now, q, ci) # evs) w =
     (case RateLimiter_Resolve r now q ci w of (_, r', w') \<Rightarrow> RateLimiter_run r' evs w')"

section \<open>Exactly the limit\<close>

lemma RateLimiter_run_snoc:
  "RateLimiter_run r (evs @ [(now, q, ci)]) w =
     (case RateLimiter_run r evs w of (r', w') \<Rightarrow> (case RateLimiter_Resolve r' now q ci w' of (_, r'', w'') \<Rightarrow> (r'', w'')))"
  by (induction r evs w rule: RateLimiter_run.induct) (auto split: prod.splits)

text \<open>The configuration, which no operation changes, and what depends on it only.\<close>

definition same_limits :: "'w RateLimiter \<Rightarrow> 'w RateLimiter \<Rightarrow> bool" where
  "same_limits r r' \<longleftrightarrow> rl_resolver r' = rl_resolver r \<and> rl_Requests r' = rl_Requests r \<and> rl_Window r' = rl_Window r \<and>
     rl_Prefix4 r' = rl_Prefix4 r \<and> rl_Prefix6 r' = rl_Prefix6 r \<and> rl_LimitResolver r' = rl_LimitResolver r"

lemma same_limits_simps:
  "same_limits r r' \<Longrightarrow> client_key r' ip = client_key r ip" "same_limits r r' \<Longrightarrow> window_of r' t = window_of r t"
  by (simp_all add: same_limits_def client_key_def window_of_def)

text \<open>The number of queries of a client network in a window.\<close>

definition requests :: "'w RateLimiter \<Rightarrow> (int \<times> Msg \<times> ClientInfo) list \<Rightarrow> int \<Rightarrow> string \<Rightarrow> nat" where
  "requests r evs windowID key =
     length (filter (\<lambda>(now, q, ci). window_of r now = windowID \<and> client_key r (ci_SourceIP ci) = key) evs)"

lemma requests_snoc:
  "requests r (evs @ [(now, q, ci)]) windowID key =
     requests r evs windowID key + (if window_of r now = windowID \<and> client_key r (ci_SourceIP ci) = key then 1 else 0)"
  by (simp add: requests_def)

text \<open>After a run the counters are those of the current window, which is the window of the last query.\<close>

definition counters_hold :: "'w RateLimiter \<Rightarrow> (int \<times> Msg \<times> ClientInfo) list \<Rightarrow> 'w RateLimiter \<Rightarrow> bool" where
  "counters_hold r evs r' \<longleftrightarrow>
     (\<exists>counters. rl_counters r' = Some counters \<and>
        (\<forall>key. (case map_of counters key of None \<Rightarrow> 0 | Some v \<Rightarrow> v) = of_nat (requests r evs (rl_currWinID r') key)))"

definition counts :: "'w RateLimiter \<Rightarrow> (int \<times> Msg \<times> ClientInfo) list \<Rightarrow> 'w RateLimiter \<Rightarrow> bool" where
  "counts r evs r' \<longleftrightarrow> same_limits r r' \<and>
     (if evs = [] then rl_currWinID r' = 0 else rl_currWinID r' = window_of r (fst (last evs)) \<and> counters_hold r evs r')"

definition times_ok :: "'w RateLimiter \<Rightarrow> int list \<Rightarrow> bool" where
  "times_ok r ts \<longleftrightarrow> sorted ts \<and> 0 < sint (rl_Window r) \<and> (\<forall>t \<in> set ts. sint (rl_Window r) \<le> t)"

lemma window_of_div: "times_ok r ts \<Longrightarrow> t \<in> set ts \<Longrightarrow> window_of r t = t div sint (rl_Window r)"
  by (auto simp: times_ok_def window_of_def signed_divide_int_def)

lemma window_of_pos: "times_ok r ts \<Longrightarrow> t \<in> set ts \<Longrightarrow> window_of r t \<noteq> 0"
proof -
  assume ok: "times_ok r ts" "t \<in> set ts"
  then have "0 < t div sint (rl_Window r)" by (simp add: times_ok_def pos_imp_zdiv_pos_iff)
  then show ?thesis using window_of_div [OF ok] by simp
qed

text \<open>A window that is over does not come back.\<close>

lemma requests_new_window:
  assumes "times_ok r (map fst evs @ [now])" "evs \<noteq> []" "window_of r now \<noteq> window_of r (fst (last evs))"
  shows "requests r evs (window_of r now) key = 0"
proof -
  have "window_of r (fst e) \<noteq> window_of r now" if e: "e \<in> set evs" for e
  proof -
    have "fst e \<le> fst (last evs)" "fst (last evs) \<le> now"
      using assms(1,2) e by (cases evs rule: rev_cases; auto simp: times_ok_def sorted_append)+
    then have "fst e div sint (rl_Window r) \<le> fst (last evs) div sint (rl_Window r)"
      "fst (last evs) div sint (rl_Window r) \<le> now div sint (rl_Window r)"
      using assms(1) by (simp_all add: times_ok_def zdiv_mono1)
    moreover have "fst e \<in> set (map fst evs @ [now])" "fst (last evs) \<in> set (map fst evs @ [now])" "now \<in> set (map fst evs @ [now])"
      using e assms(2) by auto
    ultimately show ?thesis using assms(3) window_of_div [OF assms(1)] by auto
  qed
  then show ?thesis by (auto simp: requests_def filter_empty_conv)
qed

lemma same_limits_refl [simp]: "same_limits r r"
  by (simp add: same_limits_def)

lemma next_window_counts:
  assumes "counts r evs r'" "times_ok r (map fst evs @ [now])"
  defines "r1 \<equiv> next_window (window_of r now) r'"
  shows "same_limits r r1" "rl_currWinID r1 = window_of r now" "counters_hold r evs r1"
proof -
  show "same_limits r r1" "rl_currWinID r1 = window_of r now"
    using assms(1) by (auto simp: r1_def next_window_def same_limits_def counts_def)
  show "counters_hold r evs r1"
  proof (cases "evs = [] \<or> window_of r now \<noteq> rl_currWinID r'")
    case True
    then have "window_of r now \<noteq> rl_currWinID r'"
      using assms(1) window_of_pos [OF assms(2), of now] by (auto simp: counts_def)
    moreover have "requests r evs (window_of r now) key = 0" for key
      using True requests_new_window [OF assms(2)] assms(1) by (cases "evs = []") (auto simp: counts_def requests_def)
    ultimately show ?thesis by (simp add: r1_def next_window_def counters_hold_def)
  qed (use assms(1) in \<open>auto simp: r1_def next_window_def counts_def counters_hold_def\<close>)
qed

lemma count_request_counts:
  assumes "same_limits r r1" "rl_currWinID r1 = window_of r now" "counters_hold r evs r1" "length evs < 2 ^ 64"
  shows "\<exists>r2. count_request (client_key r (ci_SourceIP ci)) r1 =
      Some (unat (rl_Requests r) \<le> requests r evs (window_of r now) (client_key r (ci_SourceIP ci)), r2) \<and>
      (\<forall>m. counts r (evs @ [(now, q, ci)]) (r2\<lparr>rl_metrics := m\<rparr>))"
proof -
  define key where "key = client_key r (ci_SourceIP ci)"
  define n where "n = requests r evs (window_of r now) key"
  obtain counters where c: "rl_counters r1 = Some counters"
    "\<And>key. (case map_of counters key of None \<Rightarrow> 0 | Some v \<Rightarrow> v) = of_nat (requests r evs (window_of r now) key)"
    using assms(2,3) by (auto simp: counters_hold_def)
  have "n \<le> length evs" by (simp add: n_def requests_def)
  then have "unat (of_nat n :: u64) = n" using assms(4) by (simp add: unat_of_nat)
  then have reject: "rl_Requests r \<le> of_nat n \<longleftrightarrow> unat (rl_Requests r) \<le> n" by (simp add: word_le_nat_alt)
  define r2 where "r2 = r1\<lparr>rl_counters := Some (AList.update key (of_nat n + 1) counters)\<rparr>"
  have "count_request key r1 = Some (unat (rl_Requests r) \<le> n, r2)"
    using c assms(1) reject by (simp add: count_request_def r2_def n_def same_limits_def)
  moreover have "counts r (evs @ [(now, q, ci)]) (r2\<lparr>rl_metrics := m\<rparr>)" for m
    using assms(1,2) c(2) by (auto simp: counts_def counters_hold_def r2_def same_limits_def requests_snoc update_conv' n_def key_def)
  ultimately show ?thesis by (auto simp: key_def n_def)
qed

text \<open>What a query does, given that the counters are those of the queries before.\<close>

definition limited_reply ::
  "'w RateLimiter \<Rightarrow> bool \<Rightarrow> Msg \<Rightarrow> ClientInfo \<Rightarrow> 'w \<Rightarrow> reply \<times> 'w" where
  "limited_reply r reject q ci w =
     (if \<not> reject then r_Resolve (rl_resolver r) q ci w
      else case rl_LimitResolver r of Some limit \<Rightarrow> r_Resolve limit q ci w | None \<Rightarrow> ((None, None), w))"

lemma RateLimiter_Resolve_counts:
  assumes "counts r evs r'" "times_ok r (map fst evs @ [now])" "length evs < 2 ^ 64"
  shows "\<exists>r''. counts r (evs @ [(now, q, ci)]) r'' \<and>
    RateLimiter_Resolve r' now q ci w =
      (case limited_reply r (unat (rl_Requests r) \<le> requests r evs (window_of r now) (client_key r (ci_SourceIP ci))) q ci w of
         (ae, w') \<Rightarrow> (ae, r'', w'))"
proof -
  define r0 where "r0 = r'\<lparr>rl_metrics := (rl_metrics r')\<lparr>rm_query := Suc (rm_query (rl_metrics r'))\<rparr>\<rparr>"
  have r0: "counts r evs r0" using assms(1) by (auto simp: counts_def counters_hold_def r0_def same_limits_def split: if_splits)
  then have keys: "client_key r0 ip = client_key r ip" "window_of r0 t = window_of r t" for ip t
    using same_limits_simps [of r r0] by (simp_all add: counts_def)
  note r1 = next_window_counts [OF r0 assms(2)]
  obtain reject r2 where r2: "count_request (client_key r (ci_SourceIP ci)) (next_window (window_of r now) r0) = Some (reject, r2)"
    "reject \<longleftrightarrow> unat (rl_Requests r) \<le> requests r evs (window_of r now) (client_key r (ci_SourceIP ci))"
    "\<And>m. counts r (evs @ [(now, q, ci)]) (r2\<lparr>rl_metrics := m\<rparr>)"
    using count_request_counts [OF r1 assms(3), of ci q] by blast
  from r2(3) [of "rl_metrics r2"] have "same_limits r r2" "counts r (evs @ [(now, q, ci)]) r2" by (simp_all add: counts_def)
  then show ?thesis using r2 keys
    by (cases reject; cases "rl_LimitResolver r")
       (auto simp: RateLimiter_Resolve_def Let_def r0_def [symmetric] limited_reply_def same_limits_def split: prod.splits)
qed

lemma RateLimiter_run_counts:
  "times_ok r (map fst evs) \<Longrightarrow> length evs \<le> 2 ^ 64 \<Longrightarrow> rl_currWinID r = 0 \<Longrightarrow> counts r evs (fst (RateLimiter_run r evs w))"
proof (induction evs rule: rev_induct)
  case (snoc e evs)
  obtain now q ci where e: "e = (now, q, ci)" by (cases e)
  obtain r' w' where run: "RateLimiter_run r evs w = (r', w')" by fastforce
  have "times_ok r (map fst evs)" using snoc.prems(1) by (auto simp: times_ok_def sorted_append)
  with snoc run have "counts r evs r'" by simp
  with RateLimiter_Resolve_counts [OF this, of now q ci w'] snoc.prems obtain r'' ae w'' where
    "counts r (evs @ [(now, q, ci)]) r''" "RateLimiter_Resolve r' now q ci w' = (ae, r'', w'')"
    by (fastforce simp: e split: prod.splits)
  then show ?case by (simp add: e RateLimiter_run_snoc run)
qed (simp add: counts_def)

text \<open>
  C29: the rate limiter forwards exactly the configured number of queries. In any run of queries with
  ascending times a query is forwarded to the upstream resolver if fewer than the configured number
  of queries of its client network came before it in the same window; otherwise it goes to the
  alternate resolver, or is dropped when there is none. The resolver never panics there.
\<close>

theorem RateLimiter_exact:
  assumes "r = NewRateLimiter up requests' window prefix4 prefix6 limit" "RateLimiter_run r evs w = (r', w')"
    and "sorted (map fst evs @ [now])" "\<forall>t \<in> set (map fst evs @ [now]). sint (rl_Window r) \<le> t" "0 < sint (rl_Window r)"
    and "length evs < 2 ^ 64"
  shows "\<exists>r''. RateLimiter_Resolve r' now q ci w' =
     (if requests r evs (window_of r now) (client_key r (ci_SourceIP ci)) < unat requests'
      then case r_Resolve up q ci w' of (ae, w'') \<Rightarrow> (ae, r'', w'')
      else case limit of
             Some l \<Rightarrow> (case r_Resolve l q ci w' of (ae, w'') \<Rightarrow> (ae, r'', w''))
           | None \<Rightarrow> ((None, None), r'', w'))"
proof -
  have ok: "times_ok r (map fst evs @ [now])" using assms(3-5) by (simp add: times_ok_def)
  then have "times_ok r (map fst evs)" by (auto simp: times_ok_def sorted_append)
  with assms(1,2,6) have "counts r evs r'" using RateLimiter_run_counts [of r evs w] by (simp add: NewRateLimiter_def)
  from RateLimiter_Resolve_counts [OF this ok assms(6), of q ci w'] assms(1) show ?thesis
    by (auto simp: limited_reply_def NewRateLimiter_def not_le split: option.splits prod.splits)
qed

definition ref_limiter :: "unit RateLimiter" where
  "ref_limiter = NewRateLimiter (ref_answering ''up'') 1 60 0 0 None"

theorem RateLimiter_exact_witness:
  "\<exists>r1 r2. RateLimiter_Resolve (fst (RateLimiter_run ref_limiter [(100, ref_query ''a.'' 1, ref_client)] ())) 110
       (ref_query ''b.'' 1) (ref_client\<lparr>ci_SourceIP := [192, 0, 2, 9]\<rparr>) () = ((None, None), r1, ()) \<and>
     RateLimiter_Resolve (fst (RateLimiter_run ref_limiter [(100, ref_query ''a.'' 1, ref_client)] ())) 120
       (ref_query ''b.'' 1) ref_client () = ((Some (ref_SetReply new_Msg (ref_query ''b.'' 1)), None), r2, ())"
proof -
  have n: "requests ref_limiter [(100, ref_query ''a.'' 1, ref_client)] (window_of ref_limiter 110)
      (client_key ref_limiter [192, 0, 2, 9]) = 1"
    "requests ref_limiter [(100, ref_query ''a.'' 1, ref_client)] (window_of ref_limiter 120)
      (client_key ref_limiter (ci_SourceIP ref_client)) = 0" by code_simp+
  have w: "sint (rl_Window ref_limiter) = 60" by (simp add: ref_limiter_def NewRateLimiter_def)
  note run = surjective_pairing [of "RateLimiter_run ref_limiter [(100, ref_query ''a.'' 1, ref_client)] ()"]
  from RateLimiter_exact [OF ref_limiter_def run, of 110 "ref_query ''b.'' 1" "ref_client\<lparr>ci_SourceIP := [192, 0, 2, 9]\<rparr>"]
    RateLimiter_exact [OF ref_limiter_def run, of 120 "ref_query ''b.'' 1" ref_client] n w
  show ?thesis by simp
qed

text \<open>
  In window 0 there are no counters to write to: a new limiter panics on its first query when the
  clock shows less than one window.
\<close>

lemma RateLimiter_window_0:
  "window_of (NewRateLimiter up n window p4 p6 limit) now = 0 \<Longrightarrow>
   fst (RateLimiter_Resolve (NewRateLimiter up n window p4 p6 limit) now q ci w) = panic"
  by (simp add: RateLimiter_Resolve_def NewRateLimiter_def window_of_def next_window_def count_request_def)

end
