(* ===== verification/Dns64.thy ===== *)
theory Dns64
  imports IpDB
begin

text \<open>
  \<^verbatim>\<open>dns64.go\<close>: AAAA records for IPv6-only clients, made from A records by embedding the IPv4 address in
  a configured IPv6 prefix (RFC 6147, RFC 6052).
\<close>

section \<open>Prefixes and addresses\<close>

record dns64Prefix =
  dp_ip :: IP
  dp_prefixLen :: nat

definition validLengths :: "nat list" where
  "validLengths = [32, 40, 48, 56, 64, 96]"

definition parse_prefix :: "string \<Rightarrow> go_error + dns64Prefix" where
  "parse_prefix s =
     (case ParseCIDR s of
        None \<Rightarrow> Inl (ErrOther s)
      | Some (_, ipNet) \<Rightarrow>
          (case MaskSize (n_Mask ipNet) of
             (ones, bits) \<Rightarrow>
               if bits \<noteq> 128 \<or> ones \<notin> set validLengths then Inl (ErrOther s)
               else Inr \<lparr>dp_ip = To16 (n_IP ipNet), dp_prefixLen = ones\<rparr>))"

fun parseDNS64Prefixes :: "string list \<Rightarrow> go_error + dns64Prefix list" where
  "parseDNS64Prefixes [] = Inr []"
| "parseDNS64Prefixes (s # ss) =
     (case parse_prefix s of
        Inl err \<Rightarrow> Inl err
      | Inr p \<Rightarrow> (case parseDNS64Prefixes ss of Inl err \<Rightarrow> Inl err | Inr ps \<Rightarrow> Inr (p # ps)))"

text \<open>\<^verbatim>\<open>copy(ipv6, prefix.ip)\<close> into sixteen zero bytes, and the assignments of a \<^verbatim>\<open>case\<close>.\<close>

definition copy16 :: "IP \<Rightarrow> IP" where
  "copy16 ip = take 16 ip @ replicate (16 - length ip) 0"

fun put_bytes :: "(nat \<times> u8) list \<Rightarrow> IP \<Rightarrow> IP" where
  "put_bytes [] ip = ip"
| "put_bytes ((i, b) # bs) ip = put_bytes bs (ip[i := b])"

definition synthesizeIPv6 :: "dns64Prefix \<Rightarrow> IP \<Rightarrow> IP option" where
  "synthesizeIPv6 prefix ip =
     (let ipv6 = copy16 (dp_ip prefix)
      in if dp_prefixLen prefix \<notin> set validLengths then Some ipv6
         else case To4 ip of
                [a, b, c, d] \<Rightarrow>
                  Some (put_bytes
                    (if dp_prefixLen prefix = 96 then [(12, a), (13, b), (14, c), (15, d)]
                     else if dp_prefixLen prefix = 64 then [(8, 0), (9, a), (10, b), (11, c), (12, d)]
                     else if dp_prefixLen prefix = 56 then [(7, a), (8, 0), (9, b), (10, c), (11, d)]
                     else if dp_prefixLen prefix = 48 then [(6, a), (7, b), (8, 0), (9, c), (10, d)]
                     else if dp_prefixLen prefix = 40 then [(5, a), (6, b), (7, c), (8, 0), (9, d)]
                     else [(4, a), (5, b), (6, c), (7, d), (8, 0)]) ipv6)
              | _ \<Rightarrow> None)"

section \<open>The resolver\<close>

record dns64Metrics =
  d6_query :: nat
  d6_synth :: nat
  d6_passthru :: nat
  d6_err :: nat

record 'w DNS64 =
  d6_resolver :: "'w resolver"
  d6_prefixes :: "dns64Prefix list"
  d6_metrics :: dns64Metrics

definition NewDNS64 :: "'w resolver \<Rightarrow> string list \<Rightarrow> go_error + 'w DNS64" where
  "NewDNS64 resolver opt =
     (case parseDNS64Prefixes (if opt = [] then [''64:ff9b::/96''] else opt) of
        Inl err \<Rightarrow> Inl err
      | Inr prefixes \<Rightarrow>
          Inr \<lparr>d6_resolver = resolver, d6_prefixes = prefixes,
               d6_metrics = \<lparr>d6_query = 0, d6_synth = 0, d6_passthru = 0, d6_err = 0\<rparr>\<rparr>)"

definition hasAAAARecords :: "Msg \<Rightarrow> bool" where
  "hasAAAARecords msg \<longleftrightarrow> (\<exists>rr \<in> set (m_Answer msg). rr_Rrtype rr = TypeAAAA)"

text \<open>The records made of one A record, one for each prefix.\<close>

definition synth_records :: "dns64Prefix list \<Rightarrow> Question \<Rightarrow> RR \<Rightarrow> RR list option" where
  "synth_records prefixes question rec =
     (case rr_Data rec of
        A ip \<Rightarrow>
          (if To4 ip = [] then Some []
           else those (map (\<lambda>prefix. map_option (\<lambda>ipv6.
                  \<lparr>rr_Hdr = \<lparr>h_Name = q_Name question, h_Rrtype = TypeAAAA, h_Class = q_Qclass question, h_Ttl = rr_Ttl rec\<rparr>,
                   rr_Data = AAAA ipv6\<rparr>) (synthesizeIPv6 prefix (To4 ip))) prefixes))
      | _ \<Rightarrow> Some [])"

definition synthesizeAAAA :: "'w DNS64 \<Rightarrow> Msg \<Rightarrow> Question \<Rightarrow> RR list option" where
  "synthesizeAAAA r aAnswer question =
     (case those (map (synth_records (d6_prefixes r) question) (m_Answer aAnswer)) of
        None \<Rightarrow> None
      | Some rrs \<Rightarrow>
          (let cnames = filter (\<lambda>rr. is_CNAME (rr_Data rr)) (m_Answer aAnswer); aaaa = concat rrs
           in Some (if aaaa = [] then [] else cnames @ aaaa)))"

definition count_query :: "'w DNS64 \<Rightarrow> 'w DNS64" where
  "count_query r = r\<lparr>d6_metrics := (d6_metrics r)\<lparr>d6_query := Suc (d6_query (d6_metrics r))\<rparr>\<rparr>"

definition count_synth :: "'w DNS64 \<Rightarrow> 'w DNS64" where
  "count_synth r = r\<lparr>d6_metrics := (d6_metrics r)\<lparr>d6_synth := Suc (d6_synth (d6_metrics r))\<rparr>\<rparr>"

definition count_passthru :: "'w DNS64 \<Rightarrow> 'w DNS64" where
  "count_passthru r = r\<lparr>d6_metrics := (d6_metrics r)\<lparr>d6_passthru := Suc (d6_passthru (d6_metrics r))\<rparr>\<rparr>"

definition count_err :: "'w DNS64 \<Rightarrow> 'w DNS64" where
  "count_err r = r\<lparr>d6_metrics := (d6_metrics r)\<lparr>d6_err := Suc (d6_err (d6_metrics r))\<rparr>\<rparr>"

definition a_query :: "Msg \<Rightarrow> Msg" where
  "a_query q = (case m_Question q of [] \<Rightarrow> q | question # qs \<Rightarrow> q\<lparr>m_Question := question\<lparr>q_Qtype := TypeA\<rparr> # qs\<rparr>)"

text \<open>The second half of \<^verbatim>\<open>Resolve\<close>: ask for A records and synthesize.\<close>

definition DNS64_fallback ::
  "dnslib \<Rightarrow> 'w DNS64 \<Rightarrow> Question \<Rightarrow> Msg \<Rightarrow> Msg \<Rightarrow> ClientInfo \<Rightarrow> 'w \<Rightarrow> reply \<times> 'w DNS64 \<times> 'w" where
  "DNS64_fallback L r question q answer ci w =
     (case r_Resolve (d6_resolver r) (a_query q) ci w of
        ((_, Some err), w') \<Rightarrow> ((Some answer, None), count_err r, w')
      | ((None, None), w') \<Rightarrow> ((Some answer, None), count_passthru r, w')
      | ((Some aAnswer, None), w') \<Rightarrow>
          if m_Rcode aAnswer \<noteq> RcodeSuccess then ((Some answer, None), count_passthru r, w')
          else case synthesizeAAAA r aAnswer question of
                 None \<Rightarrow> (panic, r, w')
               | Some [] \<Rightarrow> ((Some answer, None), count_passthru r, w')
               | Some synthesized \<Rightarrow>
                   ((Some ((SetReply L new_Msg q)\<lparr>m_RecursionAvailable := m_RecursionAvailable answer,
                       m_Answer := synthesized, m_Ns := m_Ns aAnswer, m_Extra := m_Extra aAnswer\<rparr>), None),
                    count_synth r, w'))"

definition DNS64_Resolve :: "dnslib \<Rightarrow> 'w DNS64 \<Rightarrow> Msg \<Rightarrow> ClientInfo \<Rightarrow> 'w \<Rightarrow> reply \<times> 'w DNS64 \<times> 'w" where
  "DNS64_Resolve L r q ci w =
     (case m_Question q of
        [] \<Rightarrow> (panic, r, w)
      | question # _ \<Rightarrow>
          if q_Qtype question \<noteq> TypeAAAA \<or> (case edns0_of L q of None \<Rightarrow> False | Some edns0 \<Rightarrow> OPT_Do L edns0)
          then (case r_Resolve (d6_resolver r) q ci w of (ae, w') \<Rightarrow> (ae, count_passthru r, w'))
          else case r_Resolve (d6_resolver r) q ci w of
                 ((answer, Some err), w') \<Rightarrow> ((answer, Some err), count_err (count_query r), w')
               | ((None, None), w') \<Rightarrow> ((None, None), count_query r, w')
               | ((Some answer, None), w') \<Rightarrow>
                   if m_Rcode answer \<noteq> RcodeSuccess \<or> hasAAAARecords answer
                   then ((Some answer, None), count_passthru (count_query r), w')
                   else DNS64_fallback L (count_query r) question q answer ci w')"

section \<open>Embedding and extraction\<close>

text \<open>
  RFC 6052, section 2.2: where the bytes of the IPv4 address are in an address with a prefix of the
  given length, skipping byte 8.
\<close>

definition embedded_at :: "nat \<Rightarrow> nat list" where
  "embedded_at n = take 4 (filter (\<lambda>i. i \<noteq> 8 \<or> n = 96) [n div 8..<16])"

definition extract4 :: "nat \<Rightarrow> IP \<Rightarrow> IP" where
  "extract4 n ip = map (\<lambda>i. ip ! i) (embedded_at n)"

definition prefix_ok :: "dns64Prefix \<Rightarrow> bool" where
  "prefix_ok p \<longleftrightarrow> length (dp_ip p) = 16 \<and> dp_prefixLen p \<in> set validLengths"

lemma length_4: "length xs = 4 \<longleftrightarrow> (\<exists>a b c d. xs = [a, b, c, d])"
  by (auto simp: numeral_eq_Suc length_Suc_conv)

lemma length_put_bytes [simp]: "length (put_bytes bs ip) = length ip"
  by (induction bs ip rule: put_bytes.induct) auto

lemma synthesizeIPv6_embeds:
  assumes "prefix_ok p" "length (To4 ip) = 4"
  shows "\<exists>ipv6. synthesizeIPv6 p ip = Some ipv6 \<and> length ipv6 = 16 \<and>
    take (dp_prefixLen p div 8) ipv6 = take (dp_prefixLen p div 8) (dp_ip p) \<and>
    (dp_prefixLen p \<noteq> 96 \<longrightarrow> ipv6 ! 8 = 0) \<and> extract4 (dp_prefixLen p) ipv6 = To4 ip"
proof -
  obtain a b c d where 4: "To4 ip = [a, b, c, d]" using assms(2) by (auto simp: length_4)
  have len: "length (dp_ip p) = 16" and n: "dp_prefixLen p \<in> {32, 40, 48, 56, 64, 96}"
    using assms(1) by (auto simp: prefix_ok_def validLengths_def)
  from len have "copy16 (dp_ip p) = dp_ip p" by (simp add: copy16_def)
  moreover have "embedded_at 32 = [4, 5, 6, 7]" "embedded_at 40 = [5, 6, 7, 9]" "embedded_at 48 = [6, 7, 9, 10]"
    "embedded_at 56 = [7, 9, 10, 11]" "embedded_at 64 = [9, 10, 11, 12]" "embedded_at 96 = [12, 13, 14, 15]" by code_simp+
  ultimately show ?thesis
    using n len 4 by (auto simp: synthesizeIPv6_def validLengths_def extract4_def)
qed

lemma parse_prefix_ok: "parse_prefix s = Inr p \<Longrightarrow> prefix_ok p"
proof -
  assume parse: "parse_prefix s = Inr p"
  then obtain ip n ones where p: "ParseCIDR s = Some (ip, n)" "MaskSize (n_Mask n) = (ones, 128)" "ones \<in> set validLengths"
    "p = \<lparr>dp_ip = To16 (n_IP n), dp_prefixLen = ones\<rparr>"
    by (auto simp: parse_prefix_def split: option.splits prod.splits if_splits)
  obtain addr b m where b: "ParseAddr addr = Some b" "n_IP n = Mask (To16 b) m" "n_Mask n = m" "m = [] \<or> length m = length b"
    using p(1) by (auto simp: ParseCIDR_def Let_def CIDRMask_def split: option.splits if_splits prod.splits)
  with p(2) have "length m = 16" by (auto simp: MaskSize_def split: option.splits)
  with b ParseAddr_length [OF b(1)] have "length (n_IP n) = 16" by (auto simp: Mask_def To16_def Let_def)
  then show ?thesis using p(3,4) by (simp add: prefix_ok_def To16_def)
qed

lemma parseDNS64Prefixes_ok:
  "parseDNS64Prefixes ss = Inr ps \<Longrightarrow> length ps = length ss \<and> (\<forall>p \<in> set ps. prefix_ok p)"
  by (induction ss arbitrary: ps) (auto simp: parse_prefix_ok split: sum.splits)

text \<open>A record that embeds the address of an A record in a prefix.\<close>

definition embeds :: "Question \<Rightarrow> RR \<times> dns64Prefix \<Rightarrow> RR \<Rightarrow> bool" where
  "embeds question rp rr \<longleftrightarrow>
     (case rp of (rec, p) \<Rightarrow> \<exists>ipv6. rr_Data rr = AAAA ipv6 \<and> length ipv6 = 16 \<and>
        take (dp_prefixLen p div 8) ipv6 = take (dp_prefixLen p div 8) (dp_ip p) \<and>
        (dp_prefixLen p \<noteq> 96 \<longrightarrow> ipv6 ! 8 = 0) \<and> extract4 (dp_prefixLen p) ipv6 = To4 (rd_A (rr_Data rec)) \<and>
        rr_Rrtype rr = TypeAAAA \<and> rr_Name rr = q_Name question \<and> rr_Ttl rr = rr_Ttl rec)"

definition usable_A :: "RR \<Rightarrow> bool" where
  "usable_A rr \<longleftrightarrow> (case rr_Data rr of A ip \<Rightarrow> To4 ip \<noteq> [] | _ \<Rightarrow> False)"

lemma those_embeds:
  "\<forall>p \<in> set ps. \<exists>rr. f p = Some rr \<and> embeds question (rec, p) rr \<Longrightarrow>
   \<exists>rrs. those (map f ps) = Some rrs \<and> list_all2 (embeds question) (map (Pair rec) ps) rrs"
  by (induction ps) auto

lemma synth_records_embed:
  assumes "\<forall>p \<in> set ps. prefix_ok p"
  shows "\<exists>rrs. synth_records ps question rec = Some rrs \<and>
    list_all2 (embeds question) (if usable_A rec then map (Pair rec) ps else []) rrs"
proof (cases "usable_A rec")
  case True
  then obtain ip where ip: "rr_Data rec = A ip" "length (To4 ip) = 4"
    using length_To4 by (fastforce simp: usable_A_def split: rdata.splits)
  have "\<forall>p \<in> set ps. \<exists>rr. map_option (\<lambda>ipv6.
                  \<lparr>rr_Hdr = \<lparr>h_Name = q_Name question, h_Rrtype = TypeAAAA, h_Class = q_Qclass question, h_Ttl = rr_Ttl rec\<rparr>,
                   rr_Data = AAAA ipv6\<rparr>) (synthesizeIPv6 p (To4 ip)) = Some rr \<and> embeds question (rec, p) rr"
    using synthesizeIPv6_embeds [of _ "To4 ip"] assms ip by (fastforce simp: embeds_def)
  from those_embeds [OF this] show ?thesis using True ip by (auto simp: synth_records_def)
qed (auto simp: synth_records_def usable_A_def split: rdata.splits)

lemma synthesize_all_embed:
  assumes "\<forall>p \<in> set ps. prefix_ok p"
  shows "\<exists>rrs. those (map (synth_records ps question) answers) = Some rrs \<and>
    list_all2 (embeds question) (List.product (filter usable_A answers) ps) (concat rrs)"
proof (induction answers)
  case (Cons rec answers)
  with synth_records_embed [OF assms, of question rec] show ?case
    by (auto intro!: list_all2_appendI split: if_splits)
qed simp

text \<open>
  C30: synthesized answers hold exactly the addresses of the A response. When the upstream resolver has
  no AAAA records for an AAAA query that does not ask for DNSSEC, and has A records, the answer holds
  the CNAME records and then, for every usable A record and every configured prefix in turn, one AAAA
  record for the queried name with the TTL of the A record, whose address starts with the prefix and
  from which the extraction of RFC 6052 gives back the IPv4 address.
\<close>

theorem DNS64_synthesizes:
  assumes "SetReply_law L" "parseDNS64Prefixes ss = Inr (d6_prefixes r)" "ss \<noteq> []"
    and "m_Question q = question # qs" "q_Qtype question = TypeAAAA" "edns0_of L q = None"
    and "r_Resolve (d6_resolver r) q ci w = ((Some u, None), w1)" "m_Rcode u = RcodeSuccess" "\<not> hasAAAARecords u"
    and "r_Resolve (d6_resolver r) (a_query q) ci w1 = ((Some aAnswer, None), w2)" "m_Rcode aAnswer = RcodeSuccess"
    and "\<exists>rr \<in> set (m_Answer aAnswer). usable_A rr"
  shows "\<exists>a r' aaaa. DNS64_Resolve L r q ci w = ((Some a, None), r', w2) \<and> m_Id a = m_Id q \<and> m_Rcode a = RcodeSuccess \<and>
    m_Answer a = filter (\<lambda>rr. is_CNAME (rr_Data rr)) (m_Answer aAnswer) @ aaaa \<and>
    list_all2 (embeds question) (List.product (filter usable_A (m_Answer aAnswer)) (d6_prefixes r)) aaaa"
proof -
  have ps: "\<forall>p \<in> set (d6_prefixes r). prefix_ok p" "d6_prefixes r \<noteq> []"
    using parseDNS64Prefixes_ok [OF assms(2)] assms(3) by auto
  from synthesize_all_embed [OF ps(1), of question "m_Answer aAnswer"] obtain rrs where
    rrs: "those (map (synth_records (d6_prefixes r) question) (m_Answer aAnswer)) = Some rrs"
    "list_all2 (embeds question) (List.product (filter usable_A (m_Answer aAnswer)) (d6_prefixes r)) (concat rrs)" by blast
  have "filter usable_A (m_Answer aAnswer) \<noteq> []" using assms(12) by (auto simp: filter_empty_conv)
  then have "length (List.product (filter usable_A (m_Answer aAnswer)) (d6_prefixes r)) \<noteq> 0"
    using ps(2) by (simp add: length_product)
  then have "concat rrs \<noteq> []" using rrs(2) by (metis list_all2_Nil2 list.size(3))
  then obtain x xs where syn: "synthesizeAAAA (count_query r) aAnswer question = Some (x # xs)"
    "x # xs = filter (\<lambda>rr. is_CNAME (rr_Data rr)) (m_Answer aAnswer) @ concat rrs"
    using rrs(1) by (cases "filter (\<lambda>rr. is_CNAME (rr_Data rr)) (m_Answer aAnswer) @ concat rrs")
      (auto simp: synthesizeAAAA_def count_query_def Let_def)
  have "d6_resolver (count_query r) = d6_resolver r" by (simp add: count_query_def)
  then have "DNS64_Resolve L r q ci w = ((Some ((SetReply L new_Msg q)\<lparr>m_RecursionAvailable := m_RecursionAvailable u,
      m_Answer := x # xs, m_Ns := m_Ns aAnswer, m_Extra := m_Extra aAnswer\<rparr>), None), count_synth (count_query r), w2)"
    using assms(4-11) syn(1) by (simp add: DNS64_Resolve_def DNS64_fallback_def)
  then show ?thesis using rrs(2) syn(2) assms(1) by (auto simp: SetReply_law_def)
qed

definition ref_v4only :: "unit resolver" where
  "ref_v4only = \<lparr>r_String = ''v4'', r_Resolve = (\<lambda>q ci w.
     ((Some (ref_reply q (if map q_Qtype (m_Question q) = [1] then [ref_rr ''a.'' 1 60 (A [192, 0, 2, 33])] else [])), None), w))\<rparr>"

definition ref_dns64 :: "unit DNS64" where
  "ref_dns64 = \<lparr>d6_resolver = ref_v4only, d6_prefixes = [\<lparr>dp_ip = [0, 0x64, 0xff, 0x9b, 0, 0, 0, 0, 0, 0, 0, 0, 0, 0, 0, 0], dp_prefixLen = 96\<rparr>],
     d6_metrics = \<lparr>d6_query = 0, d6_synth = 0, d6_passthru = 0, d6_err = 0\<rparr>\<rparr>"

theorem DNS64_synthesizes_witness:
  "\<exists>a r' rr. DNS64_Resolve ref_lib ref_dns64 (ref_query ''a.'' TypeAAAA) ref_client () = ((Some a, None), r', ()) \<and> m_Answer a = [rr] \<and>
     embeds \<lparr>q_Name = ''a.'', q_Qtype = TypeAAAA, q_Qclass = 1\<rparr>
       (ref_rr ''a.'' 1 60 (A [192, 0, 2, 33]), \<lparr>dp_ip = [0, 0x64, 0xff, 0x9b, 0, 0, 0, 0, 0, 0, 0, 0, 0, 0, 0, 0], dp_prefixLen = 96\<rparr>) rr"
proof -
  let ?q = "ref_query ''a.'' TypeAAAA" and ?rr = "ref_rr ''a.'' 1 60 (A [192, 0, 2, 33])"
  have "parseDNS64Prefixes [''64:ff9b::/96''] = Inr (d6_prefixes ref_dns64)" by code_simp
  moreover have "edns0_of ref_lib ?q = None"
    by (simp add: edns0_of_def ref_lib_def ref_query_def new_Msg_def)
  moreover have "r_Resolve (d6_resolver ref_dns64) ?q ref_client () = ((Some (ref_reply ?q []), None), ())"
    "r_Resolve (d6_resolver ref_dns64) (a_query ?q) ref_client () = ((Some (ref_reply (a_query ?q) [?rr]), None), ())"
    by (simp_all add: ref_dns64_def ref_v4only_def ref_query_def a_query_def)
  moreover have "m_Question ?q = [\<lparr>q_Name = ''a.'', q_Qtype = TypeAAAA, q_Qclass = 1\<rparr>]" "usable_A ?rr"
    by (simp_all add: ref_query_def usable_A_def ref_rr_def)
  ultimately show ?thesis
    using DNS64_synthesizes [of ref_lib "[''64:ff9b::/96'']" ref_dns64 ?q "\<lparr>q_Name = ''a.'', q_Qtype = TypeAAAA, q_Qclass = 1\<rparr>" "[]"
        ref_client "()" "ref_reply ?q []" "()" "ref_reply (a_query ?q) [?rr]" "()"]
    by (auto simp: ref_reply_def ref_SetReply_def new_Msg_def hasAAAARecords_def ref_rr_def ref_dns64_def list_all2_Cons1)
qed

end
