(* ===== verification/Dedup.thy ===== *)
theory Dedup
  imports RefLib
begin

text \<open>
  \<^verbatim>\<open>request-dedup.go\<close>: of several concurrent queries with the same key one is sent upstream and the others
  wait for its answer. Every query runs in its own goroutine; the sections under the lock and the
  signals between goroutines are the steps of a transition system, in which the goroutines interleave
  freely.
\<close>

section \<open>Keys\<close>

record dedupKey =
  dk_name :: string
  dk_qtype :: u16
  dk_qclass :: u16
  dk_do :: bool
  dk_cd :: bool
  dk_ecs_ipv4 :: u32
  dk_ecs_ipv6_hi :: u64
  dk_ecs_ipv6_lo :: u64
  dk_ecs_mask :: u8

definition byteToUint128 :: "u8 list \<Rightarrow> u64 \<times> u64" where
  "byteToUint128 b = (if length b \<noteq> 16 then (0, 0) else (get_be (take 8 b), get_be (drop 8 b)))"

definition byteToUint32 :: "u8 list \<Rightarrow> u32" where
  "byteToUint32 b = (if length b \<noteq> 4 then 0 else get_be b)"

text \<open>The address and mask of the first client subnet option.\<close>

definition dedup_ecs :: "EDNS0 list \<Rightarrow> u32 \<times> u64 \<times> u64 \<times> u8" where
  "dedup_ecs opts =
     (case find is_EDNS0_SUBNET opts of
        Some (EDNS0_SUBNET family netmask scope addr) \<Rightarrow>
          (if family = 1 then (byteToUint32 (To4 addr), 0, 0, netmask)
           else if family = 2 then (case byteToUint128 (To16 addr) of (hi, lo) \<Rightarrow> (0, hi, lo, netmask))
           else (0, 0, 0, 0))
      | _ \<Rightarrow> (0, 0, 0, 0))"

definition dedup_key :: "dnslib \<Rightarrow> Msg \<Rightarrow> dedupKey option" where
  "dedup_key L q =
     (case m_Question q of
        [] \<Rightarrow> None
      | question # _ \<Rightarrow>
          (case dedup_ecs (edns0_options L q) of
             (ipv4, hi, lo, netmask) \<Rightarrow>
               Some \<lparr>dk_name = ToLower (q_Name question), dk_qtype = q_Qtype question, dk_qclass = q_Qclass question,
                     dk_do = (case edns0_of L q of None \<Rightarrow> False | Some edns0 \<Rightarrow> OPT_Do L edns0), dk_cd = m_CheckingDisabled q,
                     dk_ecs_ipv4 = ipv4, dk_ecs_ipv6_hi = hi, dk_ecs_ipv6_lo = lo, dk_ecs_mask = netmask\<rparr>))"

section \<open>Goroutines\<close>

record inflightRequest =
  rq_answer :: "Msg option"
  rq_err :: "go_error option"
  rq_done :: bool

text \<open>
  Where a goroutine is in \<^verbatim>\<open>Resolve\<close>: before the first lock, in the call to the upstream resolver, before
  the second lock, waiting for a request to be done, or returned. A request is a pointer, here its number.
\<close>

datatype stage =
    Arriving
  | Leading nat dedupKey
  | Closing nat dedupKey reply
  | Waiting nat
  | Returned reply

text \<open>
  The state of all goroutines: the query and the client of each, and how far it is. \<open>ds_leaders\<close> remembers,
  for the proofs only, which goroutine made a request.
\<close>

record 'w dedup =
  ds_inflight :: "(dedupKey, nat) gomap"
  ds_requests :: "inflightRequest list"
  ds_queries :: "(Msg \<times> ClientInfo) list"
  ds_stages :: "stage list"
  ds_leaders :: "nat list"
  ds_upstream :: 'w

abbreviation query_of :: "'w dedup \<Rightarrow> nat \<Rightarrow> Msg" where
  "query_of s i \<equiv> fst (ds_queries s ! i)"

text \<open>The copy a goroutine returns, with its own ID and question.\<close>

definition own_reply :: "Msg \<Rightarrow> reply \<Rightarrow> reply" where
  "own_reply q ae = (case ae of (None, err) \<Rightarrow> (None, err) | (Some a, err) \<Rightarrow> (Some (a\<lparr>m_Id := m_Id q, m_Question := m_Question q\<rparr>), err))"

definition set_stage :: "nat \<Rightarrow> stage \<Rightarrow> 'w dedup \<Rightarrow> 'w dedup" where
  "set_stage i st s = s\<lparr>ds_stages := (ds_stages s)[i := st]\<rparr>"

text \<open>The first section under the lock: find the request in flight or start one.\<close>

definition dedup_enter :: "nat \<Rightarrow> dedupKey \<Rightarrow> 'w dedup \<Rightarrow> 'w dedup" where
  "dedup_enter i k s =
     (case map_of (ds_inflight s) k of
        Some p \<Rightarrow> set_stage i (Waiting p) s
      | None \<Rightarrow>
          (let p = length (ds_requests s)
           in set_stage i (Leading p k)
                (s\<lparr>ds_requests := ds_requests s @ [\<lparr>rq_answer = None, rq_err = None, rq_done = False\<rparr>],
                   ds_inflight := AList.update k p (ds_inflight s), ds_leaders := ds_leaders s @ [i]\<rparr>)))"

text \<open>The answer from upstream: store it in the request and release the goroutines that wait for it.\<close>

definition dedup_return :: "'w resolver \<Rightarrow> nat \<Rightarrow> nat \<Rightarrow> dedupKey \<Rightarrow> 'w dedup \<Rightarrow> 'w dedup" where
  "dedup_return up i p k s =
     (case r_Resolve up (query_of s i) (snd (ds_queries s ! i)) (ds_upstream s) of
        ((a, err), w) \<Rightarrow>
          set_stage i (Closing p k (a, err))
            (s\<lparr>ds_requests := (ds_requests s)[p := \<lparr>rq_answer = a, rq_err = err, rq_done = True\<rparr>], ds_upstream := w\<rparr>))"

text \<open>The second section under the lock.\<close>

definition dedup_close :: "nat \<Rightarrow> dedupKey \<Rightarrow> reply \<Rightarrow> 'w dedup \<Rightarrow> 'w dedup" where
  "dedup_close i k ae s =
     set_stage i (Returned (own_reply (query_of s i) ae)) (s\<lparr>ds_inflight := AList.delete k (ds_inflight s)\<rparr>)"

definition dedup_wake :: "nat \<Rightarrow> nat \<Rightarrow> 'w dedup \<Rightarrow> 'w dedup" where
  "dedup_wake i p s =
     (let req = ds_requests s ! p in set_stage i (Returned (own_reply (query_of s i) (rq_answer req, rq_err req))) s)"

inductive dedup_step :: "dnslib \<Rightarrow> 'w resolver \<Rightarrow> 'w dedup \<Rightarrow> 'w dedup \<Rightarrow> bool" for L up where
  enter: "i < length (ds_stages s) \<Longrightarrow> ds_stages s ! i = Arriving \<Longrightarrow>
    dedup_key L (query_of s i) = Some k \<Longrightarrow> dedup_step L up s (dedup_enter i k s)"
| no_question: "i < length (ds_stages s) \<Longrightarrow> ds_stages s ! i = Arriving \<Longrightarrow>
    dedup_key L (query_of s i) = None \<Longrightarrow> dedup_step L up s (set_stage i (Returned panic) s)"
| return: "i < length (ds_stages s) \<Longrightarrow> ds_stages s ! i = Leading p k \<Longrightarrow>
    dedup_step L up s (dedup_return up i p k s)"
| close: "i < length (ds_stages s) \<Longrightarrow> ds_stages s ! i = Closing p k ae \<Longrightarrow>
    dedup_step L up s (dedup_close i k ae s)"
| wake: "i < length (ds_stages s) \<Longrightarrow> ds_stages s ! i = Waiting p \<Longrightarrow> rq_done (ds_requests s ! p) \<Longrightarrow>
    dedup_step L up s (dedup_wake i p s)"

definition NewRequestDedup :: "(Msg \<times> ClientInfo) list \<Rightarrow> 'w \<Rightarrow> 'w dedup" where
  "NewRequestDedup queries w =
     \<lparr>ds_inflight = [], ds_requests = [], ds_queries = queries, ds_stages = map (\<lambda>_. Arriving) queries,
      ds_leaders = [], ds_upstream = w\<rparr>"

section \<open>Runs end\<close>

fun stage_weight :: "stage \<Rightarrow> nat" where
  "stage_weight Arriving = 3"
| "stage_weight (Leading p k) = 2"
| "stage_weight (Closing p k ae) = 1"
| "stage_weight (Waiting p) = 1"
| "stage_weight (Returned ae) = 0"

definition dedup_weight :: "stage list \<Rightarrow> nat" where
  "dedup_weight st = sum_list (map stage_weight st)"

lemma set_stage_simps [simp]:
  "ds_inflight (set_stage i st s) = ds_inflight s" "ds_requests (set_stage i st s) = ds_requests s"
  "ds_leaders (set_stage i st s) = ds_leaders s" "ds_upstream (set_stage i st s) = ds_upstream s"
  "ds_queries (set_stage i st s) = ds_queries s" "ds_stages (set_stage i st s) = (ds_stages s)[i := st]"
  by (simp_all add: set_stage_def)

lemma weight_update:
  assumes "i < length st" "stage_weight x < stage_weight (st ! i)"
  shows "dedup_weight (st[i := x]) < dedup_weight st"
proof -
  have split: "st = take i st @ st ! i # drop (Suc i) st" using assms(1) by (rule id_take_nth_drop)
  have "dedup_weight st = dedup_weight (take i st) + stage_weight (st ! i) + dedup_weight (drop (Suc i) st)"
    unfolding dedup_weight_def by (subst split) simp
  then show ?thesis using assms by (simp add: dedup_weight_def upd_conv_take_nth_drop)
qed

lemma dedup_step_weight: "dedup_step L up s s' \<Longrightarrow> dedup_weight (ds_stages s') < dedup_weight (ds_stages s)"
  by (induction rule: dedup_step.induct)
     (auto simp: dedup_enter_def dedup_return_def dedup_close_def dedup_wake_def Let_def intro!: weight_update split: option.splits prod.splits)

lemma dedup_steps_weight: "(dedup_step L up ^^ n) s s' \<Longrightarrow> n + dedup_weight (ds_stages s') \<le> dedup_weight (ds_stages s)"
proof (induction n arbitrary: s')
  case (Suc n)
  then obtain t where "(dedup_step L up ^^ n) s t" "dedup_step L up t s'" by auto
  with Suc.IH [of t] dedup_step_weight [of L up t s'] show ?case by simp
qed simp

section \<open>The invariant\<close>

definition upstream_said :: "'w resolver \<Rightarrow> 'w dedup \<Rightarrow> nat \<Rightarrow> reply \<Rightarrow> bool" where
  "upstream_said up s j ae \<longleftrightarrow> (\<exists>w w'. r_Resolve up (query_of s j) (snd (ds_queries s ! j)) w = (ae, w'))"

text \<open>A goroutine's answer is what upstream said to a goroutine with the same key.\<close>

definition answered :: "dnslib \<Rightarrow> 'w resolver \<Rightarrow> 'w dedup \<Rightarrow> nat \<Rightarrow> reply \<Rightarrow> bool" where
  "answered L up s i ae \<longleftrightarrow>
     (if dedup_key L (query_of s i) = None then ae = panic
      else \<exists>j < length (ds_stages s). \<exists>said. dedup_key L (query_of s j) = dedup_key L (query_of s i) \<and> upstream_said up s j said \<and>
             ae = own_reply (query_of s i) said)"

definition request_ok :: "dnslib \<Rightarrow> 'w resolver \<Rightarrow> 'w dedup \<Rightarrow> nat \<Rightarrow> bool" where
  "request_ok L up s p \<longleftrightarrow>
     (let j = ds_leaders s ! p; req = ds_requests s ! p
      in j < length (ds_stages s) \<and> dedup_key L (query_of s j) \<noteq> None \<and>
         (if rq_done req then upstream_said up s j (rq_answer req, rq_err req) else \<exists>k. ds_stages s ! j = Leading p k))"

definition stage_ok :: "dnslib \<Rightarrow> 'w resolver \<Rightarrow> 'w dedup \<Rightarrow> nat \<Rightarrow> bool" where
  "stage_ok L up s i \<longleftrightarrow>
     (case ds_stages s ! i of
        Arriving \<Rightarrow> True
      | Leading p k \<Rightarrow> dedup_key L (query_of s i) = Some k \<and> map_of (ds_inflight s) k = Some p \<and>
          p < length (ds_requests s) \<and> ds_leaders s ! p = i
      | Closing p k ae \<Rightarrow> dedup_key L (query_of s i) = Some k \<and> map_of (ds_inflight s) k = Some p \<and>
          p < length (ds_requests s) \<and> ds_leaders s ! p = i \<and> upstream_said up s i ae
      | Waiting p \<Rightarrow> p < length (ds_requests s) \<and> dedup_key L (query_of s (ds_leaders s ! p)) = dedup_key L (query_of s i)
      | Returned ae \<Rightarrow> answered L up s i ae)"

definition inflight_ok :: "dnslib \<Rightarrow> 'w dedup \<Rightarrow> bool" where
  "inflight_ok L s \<longleftrightarrow>
     (\<forall>k p. map_of (ds_inflight s) k = Some p \<longrightarrow> p < length (ds_requests s) \<and> dedup_key L (query_of s (ds_leaders s ! p)) = Some k)"

definition dedup_ok :: "dnslib \<Rightarrow> 'w resolver \<Rightarrow> 'w dedup \<Rightarrow> bool" where
  "dedup_ok L up s \<longleftrightarrow>
     length (ds_leaders s) = length (ds_requests s) \<and> (\<forall>p < length (ds_requests s). request_ok L up s p) \<and>
     inflight_ok L s \<and> (\<forall>i < length (ds_stages s). stage_ok L up s i)"

lemma upstream_said_cong: "ds_queries s' = ds_queries s \<Longrightarrow> upstream_said up s' = upstream_said up s"
  by (simp add: upstream_said_def fun_eq_iff)

lemma answered_cong:
  "ds_queries s' = ds_queries s \<Longrightarrow> length (ds_stages s') = length (ds_stages s) \<Longrightarrow> answered L up s' = answered L up s"
  by (intro ext) (simp only: answered_def upstream_said_def)

lemma dedup_ok_new: "dedup_ok L up (NewRequestDedup queries w)"
  by (simp add: dedup_ok_def NewRequestDedup_def inflight_ok_def stage_ok_def)

lemma dedup_ok_wait:
  assumes "dedup_ok L up s" "i < length (ds_stages s)" "ds_stages s ! i = Arriving"
    "dedup_key L (query_of s i) = Some k" "map_of (ds_inflight s) k = Some p"
  shows "dedup_ok L up (set_stage i (Waiting p) s)"
proof -
  let ?s = "set_stage i (Waiting p) s"
  have cong: "upstream_said up ?s = upstream_said up s" "answered L up ?s = answered L up s"
    by (auto intro!: upstream_said_cong answered_cong)
  have p: "p < length (ds_requests s)" "dedup_key L (query_of s (ds_leaders s ! p)) = Some k"
    using assms(1,5) by (auto simp: dedup_ok_def inflight_ok_def)
  have "request_ok L up ?s r" if "r < length (ds_requests s)" for r
    using assms that by (auto simp: dedup_ok_def request_ok_def Let_def cong nth_list_update split: if_splits)
  moreover have "stage_ok L up ?s j" if "j < length (ds_stages s)" for j
    using assms p that by (cases "j = i") (auto simp: dedup_ok_def stage_ok_def cong split: stage.splits)
  ultimately show ?thesis using assms(1) by (simp add: dedup_ok_def inflight_ok_def)
qed

lemma dedup_ok_lead:
  assumes "dedup_ok L up s" "i < length (ds_stages s)" "ds_stages s ! i = Arriving"
    "dedup_key L (query_of s i) = Some k" "map_of (ds_inflight s) k = None"
  shows "dedup_ok L up (dedup_enter i k s)"
proof -
  let ?s = "dedup_enter i k s"
  have s: "ds_requests ?s = ds_requests s @ [\<lparr>rq_answer = None, rq_err = None, rq_done = False\<rparr>]"
    "ds_inflight ?s = AList.update k (length (ds_requests s)) (ds_inflight s)" "ds_leaders ?s = ds_leaders s @ [i]"
    "ds_queries ?s = ds_queries s" "ds_stages ?s = (ds_stages s)[i := Leading (length (ds_requests s)) k]"
    using assms(5) by (simp_all add: dedup_enter_def Let_def)
  have len: "length (ds_leaders s) = length (ds_requests s)" using assms(1) by (simp add: dedup_ok_def)
  have cong: "upstream_said up ?s = upstream_said up s" "answered L up ?s = answered L up s"
    using s by (auto intro!: upstream_said_cong answered_cong)
  have "request_ok L up ?s r" if "r < length (ds_requests ?s)" for r
  proof (cases "r < length (ds_requests s)")
    case True
    with assms(1) have "request_ok L up s r" by (simp add: dedup_ok_def)
    with True assms(2,3) len show ?thesis
      by (auto simp: request_ok_def Let_def cong s nth_append nth_list_update split: if_splits)
  next
    case False
    with that s have "r = length (ds_requests s)" by simp
    with len assms(2,4) show ?thesis by (simp add: request_ok_def s nth_append)
  qed
  moreover have "stage_ok L up ?s j" if "j < length (ds_stages s)" for j
  proof (cases "j = i")
    case True
    with assms(2,4) len show ?thesis by (simp add: stage_ok_def s nth_append update_conv')
  next
    case False
    from assms(1) that have "stage_ok L up s j" by (simp add: dedup_ok_def)
    with False len assms(5) show ?thesis by (auto simp: stage_ok_def s cong nth_append update_conv' split: stage.splits)
  qed
  moreover have "inflight_ok L ?s"
    using assms(1,4) len unfolding dedup_ok_def inflight_ok_def by (auto simp: s update_conv' nth_append less_SucI)
  ultimately show ?thesis using len by (simp add: dedup_ok_def s)
qed

lemma dedup_ok_return:
  assumes "dedup_ok L up s" "i < length (ds_stages s)" "ds_stages s ! i = Leading p k"
  shows "dedup_ok L up (dedup_return up i p k s)"
proof -
  obtain a err w where r: "r_Resolve up (query_of s i) (snd (ds_queries s ! i)) (ds_upstream s) = ((a, err), w)"
    by (metis prod.collapse)
  let ?s = "dedup_return up i p k s"
  have s: "ds_requests ?s = (ds_requests s)[p := \<lparr>rq_answer = a, rq_err = err, rq_done = True\<rparr>]" "ds_inflight ?s = ds_inflight s"
    "ds_leaders ?s = ds_leaders s" "ds_queries ?s = ds_queries s" "ds_stages ?s = (ds_stages s)[i := Closing p k (a, err)]"
    using r by (simp_all add: dedup_return_def)
  have said: "upstream_said up s i (a, err)" using r by (auto simp: upstream_said_def)
  have i: "dedup_key L (query_of s i) = Some k" "map_of (ds_inflight s) k = Some p" "p < length (ds_requests s)" "ds_leaders s ! p = i"
    using assms by (auto simp: dedup_ok_def stage_ok_def)
  have cong: "upstream_said up ?s = upstream_said up s" "answered L up ?s = answered L up s"
    using s by (auto intro!: upstream_said_cong answered_cong)
  have "request_ok L up ?s r" if "r < length (ds_requests s)" for r
  proof (cases "r = p")
    case True
    with i said assms(2) show ?thesis by (simp add: request_ok_def s cong)
  next
    case False
    from assms(1) that have "request_ok L up s r" by (simp add: dedup_ok_def)
    with False assms(2,3) show ?thesis by (auto simp: request_ok_def Let_def s cong nth_list_update split: if_splits)
  qed
  moreover have "stage_ok L up ?s j" if "j < length (ds_stages s)" for j
    using assms(1,2) i said that by (cases "j = i") (auto simp: dedup_ok_def stage_ok_def s cong split: stage.splits)
  ultimately show ?thesis using assms(1) by (simp add: dedup_ok_def inflight_ok_def s)
qed

lemma dedup_ok_returned:
  assumes "dedup_ok L up s" "i < length (ds_stages s)" "answered L up s i ae"
    "\<And>p k. ds_stages s ! i \<noteq> Leading p k" "\<And>p k x. ds_stages s ! i \<noteq> Closing p k x"
  shows "dedup_ok L up (set_stage i (Returned ae) s)"
proof -
  let ?s = "set_stage i (Returned ae) s"
  have cong: "upstream_said up ?s = upstream_said up s" "answered L up ?s = answered L up s"
    by (auto intro!: upstream_said_cong answered_cong)
  have "request_ok L up ?s r" if "r < length (ds_requests s)" for r
  proof -
    from assms(1) that have "request_ok L up s r" by (simp add: dedup_ok_def)
    with assms(2,4) show ?thesis by (auto simp: request_ok_def Let_def cong nth_list_update split: if_splits)
  qed
  moreover have "stage_ok L up ?s j" if "j < length (ds_stages s)" for j
    using assms(1-3) that by (cases "j = i") (auto simp: dedup_ok_def stage_ok_def cong split: stage.splits)
  ultimately show ?thesis using assms(1) by (simp add: dedup_ok_def inflight_ok_def)
qed

lemma dedup_ok_close:
  assumes "dedup_ok L up s" "i < length (ds_stages s)" "ds_stages s ! i = Closing p k ae"
  shows "dedup_ok L up (dedup_close i k ae s)"
proof -
  let ?s = "dedup_close i k ae s"
  have s: "ds_requests ?s = ds_requests s" "ds_inflight ?s = AList.delete k (ds_inflight s)" "ds_leaders ?s = ds_leaders s"
    "ds_queries ?s = ds_queries s" "ds_stages ?s = (ds_stages s)[i := Returned (own_reply (query_of s i) ae)]"
    by (simp_all add: dedup_close_def)
  have i: "dedup_key L (query_of s i) = Some k" "map_of (ds_inflight s) k = Some p" "ds_leaders s ! p = i" "upstream_said up s i ae"
    using assms by (auto simp: dedup_ok_def stage_ok_def)
  have cong: "upstream_said up ?s = upstream_said up s" "answered L up ?s = answered L up s"
    using s by (auto intro!: upstream_said_cong answered_cong)
  have "request_ok L up ?s r" if "r < length (ds_requests s)" for r
  proof -
    from assms(1) that have "request_ok L up s r" by (simp add: dedup_ok_def)
    with assms(2,3) show ?thesis by (auto simp: request_ok_def Let_def s cong nth_list_update split: if_splits)
  qed
  moreover have "stage_ok L up ?s j" if "j < length (ds_stages s)" for j
  proof (cases "j = i")
    case True
    have "answered L up s i (own_reply (query_of s i) ae)"
      using i(1,4) assms(2) unfolding answered_def by (auto simp del: split_paired_Ex intro!: exI [of _ i] exI [of _ ae])
    with True assms(2) show ?thesis by (simp add: stage_ok_def s cong)
  next
    case False
    from assms(1) that have ok: "stage_ok L up s j" by (simp add: dedup_ok_def)
    then have "k' \<noteq> k" if "ds_stages s ! j = Leading p' k' \<or> ds_stages s ! j = Closing p' k' x" for p' k' x
      using that False i(2,3) by (auto simp: stage_ok_def)
    with ok False show ?thesis by (auto simp: stage_ok_def s cong delete_conv' split: stage.splits)
  qed
  moreover have "inflight_ok L ?s" using assms(1) by (auto simp: dedup_ok_def inflight_ok_def s delete_conv' split: if_splits)
  ultimately show ?thesis using assms(1) by (simp add: dedup_ok_def s)
qed

lemma dedup_ok_wake:
  assumes "dedup_ok L up s" "i < length (ds_stages s)" "ds_stages s ! i = Waiting p" "rq_done (ds_requests s ! p)"
  shows "dedup_ok L up (dedup_wake i p s)"
proof -
  have "p < length (ds_requests s)" "dedup_key L (query_of s (ds_leaders s ! p)) = dedup_key L (query_of s i)"
    using assms by (auto simp: dedup_ok_def stage_ok_def)
  moreover from this(1) assms(1,4) have "ds_leaders s ! p < length (ds_stages s)" "dedup_key L (query_of s (ds_leaders s ! p)) \<noteq> None"
    "upstream_said up s (ds_leaders s ! p) (rq_answer (ds_requests s ! p), rq_err (ds_requests s ! p))"
    by (auto simp: dedup_ok_def request_ok_def Let_def)
  ultimately have "answered L up s i (own_reply (query_of s i) (rq_answer (ds_requests s ! p), rq_err (ds_requests s ! p)))"
    unfolding answered_def by auto
  from dedup_ok_returned [OF assms(1,2) this] assms(3) show ?thesis by (simp add: dedup_wake_def Let_def)
qed

lemma dedup_ok_step: "dedup_step L up s s' \<Longrightarrow> dedup_ok L up s \<Longrightarrow> dedup_ok L up s'"
proof (induction rule: dedup_step.induct)
  case (enter i s k)
  then show ?case
    using dedup_ok_wait [OF enter(4) enter(1-3)] dedup_ok_lead [OF enter(4) enter(1-3)]
    by (cases "map_of (ds_inflight s) k") (simp_all add: dedup_enter_def)
next
  case (no_question i s)
  then show ?case using dedup_ok_returned [of L up s i panic] by (simp add: answered_def)
qed (auto intro: dedup_ok_return dedup_ok_close dedup_ok_wake)

interpretation dedup_steps: step_invariant "dedup_step L up" "dedup_ok L up" for L up
  by unfold_locales (rule dedup_ok_step)

lemmas dedup_ok_steps = dedup_steps.steps_inv

lemma dedup_step_keeps:
  "dedup_step L up s s' \<Longrightarrow> ds_queries s' = ds_queries s \<and> length (ds_stages s') = length (ds_stages s)"
  by (induction rule: dedup_step.induct)
     (auto simp: dedup_enter_def dedup_return_def dedup_close_def dedup_wake_def Let_def split: option.splits prod.splits)

lemma dedup_steps_keep:
  "(dedup_step L up)\<^sup>*\<^sup>* s s' \<Longrightarrow> ds_queries s' = ds_queries s \<and> length (ds_stages s') = length (ds_stages s)"
  by (induction rule: rtranclp_induct) (auto dest: dedup_step_keeps)

text \<open>A goroutine that has not returned can take a step, or the one it waits for can.\<close>

lemma dedup_progress:
  assumes "dedup_ok L up s" "i < length (ds_stages s)" "\<And>ae. ds_stages s ! i \<noteq> Returned ae"
  shows "\<exists>s'. dedup_step L up s s'"
proof (cases "ds_stages s ! i")
  case Arriving
  then show ?thesis using assms(2) dedup_step.enter dedup_step.no_question by (cases "dedup_key L (query_of s i)") blast+
next
  case (Waiting p)
  with assms have "request_ok L up s p" by (auto simp: dedup_ok_def stage_ok_def)
  then obtain k where "rq_done (ds_requests s ! p) \<or> ds_leaders s ! p < length (ds_stages s) \<and> ds_stages s ! (ds_leaders s ! p) = Leading p k"
    by (auto simp: request_ok_def Let_def split: if_splits)
  then show ?thesis using dedup_step.wake [OF assms(2) Waiting] dedup_step.return by blast
next
  case (Returned ae)
  then show ?thesis using assms(3) by blast
qed (use assms(2) dedup_step.return dedup_step.close in blast)+

section \<open>What concurrent queries get\<close>

text \<open>
  C26: concurrent queries share one upstream request. In every reachable state of any number of
  concurrent queries no two goroutines with the same key are in the upstream resolver, and every
  goroutine that has returned has what upstream said to a query with the same key, with its own ID and
  question.
\<close>

theorem Dedup_shares:
  assumes "(dedup_step L up)\<^sup>*\<^sup>* (NewRequestDedup queries w) s"
  shows "(\<forall>i j p p' k. i < length queries \<and> j < length queries \<and> ds_stages s ! i = Leading p k \<and> ds_stages s ! j = Leading p' k \<longrightarrow> i = j) \<and>
    (\<forall>i ae. i < length queries \<and> ds_stages s ! i = Returned ae \<longrightarrow>
       (if dedup_key L (fst (queries ! i)) = None then ae = panic
        else \<exists>j < length queries. \<exists>said w1 w2. dedup_key L (fst (queries ! j)) = dedup_key L (fst (queries ! i)) \<and>
               r_Resolve up (fst (queries ! j)) (snd (queries ! j)) w1 = (said, w2) \<and> ae = own_reply (fst (queries ! i)) said))"
proof -
  have ok: "dedup_ok L up s" using dedup_ok_steps [OF assms dedup_ok_new] .
  have n: "length (ds_stages s) = length queries" "ds_queries s = queries"
    using dedup_steps_keep [OF assms] by (simp_all add: NewRequestDedup_def)
  have stage: "stage_ok L up s i" if "i < length queries" for i using ok that n(1) by (simp add: dedup_ok_def)
  have "i = j" if "i < length queries" "j < length queries" "ds_stages s ! i = Leading p k" "ds_stages s ! j = Leading p' k" for i j p p' k
    using stage [OF that(1)] stage [OF that(2)] that(3,4) by (auto simp: stage_ok_def)
  moreover have "answered L up s i ae" if "i < length queries" "ds_stages s ! i = Returned ae" for i ae
    using stage [OF that(1)] that(2) by (simp add: stage_ok_def)
  ultimately show ?thesis using n unfolding answered_def upstream_said_def by (metis (no_types, lifting))
qed

text \<open>Two queries for the same name, of which the second arrives while the first is upstream.\<close>

definition ref_two :: "(Msg \<times> ClientInfo) list" where
  "ref_two = [(ref_query ''a.'' 1, ref_client), ((ref_query ''A.'' 1)\<lparr>m_Id := 8\<rparr>, ref_client)]"

definition ref_dedup_1 :: "unit dedup" where
  "ref_dedup_1 = dedup_enter 0 (the (dedup_key ref_lib (ref_query ''a.'' 1))) (NewRequestDedup ref_two ())"

definition ref_dedup_2 :: "unit dedup" where
  "ref_dedup_2 = dedup_enter 1 (the (dedup_key ref_lib (ref_query ''a.'' 1))) ref_dedup_1"

definition ref_dedup_3 :: "unit dedup" where
  "ref_dedup_3 = dedup_return (ref_answering ''up'') 0 0 (the (dedup_key ref_lib (ref_query ''a.'' 1))) ref_dedup_2"

definition ref_dedup_4 :: "unit dedup" where
  "ref_dedup_4 = dedup_wake 1 0 ref_dedup_3"

lemma ref_ToLower: "ToLower ''A.'' = ToLower ''a.''"
  by code_simp

lemma ref_keys:
  "dedup_key ref_lib (ref_query ''a.'' 1) \<noteq> None" "dedup_key ref_lib (fst (ref_two ! 0)) = dedup_key ref_lib (ref_query ''a.'' 1)"
  "dedup_key ref_lib (fst (ref_two ! 1)) = dedup_key ref_lib (ref_query ''a.'' 1)"
  by (simp_all add: dedup_key_def ref_two_def ref_query_def edns0_options_def edns0_of_def ref_lib_def new_Msg_def dedup_ecs_def ref_ToLower)

lemma ref_dedup_states:
  "ds_stages ref_dedup_1 = [Leading 0 (the (dedup_key ref_lib (ref_query ''a.'' 1))), Arriving]" "ds_queries ref_dedup_1 = ref_two"
  "ds_stages ref_dedup_2 = [Leading 0 (the (dedup_key ref_lib (ref_query ''a.'' 1))), Waiting 0]" "ds_queries ref_dedup_2 = ref_two"
  "ds_stages ref_dedup_3 ! 1 = Waiting 0" "length (ds_stages ref_dedup_3) = 2" "rq_done (ds_requests ref_dedup_3 ! 0)"
  "ds_stages ref_dedup_4 ! 1 = Returned (own_reply (fst (ref_two ! 1)) (Some (ref_SetReply new_Msg (fst (ref_two ! 0))), None))"
  by (simp_all add: ref_dedup_1_def ref_dedup_2_def ref_dedup_3_def ref_dedup_4_def dedup_enter_def dedup_return_def dedup_wake_def
      NewRequestDedup_def ref_two_def Let_def update_conv')

lemma ref_dedup_run: "(dedup_step ref_lib (ref_answering ''up'') ^^ 4) (NewRequestDedup ref_two ()) ref_dedup_4"
proof -
  let ?step = "dedup_step ref_lib (ref_answering ''up'')"
  obtain k where k: "dedup_key ref_lib (ref_query ''a.'' 1) = Some k" using ref_keys(1) by auto
  have "?step (NewRequestDedup ref_two ()) ref_dedup_1"
    unfolding ref_dedup_1_def k option.sel using k ref_keys(2) by (intro dedup_step.enter) (simp_all add: NewRequestDedup_def ref_two_def)
  moreover have "?step ref_dedup_1 ref_dedup_2"
    unfolding ref_dedup_2_def k option.sel using k ref_keys(3) by (intro dedup_step.enter) (simp_all add: ref_dedup_states)
  moreover have "?step ref_dedup_2 ref_dedup_3"
    unfolding ref_dedup_3_def by (intro dedup_step.return) (simp_all add: ref_dedup_states)
  moreover have "?step ref_dedup_3 ref_dedup_4"
    unfolding ref_dedup_4_def by (intro dedup_step.wake) (simp_all add: ref_dedup_states(6,7) ref_dedup_states(5) [simplified])
  ultimately show ?thesis by (auto simp: numeral_eq_Suc relcompp_apply)
qed

theorem Dedup_shares_witness:
  "\<exists>ae. ds_stages ref_dedup_4 ! 1 = Returned ae \<and>
     (\<exists>j < length ref_two. \<exists>said w1 w2. dedup_key ref_lib (fst (ref_two ! j)) = dedup_key ref_lib (fst (ref_two ! 1)) \<and>
        r_Resolve (ref_answering ''up'') (fst (ref_two ! j)) (snd (ref_two ! j)) w1 = (said, w2) \<and> ae = own_reply (fst (ref_two ! 1)) said)"
proof -
  have "(dedup_step ref_lib (ref_answering ''up''))\<^sup>*\<^sup>* (NewRequestDedup ref_two ()) ref_dedup_4"
    using ref_dedup_run by (rule relpowp_imp_rtranclp)
  from conjunct2 [OF Dedup_shares [OF this], rule_format, of 1] ref_dedup_states(8) ref_keys show ?thesis
    by (auto simp: ref_two_def simp del: split_paired_Ex)
qed



end
