(* ===== verification/DnssecDenial.thy ===== *)
theory DnssecDenial
  imports RefLib NetParse "HOL-Library.List_Lexorder" "HOL-Library.Char_ord"
begin

text \<open>
  Names and denial of existence in the validator: \<^verbatim>\<open>dnssec/denial.go\<close> and the functions of
  \<^verbatim>\<open>dnssec/denial_existence.go\<close> that work on records whose signatures were already verified, with the
  verification of one signature and the grouping of records of \<^verbatim>\<open>dnssec/validator.go\<close>.
\<close>

section \<open>The library\<close>

text \<open>
  Functions of the DNS library on names, keys and signatures, as arguments. A key, a signature, a DS or
  an NSEC record is the record it is in. A signature that verifies makes \<^verbatim>\<open>Verify\<close> return nil, here \<open>True\<close>;
  \<^verbatim>\<open>ToDS\<close> is the digest it computes, \<open>None\<close> for an unknown digest type.
\<close>

record dnsseclib =
  CanonicalName :: "string \<Rightarrow> string"
  IsSubDomain :: "string \<Rightarrow> string \<Rightarrow> bool"
  SplitDomainName :: "string \<Rightarrow> string list"
  CompareDomainName :: "string \<Rightarrow> string \<Rightarrow> nat"
  CountLabel :: "string \<Rightarrow> nat"
  KeyTag :: "RR \<Rightarrow> u16"
  ToDS :: "RR \<Rightarrow> u8 \<Rightarrow> string option"
  Verify :: "RR \<Rightarrow> RR \<Rightarrow> RR list \<Rightarrow> bool"
  ValidityPeriod :: "RR \<Rightarrow> int \<Rightarrow> bool"
  NSEC3_Match :: "RR \<Rightarrow> string \<Rightarrow> bool"
  NSEC3_Cover :: "RR \<Rightarrow> string \<Rightarrow> bool"

text \<open>The errors of the validator. Wrapping an error keeps its kind, so a wrapped error is the error.\<close>

datatype dnssec_error =
    ErrNoSignature
  | ErrNoKey
  | ErrSignatureInvalid
  | ErrSignatureExpired
  | ErrDSMismatch
  | ErrNoTrustAnchor
  | ErrInsecureDelegation
  | ErrSignerOutOfBailiwick
  | ErrDenialOfExistence
  | ErrBogusDenial
  | ErrLookup go_error

section \<open>Signatures\<close>

definition findKeysByTag :: "dnsseclib \<Rightarrow> RR list \<Rightarrow> u16 \<Rightarrow> u8 \<Rightarrow> RR list" where
  "findKeysByTag D keys tag alg = filter (\<lambda>key. KeyTag D key = tag \<and> key_Algorithm (rr_Data key) = alg) keys"

text \<open>\<open>None\<close> is the nil error, that is, success.\<close>

definition verifyRRSIG :: "dnsseclib \<Rightarrow> RR \<Rightarrow> RR list \<Rightarrow> RR list \<Rightarrow> int \<Rightarrow> dnssec_error option" where
  "verifyRRSIG D sig keys rrset now =
     (if \<not> ValidityPeriod D sig now then Some ErrSignatureExpired
      else let matching = findKeysByTag D keys (sig_KeyTag (rr_Data sig)) (sig_Algorithm (rr_Data sig))
           in if matching = [] then Some ErrNoKey
              else if \<exists>key \<in> set matching. Verify D sig key rrset then None
              else Some ErrSignatureInvalid)"

definition verifyAnyRRSIG :: "dnsseclib \<Rightarrow> RR list \<Rightarrow> RR list \<Rightarrow> RR list \<Rightarrow> int \<Rightarrow> bool" where
  "verifyAnyRRSIG D sigs keys rrset now \<longleftrightarrow> (\<exists>sig \<in> set sigs. verifyRRSIG D sig keys rrset now = None)"

definition filterKeysByDS :: "dnsseclib \<Rightarrow> RR list \<Rightarrow> RR list \<Rightarrow> RR list" where
  "filterKeysByDS D keys ds =
     filter (\<lambda>key. \<exists>d \<in> set ds.
       case ToDS D key (ds_DigestType (rr_Data d)) of None \<Rightarrow> False | Some digest \<Rightarrow> EqualFold digest (ds_Digest (rr_Data d))) keys"

section \<open>RRsets\<close>

record rrsetKey =
  rk_name :: string
  rk_rrtype :: u16

definition rrset_key :: "dnsseclib \<Rightarrow> RR \<Rightarrow> rrsetKey" where
  "rrset_key D rr =
     \<lparr>rk_name = CanonicalName D (rr_Name rr),
      rk_rrtype = (case rr_Data rr of RRSIG covered _ _ _ _ _ _ \<Rightarrow> covered | _ \<Rightarrow> rr_Rrtype rr)\<rparr>"

definition append_at :: "'k \<Rightarrow> 'v \<Rightarrow> ('k, 'v list) gomap \<Rightarrow> ('k, 'v list) gomap" where
  "append_at k v m = AList.update k ((case map_of m k of None \<Rightarrow> [] | Some vs \<Rightarrow> vs) @ [v]) m"

definition groupRRsByTypeAndName :: "dnsseclib \<Rightarrow> RR list \<Rightarrow> (rrsetKey, RR list) gomap \<times> (rrsetKey, RR list) gomap" where
  "groupRRsByTypeAndName D section' =
     fold (\<lambda>rr (rrsets, sigs).
       if is_RRSIG (rr_Data rr) then (rrsets, append_at (rrset_key D rr) rr sigs)
       else (append_at (rrset_key D rr) rr rrsets, sigs)) section' ([], [])"

definition sigs_at :: "(rrsetKey, RR list) gomap \<Rightarrow> rrsetKey \<Rightarrow> RR list" where
  "sigs_at m k = (case map_of m k of None \<Rightarrow> [] | Some vs \<Rightarrow> vs)"

section \<open>Denial of DS\<close>

definition bitmapProvesInsecureDelegation :: "u16 list \<Rightarrow> bool" where
  "bitmapProvesInsecureDelegation bitmap \<longleftrightarrow> TypeNS \<in> set bitmap \<and> TypeDS \<notin> set bitmap \<and> TypeSOA \<notin> set bitmap"

definition nsecDeniesDS :: "dnsseclib \<Rightarrow> RR \<Rightarrow> string \<Rightarrow> bool" where
  "nsecDeniesDS D r name \<longleftrightarrow>
     CanonicalName D (rr_Name r) = name \<and> bitmapProvesInsecureDelegation (nsec_TypeBitMap (rr_Data r))"

definition nsec3DeniesDS :: "dnsseclib \<Rightarrow> RR \<Rightarrow> string \<Rightarrow> bool" where
  "nsec3DeniesDS D r name \<longleftrightarrow>
     (if NSEC3_Match D r name then bitmapProvesInsecureDelegation (nsec3_TypeBitMap (rr_Data r))
      else nsec3_Flags (rr_Data r) AND 1 \<noteq> 0 \<and> NSEC3_Cover D r name)"

definition record_denies_DS :: "dnsseclib \<Rightarrow> string \<Rightarrow> RR \<Rightarrow> bool" where
  "record_denies_DS D name r \<longleftrightarrow>
     (case rr_Data r of NSEC _ _ \<Rightarrow> nsecDeniesDS D r name | NSEC3 _ _ _ _ _ \<Rightarrow> nsec3DeniesDS D r name | _ \<Rightarrow> False)"

text \<open>
  The loop over a map visits every key once, in an unspecified order. Only whether some key satisfies the
  condition matters here, so the order does not.
\<close>

definition verifyDSDenial :: "dnsseclib \<Rightarrow> Msg \<Rightarrow> string \<Rightarrow> RR list \<Rightarrow> int \<Rightarrow> dnssec_error option" where
  "verifyDSDenial D resp name0 parentKeys now =
     (let name = CanonicalName D name0; (rrsets, sigs) = groupRRsByTypeAndName D (m_Ns resp)
      in if \<exists>(key, rrset) \<in> set rrsets. (rk_rrtype key = TypeNSEC \<or> rk_rrtype key = TypeNSEC3) \<and>
              verifyAnyRRSIG D (sigs_at sigs key) parentKeys rrset now \<and> (\<exists>r \<in> set rrset. record_denies_DS D name r)
         then None else Some ErrBogusDenial)"

section \<open>Canonical order\<close>

text \<open>
  \<^verbatim>\<open>canonicalLabels\<close> after the name was made canonical. Octets are characters; the sum of the digits of
  an escape is computed in a byte.
\<close>

fun labels_loop :: "string \<Rightarrow> string \<Rightarrow> string list" where
  "labels_loop cur [] = []"
| "labels_loop cur (c # s) =
     (if c = CHR 0x5C
      then (case s of
              [] \<Rightarrow> labels_loop cur []
            | [x] \<Rightarrow> labels_loop (cur @ [x]) []
            | [x, y] \<Rightarrow> labels_loop (cur @ [x]) [y]
            | x # y # z # rest \<Rightarrow>
                if is_digit x \<and> is_digit y \<and> is_digit z
                then labels_loop (cur @ [char_of ((digit_val x * 100 + digit_val y * 10 + digit_val z) mod 256)]) rest
                else labels_loop (cur @ [x]) (y # z # rest))
      else if c = CHR ''.'' then cur # labels_loop [] s
      else labels_loop (cur @ [c]) s)"

definition canonicalLabels :: "dnsseclib \<Rightarrow> string \<Rightarrow> string list" where
  "canonicalLabels D name0 = (let name = CanonicalName D name0 in if name = ''.'' then [] else labels_loop [] name)"

text \<open>\<^verbatim>\<open>bytes.Compare\<close>.\<close>

fun bytes_Compare :: "string \<Rightarrow> string \<Rightarrow> int" where
  "bytes_Compare [] [] = 0"
| "bytes_Compare [] (_ # _) = - 1"
| "bytes_Compare (_ # _) [] = 1"
| "bytes_Compare (x # xs) (y # ys) =
     (if (of_char x :: nat) < of_char y then - 1 else if (of_char y :: nat) < of_char x then 1 else bytes_Compare xs ys)"

fun cmp_from_right :: "string list \<Rightarrow> string list \<Rightarrow> int" where
  "cmp_from_right [] [] = 0"
| "cmp_from_right [] (_ # _) = - 1"
| "cmp_from_right (_ # _) [] = 1"
| "cmp_from_right (a # al) (b # bl) = (let c = bytes_Compare a b in if c \<noteq> 0 then c else cmp_from_right al bl)"

definition canonicalNameCmp :: "dnsseclib \<Rightarrow> string \<Rightarrow> string \<Rightarrow> int" where
  "canonicalNameCmp D a b = cmp_from_right (rev (canonicalLabels D a)) (rev (canonicalLabels D b))"

definition lastNLabels :: "dnslib \<Rightarrow> dnsseclib \<Rightarrow> string \<Rightarrow> nat \<Rightarrow> string" where
  "lastNLabels L D name n =
     (if n = 0 then ''.''
      else let labels = SplitDomainName D name
           in if length labels \<le> n then CanonicalName D name
              else Fqdn L (Join (drop (length labels - n) labels) ''.''))"

section \<open>NSEC\<close>

definition nsecCovers :: "dnsseclib \<Rightarrow> RR \<Rightarrow> string \<Rightarrow> bool" where
  "nsecCovers D n qname0 =
     (let owner = CanonicalName D (rr_Name n); next' = CanonicalName D (nsec_NextDomain (rr_Data n)); qname = CanonicalName D qname0
      in if qname = owner then False
         else if canonicalNameCmp D owner next' < 0
         then canonicalNameCmp D owner qname < 0 \<and> canonicalNameCmp D qname next' < 0
         else canonicalNameCmp D owner qname < 0 \<or> canonicalNameCmp D qname next' < 0)"

definition nsecClosestEncloser :: "dnslib \<Rightarrow> dnsseclib \<Rightarrow> string \<Rightarrow> RR \<Rightarrow> string" where
  "nsecClosestEncloser L D qname n =
     (let owner = CanonicalName D (rr_Name n); next' = CanonicalName D (nsec_NextDomain (rr_Data n))
      in lastNLabels L D qname (max (CompareDomainName D qname owner) (CompareDomainName D qname next')))"

definition type_absent :: "u16 \<Rightarrow> u16 list \<Rightarrow> bool" where
  "type_absent qtype bitmap \<longleftrightarrow> qtype \<notin> set bitmap \<and> TypeCNAME \<notin> set bitmap"

text \<open>The loop for a wildcard over the records that cover the name.\<close>

fun nsec_wildcard_loop :: "dnslib \<Rightarrow> dnsseclib \<Rightarrow> RR list \<Rightarrow> string \<Rightarrow> u16 \<Rightarrow> RR list \<Rightarrow> bool" where
  "nsec_wildcard_loop L D nsecs qname qtype [] = False"
| "nsec_wildcard_loop L D nsecs qname qtype (cover # rest) =
     (if \<not> nsecCovers D cover qname then nsec_wildcard_loop L D nsecs qname qtype rest
      else let wildcard = CanonicalName D (''*.'' @ nsecClosestEncloser L D qname cover)
           in case find (\<lambda>w. CanonicalName D (rr_Name w) = wildcard) nsecs of
                Some w \<Rightarrow> type_absent qtype (nsec_TypeBitMap (rr_Data w))
              | None \<Rightarrow> nsec_wildcard_loop L D nsecs qname qtype rest)"

definition nsecProvesNODATA :: "dnslib \<Rightarrow> dnsseclib \<Rightarrow> RR list \<Rightarrow> string \<Rightarrow> u16 \<Rightarrow> bool" where
  "nsecProvesNODATA L D nsecs qname0 qtype =
     (let qname = CanonicalName D qname0
      in case find (\<lambda>n. CanonicalName D (rr_Name n) = qname) nsecs of
           Some n \<Rightarrow> type_absent qtype (nsec_TypeBitMap (rr_Data n))
         | None \<Rightarrow> nsec_wildcard_loop L D nsecs qname qtype nsecs)"

fun nsec_no_wildcard :: "dnsseclib \<Rightarrow> string \<Rightarrow> RR list \<Rightarrow> bool" where
  "nsec_no_wildcard D wildcard [] = False"
| "nsec_no_wildcard D wildcard (n # rest) =
     (if CanonicalName D (rr_Name n) = wildcard then False
      else if nsecCovers D n wildcard then True
      else nsec_no_wildcard D wildcard rest)"

definition nsecProvesNXDOMAIN :: "dnslib \<Rightarrow> dnsseclib \<Rightarrow> RR list \<Rightarrow> string \<Rightarrow> bool" where
  "nsecProvesNXDOMAIN L D nsecs qname0 =
     (let qname = CanonicalName D qname0
      in case find (\<lambda>n. nsecCovers D n qname) nsecs of
           None \<Rightarrow> False
         | Some n \<Rightarrow> nsec_no_wildcard D (CanonicalName D (''*.'' @ nsecClosestEncloser L D qname n)) nsecs)"

definition nsecProvesDenial :: "dnslib \<Rightarrow> dnsseclib \<Rightarrow> RR list \<Rightarrow> string \<Rightarrow> u16 \<Rightarrow> int \<Rightarrow> bool" where
  "nsecProvesDenial L D nsecs qname qtype rcode =
     (if nsecs = [] then False
      else if rcode = RcodeNameError then nsecProvesNXDOMAIN L D nsecs qname
      else if rcode = RcodeSuccess then nsecProvesNODATA L D nsecs qname qtype
      else False)"

section \<open>NSEC3\<close>

definition nsec3MatchAny :: "dnsseclib \<Rightarrow> RR list \<Rightarrow> string \<Rightarrow> bool" where
  "nsec3MatchAny D nsec3s name \<longleftrightarrow> (\<exists>r \<in> set nsec3s. NSEC3_Match D r name)"

definition nsec3CoverAny :: "dnsseclib \<Rightarrow> RR list \<Rightarrow> string \<Rightarrow> bool" where
  "nsec3CoverAny D nsec3s name \<longleftrightarrow> (\<exists>r \<in> set nsec3s. NSEC3_Cover D r name)"

definition nsec3OptOutCovers :: "dnsseclib \<Rightarrow> RR list \<Rightarrow> string \<Rightarrow> bool" where
  "nsec3OptOutCovers D nsec3s name \<longleftrightarrow> (\<exists>r \<in> set nsec3s. nsec3_Flags (rr_Data r) AND 1 = 1 \<and> NSEC3_Cover D r name)"

text \<open>The loop from the longest proper ancestor to the root.\<close>

fun closest_loop :: "dnslib \<Rightarrow> dnsseclib \<Rightarrow> RR list \<Rightarrow> string \<Rightarrow> nat \<Rightarrow> (string \<times> string) option" where
  "closest_loop L D nsec3s qname 0 = None"
| "closest_loop L D nsec3s qname (Suc k) =
     (let candidate = lastNLabels L D qname k
      in if nsec3MatchAny D nsec3s candidate then Some (candidate, lastNLabels L D qname (Suc k))
         else closest_loop L D nsec3s qname k)"

definition nsec3ClosestEncloser :: "dnslib \<Rightarrow> dnsseclib \<Rightarrow> RR list \<Rightarrow> string \<Rightarrow> (string \<times> string) option" where
  "nsec3ClosestEncloser L D nsec3s qname0 =
     (let qname = CanonicalName D qname0 in closest_loop L D nsec3s qname (CountLabel D qname))"

definition nsec3ProvesNODATA :: "dnslib \<Rightarrow> dnsseclib \<Rightarrow> RR list \<Rightarrow> string \<Rightarrow> u16 \<Rightarrow> bool" where
  "nsec3ProvesNODATA L D nsec3s qname0 qtype =
     (let qname = CanonicalName D qname0
      in case find (\<lambda>r. NSEC3_Match D r qname) nsec3s of
           Some r \<Rightarrow> type_absent qtype (nsec3_TypeBitMap (rr_Data r))
         | None \<Rightarrow>
             if qtype = TypeDS \<and> nsec3OptOutCovers D nsec3s qname then True
             else case nsec3ClosestEncloser L D nsec3s qname of
                    None \<Rightarrow> False
                  | Some (ce, nextCloser) \<Rightarrow>
                      if nsec3CoverAny D nsec3s nextCloser
                      then (case find (\<lambda>r. NSEC3_Match D r (''*.'' @ ce)) nsec3s of
                              Some r \<Rightarrow> type_absent qtype (nsec3_TypeBitMap (rr_Data r))
                            | None \<Rightarrow> False)
                      else False)"

definition nsec3ProvesNXDOMAIN :: "dnslib \<Rightarrow> dnsseclib \<Rightarrow> RR list \<Rightarrow> string \<Rightarrow> bool" where
  "nsec3ProvesNXDOMAIN L D nsec3s qname =
     (case nsec3ClosestEncloser L D nsec3s qname of
        None \<Rightarrow> False
      | Some (ce, nextCloser) \<Rightarrow>
          if \<not> nsec3CoverAny D nsec3s nextCloser then False
          else if nsec3CoverAny D nsec3s (''*.'' @ ce) then True
          else nsec3OptOutCovers D nsec3s nextCloser)"

definition nsec3ProvesDenial :: "dnslib \<Rightarrow> dnsseclib \<Rightarrow> RR list \<Rightarrow> string \<Rightarrow> u16 \<Rightarrow> int \<Rightarrow> bool" where
  "nsec3ProvesDenial L D nsec3s qname qtype rcode =
     (if nsec3s = [] then False
      else if rcode = RcodeNameError then nsec3ProvesNXDOMAIN L D nsec3s qname
      else if rcode = RcodeSuccess then nsec3ProvesNODATA L D nsec3s qname qtype
      else False)"

section \<open>The canonical order is a linear order\<close>

text \<open>
  Names as lists of labels, ordered as RFC 4034, section 6.1, orders them: lexicographically by the labels read
  from the right, where labels are compared as strings of octets and a proper suffix comes first.
\<close>

datatype dname = DName (dname_labels: "string list")

instantiation dname :: linorder
begin

definition less_eq_dname :: "dname \<Rightarrow> dname \<Rightarrow> bool" where
  "less_eq_dname x y \<longleftrightarrow> rev (dname_labels x) \<le> rev (dname_labels y)"

definition less_dname :: "dname \<Rightarrow> dname \<Rightarrow> bool" where
  "less_dname x y \<longleftrightarrow> rev (dname_labels x) < rev (dname_labels y)"

instance
  by standard (auto simp: less_eq_dname_def less_dname_def less_le_not_le intro: dname.expand)

end

abbreviation canonical :: "dnsseclib \<Rightarrow> string \<Rightarrow> dname" where
  "canonical D name \<equiv> DName (canonicalLabels D name)"

lemma bytes_Compare_order: "bytes_Compare a b = (if a < b then - 1 else if a = b then 0 else 1)"
  by (induction a b rule: bytes_Compare.induct) (auto simp: less_char_def)

lemma cmp_from_right_order: "cmp_from_right a b = (if a < b then - 1 else if a = b then 0 else 1)"
  by (induction a b rule: cmp_from_right.induct) (auto simp: bytes_Compare_order Let_def)


section \<open>A concrete library\<close>

text \<open>
  Documented: the canonical form of a name is its fully qualified form in lower case, where a name is fully
  qualified when it ends with a dot that is not escaped, and a dot is appended otherwise.
\<close>

definition is_fqdn :: "string \<Rightarrow> bool" where
  "is_fqdn s \<longleftrightarrow> s \<noteq> [] \<and> last s = CHR ''.'' \<and> even (length (takeWhile (\<lambda>c. c = CHR 0x5C) (rev (butlast s))))"

definition ref_Canonical :: "string \<Rightarrow> string" where
  "ref_Canonical s = ToLower (if is_fqdn s then s else s @ ''.'')"

definition CanonicalName_law :: "dnsseclib \<Rightarrow> bool" where
  "CanonicalName_law D \<longleftrightarrow> CanonicalName D = ref_Canonical"

fun ref_labels :: "string \<Rightarrow> string \<Rightarrow> string list" where
  "ref_labels cur [] = (if cur = [] then [] else [cur])"
| "ref_labels cur (c # s) = (if c = CHR ''.'' then (if cur = [] then [] else [cur]) @ ref_labels [] s else ref_labels (cur @ [c]) s)"

fun ref_common :: "string list \<Rightarrow> string list \<Rightarrow> nat" where
  "ref_common (x # xs) (y # ys) = (if x = y then Suc (ref_common xs ys) else 0)"
| "ref_common _ _ = 0"

text \<open>
  Signatures of the concrete library are made by whoever has the key of that text: a signature verifies
  when it has the key, and the owners, the signer and the covered type agree. A digest is the owner and the key.
\<close>

definition ref_Verify :: "RR \<Rightarrow> RR \<Rightarrow> RR list \<Rightarrow> bool" where
  "ref_Verify sig key rrset \<longleftrightarrow>
     sig_Signature (rr_Data sig) = key_PublicKey (rr_Data key) \<and> sig_SignerName (rr_Data sig) = rr_Name key \<and>
     (\<forall>r \<in> set rrset. rr_Name r = rr_Name sig \<and> rr_Rrtype r = sig_TypeCovered (rr_Data sig))"

definition ref_seclib :: dnsseclib where
  "ref_seclib =
     \<lparr>CanonicalName = ref_Canonical,
      IsSubDomain = (\<lambda>p c. ref_common (rev (ref_labels [] p)) (rev (ref_labels [] c)) = length (ref_labels [] p)),
      SplitDomainName = ref_labels [],
      CompareDomainName = (\<lambda>a b. ref_common (rev (ref_labels [] a)) (rev (ref_labels [] b))),
      CountLabel = (\<lambda>s. length (ref_labels [] s)),
      KeyTag = (\<lambda>key. 7),
      ToDS = (\<lambda>key dt. Some (rr_Name key @ key_PublicKey (rr_Data key))),
      Verify = ref_Verify,
      ValidityPeriod = (\<lambda>sig t. uint (sig_Inception (rr_Data sig)) * 1000000000 \<le> t \<and> t \<le> uint (sig_Expiration (rr_Data sig)) * 1000000000),
      NSEC3_Match = (\<lambda>r s. False),
      NSEC3_Cover = (\<lambda>r s. False)\<rparr>"

lemma lower_char_special [simp]:
  "lower_char c = CHR ''.'' \<longleftrightarrow> c = CHR ''.''" "lower_char c = CHR 0x5C \<longleftrightarrow> c = CHR 0x5C"
proof -
  have *: "lower_char c = d \<longleftrightarrow> c = d" if "\<not> is_upper d" "\<not> is_lower d" for d
    using that by (auto simp: lower_char_def is_upper_def is_lower_def)
  show "lower_char c = CHR ''.'' \<longleftrightarrow> c = CHR ''.''" "lower_char c = CHR 0x5C \<longleftrightarrow> c = CHR 0x5C"
    by (simp_all add: * is_upper_def is_lower_def)
qed

lemma is_fqdn_ToLower [simp]: "is_fqdn (ToLower s) = is_fqdn s"
  by (cases s rule: rev_cases) (simp_all add: is_fqdn_def ToLower_def rev_map takeWhile_map o_def)

lemma is_fqdn_dot_dot [simp]: "is_fqdn (s @ ''..'')"
  by (simp add: is_fqdn_def butlast_append)

lemma ref_Canonical_fqdn: "is_fqdn s \<Longrightarrow> ref_Canonical s = ToLower s"
  by (simp add: ref_Canonical_def)

text \<open>Making a name canonical twice makes it fully qualified, even when it ends with a lone backslash.\<close>

lemma ref_Canonical_twice: "is_fqdn (ref_Canonical (ref_Canonical s))"
proof (cases "is_fqdn (ref_Canonical s)")
  case False
  then have "\<not> is_fqdn s" by (auto simp: ref_Canonical_def)
  with False have "ref_Canonical (ref_Canonical s) = ToLower (ToLower s @ ''..'')"
    by (simp add: ref_Canonical_def) (simp add: ToLower_def)
  then show ?thesis by simp
qed (simp add: ref_Canonical_def)

lemma ref_seclib_law [simp]: "CanonicalName_law ref_seclib"
  by (simp add: CanonicalName_law_def ref_seclib_def)

section \<open>Delegations\<close>

definition with_types :: "(RR \<Rightarrow> u16 list) \<Rightarrow> RR \<Rightarrow> RR" where
  "with_types f n = n\<lparr>rr_Data := NSEC (nsec_NextDomain (rr_Data n)) (f n)\<rparr>"

lemma with_types_simps [simp]:
  "rr_Name (with_types f n) = rr_Name n" "nsecCovers D (with_types f n) = nsecCovers D n"
  "nsecClosestEncloser L D q (with_types f n) = nsecClosestEncloser L D q n"
  by (simp_all add: with_types_def nsecCovers_def nsecClosestEncloser_def fun_eq_iff)

lemma find_with_types:
  "find (\<lambda>n. nsecCovers D n q) (map (with_types f) nsecs) = map_option (with_types f) (find (\<lambda>n. nsecCovers D n q) nsecs)"
  by (induction nsecs) auto

lemma nsec_no_wildcard_types: "nsec_no_wildcard D w (map (with_types f) nsecs) = nsec_no_wildcard D w nsecs"
  by (induction nsecs) auto

text \<open>
  C40: The proof that a name does not exist never looks at the types of the records NSEC: any types give the
  same result. So a record that the parent zone has at a delegation (NS without SOA) is accepted as a proof
  for the names of the child zone, of which it says nothing: the record of \<^verbatim>\<open>b.a.\<close>, with the types NS
  and DS, denies the existence of \<^verbatim>\<open>x.b.a.\<close>.
\<close>

theorem nsec_of_parent_denies_child:
  "nsecProvesDenial L D (map (with_types f) nsecs) qname qtype RcodeNameError =
     nsecProvesDenial L D nsecs qname qtype RcodeNameError \<and>
   nsecProvesDenial ref_lib ref_seclib
     [ref_rr ''b.a.'' TypeNSEC 60 (NSEC ''c.a.'' [TypeNS, TypeDS, TypeRRSIG, TypeNSEC])] ''x.b.a.'' TypeA RcodeNameError"
proof
  show "nsecProvesDenial L D (map (with_types f) nsecs) qname qtype RcodeNameError =
     nsecProvesDenial L D nsecs qname qtype RcodeNameError"
    by (simp add: nsecProvesDenial_def nsecProvesNXDOMAIN_def Let_def find_with_types nsec_no_wildcard_types split: option.split)
  show "nsecProvesDenial ref_lib ref_seclib
     [ref_rr ''b.a.'' TypeNSEC 60 (NSEC ''c.a.'' [TypeNS, TypeDS, TypeRRSIG, TypeNSEC])] ''x.b.a.'' TypeA RcodeNameError"
    by code_simp
qed

end
