(* ===== verification/Dnssec.thy ===== *)
theory Dnssec
  imports DnssecDenial "HOL-Library.Monad_Syntax"
begin

text \<open>
  The keystore and the validator: \<^verbatim>\<open>dnssec/keystore.go\<close>, the chain of trust of \<^verbatim>\<open>dnssec/validator.go\<close> and
  the collection of verified denial records of \<^verbatim>\<open>dnssec/denial_existence.go\<close>.

  The state is the keystore and the world of the resolver the validator queries; the clock is read from
  the world. Times are in nanoseconds. The chain of trust is built by recursion to the parent zone; \<open>None\<close>
  is a call that does not return. The order in which a loop visits a map is a parameter.
\<close>

section \<open>Keystore\<close>

record dnskeySet =
  dk_expiresAt :: int
  dk_zsk :: "RR list"
  dk_ksk :: "RR list"

record dsSet =
  dd_expiresAt :: int
  dd_records :: "RR list"

record keystoreEntry =
  ke_keys :: "dnskeySet option"
  ke_ds :: "dsSet option"

type_synonym keystore = "(string, keystoreEntry) gomap"

definition newKeystore :: keystore where
  "newKeystore = []"

definition new_entry :: keystoreEntry where
  "new_entry = \<lparr>ke_keys = None, ke_ds = None\<rparr>"

definition ks_getItem :: "dnsseclib \<Rightarrow> keystore \<Rightarrow> string \<Rightarrow> keystoreEntry" where
  "ks_getItem D ks name = (case map_of ks (CanonicalName D name) of Some item \<Rightarrow> item | None \<Rightarrow> new_entry)"

definition min_ttl :: "RR list \<Rightarrow> u32" where
  "min_ttl rrs = fold (\<lambda>r ttl. if rr_Ttl r < ttl then rr_Ttl r else ttl) rrs MaxUint32"

abbreviation (input) Second :: int where "Second \<equiv> 1000000000"

definition ks_addDS :: "dnsseclib \<Rightarrow> int \<Rightarrow> string \<Rightarrow> RR list \<Rightarrow> keystore \<Rightarrow> keystore" where
  "ks_addDS D now name dss ks =
     (let item = ks_getItem D ks name;
          records = (case ke_ds item of None \<Rightarrow> [] | Some d \<Rightarrow> dd_records d) @ dss
      in AList.update (CanonicalName D name)
           (item\<lparr>ke_ds := Some \<lparr>dd_expiresAt = now + uint (min_ttl records) * Second, dd_records = records\<rparr>\<rparr>) ks)"

definition with_flags :: "u16 \<Rightarrow> RR list \<Rightarrow> RR list" where
  "with_flags f keys = filter (\<lambda>key. is_DNSKEY (rr_Data key) \<and> key_Flags (rr_Data key) = f) keys"

definition ks_addDNSKEY :: "dnsseclib \<Rightarrow> int \<Rightarrow> string \<Rightarrow> RR list \<Rightarrow> keystore \<Rightarrow> keystore" where
  "ks_addDNSKEY D now name keys ks =
     AList.update (CanonicalName D name)
       ((ks_getItem D ks name)\<lparr>ke_keys := Some \<lparr>dk_expiresAt = now + uint (min_ttl keys) * Second,
          dk_zsk = with_flags 256 keys, dk_ksk = with_flags 257 keys\<rparr>\<rparr>) ks"

text \<open>A nil slice is an empty list.\<close>

definition ks_getDNSKEY :: "dnsseclib \<Rightarrow> int \<Rightarrow> keystore \<Rightarrow> string \<Rightarrow> RR list \<times> RR list" where
  "ks_getDNSKEY D now ks name =
     (case map_of ks (CanonicalName D name) of
        None \<Rightarrow> ([], [])
      | Some item \<Rightarrow>
          (case ke_keys item of
             None \<Rightarrow> ([], [])
           | Some keys \<Rightarrow> if dk_expiresAt keys < now then ([], []) else (dk_zsk keys, dk_ksk keys)))"

definition ks_getDS :: "dnsseclib \<Rightarrow> int \<Rightarrow> keystore \<Rightarrow> string \<Rightarrow> RR list" where
  "ks_getDS D now ks name =
     (case map_of ks (CanonicalName D name) of
        None \<Rightarrow> []
      | Some item \<Rightarrow>
          (case ke_ds item of
             None \<Rightarrow> []
           | Some ds \<Rightarrow> if dd_expiresAt ds < now then [] else dd_records ds))"

section \<open>Validator\<close>

text \<open>The fixed part of a validator, with the libraries it calls, and its state.\<close>

record 'w Validator =
  v_dns :: dnslib
  v_sec :: dnsseclib
  v_now :: "'w \<Rightarrow> int"
  v_resolver :: "Msg \<Rightarrow> 'w \<Rightarrow> (go_error + Msg) \<times> 'w"
  v_order :: "(rrsetKey \<times> RR list) list \<Rightarrow> (rrsetKey \<times> RR list) list"

record 'w vstate =
  vs_ks :: keystore
  vs_w :: 'w

definition now_of :: "'w Validator \<Rightarrow> 'w vstate \<Rightarrow> int" where
  "now_of v s = v_now v (vs_w s)"

definition SetAnchor :: "'w Validator \<Rightarrow> string \<Rightarrow> u16 \<Rightarrow> u8 \<Rightarrow> u8 \<Rightarrow> string \<Rightarrow> 'w vstate \<Rightarrow> 'w vstate" where
  "SetAnchor v owner tag alg digestType digest s =
     (let ds = \<lparr>rr_Hdr = \<lparr>h_Name = CanonicalName (v_sec v) owner, h_Rrtype = TypeDS, h_Class = ClassINET, h_Ttl = MaxUint32\<rparr>,
                rr_Data = DS tag alg digestType (ToUpper digest)\<rparr>
      in s\<lparr>vs_ks := ks_addDS (v_sec v) (now_of v s) owner [ds] (vs_ks s)\<rparr>)"

definition sec_query :: "'w Validator \<Rightarrow> string \<Rightarrow> u16 \<Rightarrow> Msg" where
  "sec_query v name t =
     (SetEdns0 (v_dns v) (SetQuestion (v_dns v) new_Msg (CanonicalName (v_sec v) name) t) 4096 True)\<lparr>m_CheckingDisabled := True\<rparr>"

definition lookupDNSKEY :: "'w Validator \<Rightarrow> string \<Rightarrow> 'w vstate \<Rightarrow> (go_error + (RR list \<times> RR list \<times> RR list)) \<times> 'w vstate" where
  "lookupDNSKEY v name s =
     (case v_resolver v (sec_query v name TypeDNSKEY) (vs_w s) of
        (Inl err, w') \<Rightarrow> (Inl err, s\<lparr>vs_w := w'\<rparr>)
      | (Inr a, w') \<Rightarrow>
          ((if m_Rcode a \<noteq> RcodeSuccess then Inl (ErrOther ''DNSKEY lookup failed'')
            else Inr (with_flags 256 (m_Answer a), with_flags 257 (m_Answer a), filter (\<lambda>r. is_RRSIG (rr_Data r)) (m_Answer a))),
           s\<lparr>vs_w := w'\<rparr>))"

definition lookupDS :: "'w Validator \<Rightarrow> string \<Rightarrow> 'w vstate \<Rightarrow> (go_error + (RR list \<times> RR list \<times> Msg)) \<times> 'w vstate" where
  "lookupDS v name s =
     (case v_resolver v (sec_query v name TypeDS) (vs_w s) of
        (Inl err, w') \<Rightarrow> (Inl err, s\<lparr>vs_w := w'\<rparr>)
      | (Inr a, w') \<Rightarrow>
          (Inr (if m_Rcode a = RcodeSuccess
                then (filter (\<lambda>r. is_DS (rr_Data r)) (m_Answer a),
                      filter (\<lambda>r. is_RRSIG (rr_Data r) \<and> sig_TypeCovered (rr_Data r) = TypeDS) (m_Answer a), a)
                else ([], [], a)),
           s\<lparr>vs_w := w'\<rparr>))"

text \<open>What \<^verbatim>\<open>strings.Cut\<close> at the first dot leaves after it; empty also when there is no dot.\<close>

definition cut_dot :: "string \<Rightarrow> string" where
  "cut_dot s = tl (dropWhile (\<lambda>c. c \<noteq> CHR ''.'') s)"

definition parentZone :: "dnsseclib \<Rightarrow> string \<Rightarrow> string" where
  "parentZone D name0 =
     (let name = CanonicalName D name0
      in if name = ''.'' then ''.'' else if cut_dot name = [] then ''.'' else cut_dot name)"

subsection \<open>Chain of trust\<close>

text \<open>The end of \<^verbatim>\<open>buildChainOfTrust\<close>: the keys are checked against the DS records, then kept.\<close>

definition accept_keys ::
  "'w Validator \<Rightarrow> string \<Rightarrow> RR list \<times> RR list \<times> RR list \<Rightarrow> RR list \<Rightarrow> 'w vstate \<Rightarrow> (dnssec_error + (RR list \<times> RR list)) \<times> 'w vstate" where
  "accept_keys v zone fetched dsRecords s =
     (let (fetchedZSK, fetchedKSK, dnsSigs) = fetched; D = v_sec v;
          trustedKSK = filterKeysByDS D fetchedKSK dsRecords;
          seen = filter (\<lambda>sig. CanonicalName D (sig_SignerName (rr_Data sig)) = zone \<and> sig_TypeCovered (rr_Data sig) = TypeDNSKEY) dnsSigs
      in if trustedKSK = [] then (Inl ErrDSMismatch, s)
         else if seen = [] then (Inl ErrNoSignature, s)
         else if \<not> verifyAnyRRSIG D seen trustedKSK (fetchedZSK @ fetchedKSK) (now_of v s) then (Inl ErrSignatureInvalid, s)
         else (Inr (fetchedZSK, fetchedKSK),
               s\<lparr>vs_ks := ks_addDNSKEY D (now_of v s) zone (fetchedZSK @ fetchedKSK) (vs_ks s)\<rparr>))"

text \<open>The check of the DS records of a zone with the keys of its parent; \<open>None\<close> when they are verified.\<close>

definition check_DS :: "'w Validator \<Rightarrow> string \<Rightarrow> RR list \<times> RR list \<times> Msg \<Rightarrow> RR list \<Rightarrow> 'w vstate \<Rightarrow> dnssec_error option" where
  "check_DS v zone looked parentZSK s =
     (let (dsRecords, dsSigs, dsResp) = looked; D = v_sec v
      in if dsRecords = []
         then (case verifyDSDenial D dsResp zone parentZSK (now_of v s) of Some err \<Rightarrow> Some err | None \<Rightarrow> Some ErrInsecureDelegation)
         else if dsSigs = [] then Some ErrNoSignature
         else if verifyAnyRRSIG D dsSigs parentZSK dsRecords (now_of v s) then None
         else Some ErrSignatureInvalid)"

partial_function (option) buildChainOfTrust ::
  "'w Validator \<Rightarrow> string \<Rightarrow> 'w vstate \<Rightarrow> ((dnssec_error + (RR list \<times> RR list)) \<times> 'w vstate) option" where
  "buildChainOfTrust v zone0 s =
     (let zone = CanonicalName (v_sec v) zone0;
          cached = ks_getDNSKEY (v_sec v) (now_of v s) (vs_ks s) zone
      in if fst cached \<noteq> [] \<or> snd cached \<noteq> [] then Some (Inr cached, s)
         else case lookupDNSKEY v zone s of
           (Inl err, s1) \<Rightarrow> Some (Inl (ErrLookup err), s1)
         | (Inr fetched, s1) \<Rightarrow>
             if fst (snd fetched) = [] then Some (Inl ErrNoKey, s1)
             else if zone = ''.''
             then (let dsRecords = ks_getDS (v_sec v) (now_of v s1) (vs_ks s1) ''.''
                   in if dsRecords = [] then Some (Inl ErrNoTrustAnchor, s1)
                      else Some (accept_keys v zone fetched dsRecords s1))
             else case lookupDS v zone s1 of
               (Inl err, s2) \<Rightarrow> Some (Inl (ErrLookup err), s2)
             | (Inr looked, s2) \<Rightarrow>
                 do {
                   (parent, s3) \<leftarrow> buildChainOfTrust v (parentZone (v_sec v) zone) s2;
                   case parent of
                     Inl err \<Rightarrow> Some (Inl err, s3)
                   | Inr keys \<Rightarrow>
                       (case check_DS v zone looked (fst keys) s3 of
                          Some err \<Rightarrow> Some (Inl err, s3)
                        | None \<Rightarrow> Some (accept_keys v zone fetched (fst looked) s3))
                 })"

declare buildChainOfTrust.simps [code]

subsection \<open>Insecure delegations\<close>

definition proveNoDS :: "'w Validator \<Rightarrow> string \<Rightarrow> 'w vstate \<Rightarrow> ((dnssec_error + bool) \<times> 'w vstate) option" where
  "proveNoDS v zone s =
     (case lookupDS v zone s of
        (Inl err, s1) \<Rightarrow> Some (Inl (ErrLookup err), s1)
      | (Inr (ds, _, resp), s1) \<Rightarrow>
          if ds \<noteq> [] then Some (Inr False, s1)
          else do {
            (parent, s2) \<leftarrow> buildChainOfTrust v (parentZone (v_sec v) zone) s1;
            case parent of
              Inl err \<Rightarrow> Some (if err = ErrInsecureDelegation then Inr True else Inl err, s2)
            | Inr keys \<Rightarrow>
                (case verifyDSDenial (v_sec v) resp zone (fst keys) (now_of v s2) of
                   Some err \<Rightarrow> Some (Inl err, s2)
                 | None \<Rightarrow> Some (Inr True, s2))
          })"

fun insecure_loop :: "'w Validator \<Rightarrow> string list \<Rightarrow> 'w vstate \<Rightarrow> (dnssec_error option \<times> 'w vstate) option" where
  "insecure_loop v [] s = Some (None, s)"
| "insecure_loop v (zone # zones) s =
     do {
       (r, s1) \<leftarrow> proveNoDS v zone s;
       case r of
         Inl err \<Rightarrow> Some (Some err, s1)
       | Inr insecure \<Rightarrow> if insecure then Some (Some ErrInsecureDelegation, s1) else insecure_loop v zones s1
     }"

definition checkInsecureDelegation :: "'w Validator \<Rightarrow> string \<Rightarrow> 'w vstate \<Rightarrow> (dnssec_error option \<times> 'w vstate) option" where
  "checkInsecureDelegation v name0 s =
     (let name = CanonicalName (v_sec v) name0; labels = SplitDomainName (v_sec v) name
      in if name = ''.'' then Some (None, s)
         else insecure_loop v (map (\<lambda>i. Fqdn (v_dns v) (Join (drop i labels) ''.'')) (rev [0..<length labels])) s)"

subsection \<open>Positive answers\<close>

text \<open>The loop over the signatures of an RRset; the last argument is \<^verbatim>\<open>lastErr\<close>.\<close>

fun rrset_loop :: "'w Validator \<Rightarrow> RR list \<Rightarrow> string \<Rightarrow> RR list \<Rightarrow> dnssec_error option \<Rightarrow> 'w vstate \<Rightarrow> (dnssec_error option \<times> 'w vstate) option" where
  "rrset_loop v rrset owner [] lastErr s = Some (lastErr, s)"
| "rrset_loop v rrset owner (sig # sigs) lastErr s =
     (let signer = CanonicalName (v_sec v) (sig_SignerName (rr_Data sig))
      in if \<not> IsSubDomain (v_sec v) signer owner then rrset_loop v rrset owner sigs (Some ErrSignerOutOfBailiwick) s
         else do {
           (chain, s1) \<leftarrow> buildChainOfTrust v signer s;
           case chain of
             Inl err \<Rightarrow> rrset_loop v rrset owner sigs (Some err) s1
           | Inr keys \<Rightarrow>
               (case verifyRRSIG (v_sec v) sig (fst keys) rrset (now_of v s1) of
                  Some err \<Rightarrow> rrset_loop v rrset owner sigs (Some err) s1
                | None \<Rightarrow> Some (None, s1))
         })"

definition validateRRset :: "'w Validator \<Rightarrow> RR list \<Rightarrow> RR list \<Rightarrow> 'w vstate \<Rightarrow> (dnssec_error option \<times> 'w vstate) option" where
  "validateRRset v rrset sigs s = rrset_loop v rrset (CanonicalName (v_sec v) (rr_Name (hd rrset))) sigs None s"

fun validate_loop :: "'w Validator \<Rightarrow> (rrsetKey, RR list) gomap \<Rightarrow> (rrsetKey \<times> RR list) list \<Rightarrow> 'w vstate \<Rightarrow> (dnssec_error option \<times> 'w vstate) option" where
  "validate_loop v sigs [] s = Some (None, s)"
| "validate_loop v sigs ((key, rrset) # rest) s =
     (let rrsigs = sigs_at sigs key
      in if rrsigs = []
         then do {
           (err, s1) \<leftarrow> checkInsecureDelegation v (rr_Name (hd rrset)) s;
           case err of Some e \<Rightarrow> Some (Some e, s1) | None \<Rightarrow> Some (Some ErrNoSignature, s1)
         }
         else do {
           (err, s1) \<leftarrow> validateRRset v rrset rrsigs s;
           case err of Some e \<Rightarrow> Some (Some e, s1) | None \<Rightarrow> validate_loop v sigs rest s1
         })"

subsection \<open>Negative answers\<close>

fun rrsetSignedFromAncestor :: "'w Validator \<Rightarrow> RR list \<Rightarrow> RR list \<Rightarrow> string \<Rightarrow> 'w vstate \<Rightarrow> (bool \<times> 'w vstate) option" where
  "rrsetSignedFromAncestor v rrset [] qname s = Some (False, s)"
| "rrsetSignedFromAncestor v rrset (sig # sigs) qname s =
     (let signer = CanonicalName (v_sec v) (sig_SignerName (rr_Data sig))
      in if \<not> IsSubDomain (v_sec v) signer qname then rrsetSignedFromAncestor v rrset sigs qname s
         else do {
           (chain, s1) \<leftarrow> buildChainOfTrust v signer s;
           case chain of
             Inl err \<Rightarrow> rrsetSignedFromAncestor v rrset sigs qname s1
           | Inr keys \<Rightarrow>
               if verifyRRSIG (v_sec v) sig (fst keys) rrset (now_of v s1) = None then Some (True, s1)
               else rrsetSignedFromAncestor v rrset sigs qname s1
         })"

fun collect_loop :: "'w Validator \<Rightarrow> (rrsetKey, RR list) gomap \<Rightarrow> string \<Rightarrow> (rrsetKey \<times> RR list) list \<Rightarrow> RR list \<times> RR list \<Rightarrow> 'w vstate \<Rightarrow>
    ((RR list \<times> RR list) \<times> 'w vstate) option" where
  "collect_loop v sigs qname [] acc s = Some (acc, s)"
| "collect_loop v sigs qname ((key, rrset) # rest) acc s =
     (if rk_rrtype key \<noteq> TypeNSEC \<and> rk_rrtype key \<noteq> TypeNSEC3 then collect_loop v sigs qname rest acc s
      else do {
        (signed, s1) \<leftarrow> rrsetSignedFromAncestor v rrset (sigs_at sigs key) qname s;
        if signed
        then collect_loop v sigs qname rest
               (fst acc @ filter (\<lambda>r. is_NSEC (rr_Data r)) rrset, snd acc @ filter (\<lambda>r. is_NSEC3 (rr_Data r)) rrset) s1
        else collect_loop v sigs qname rest acc s1
      })"

definition collectVerifiedDenialRecords ::
  "'w Validator \<Rightarrow> RR list \<Rightarrow> string \<Rightarrow> 'w vstate \<Rightarrow> ((RR list \<times> RR list) \<times> 'w vstate) option" where
  "collectVerifiedDenialRecords v ns qname s =
     (let (rrsets, sigs) = groupRRsByTypeAndName (v_sec v) ns in collect_loop v sigs qname (v_order v rrsets) ([], []) s)"

definition validateDenial :: "'w Validator \<Rightarrow> Msg \<Rightarrow> 'w vstate \<Rightarrow> (dnssec_error option \<times> 'w vstate) option" where
  "validateDenial v answer s =
     (case m_Question answer of
        [] \<Rightarrow> Some (Some ErrDenialOfExistence, s)
      | q # _ \<Rightarrow>
          (let qname = CanonicalName (v_sec v) (q_Name q); qtype = q_Qtype q
           in do {
             ((nsecs, nsec3s), s1) \<leftarrow> collectVerifiedDenialRecords v (m_Ns answer) qname s;
             if nsecProvesDenial (v_dns v) (v_sec v) nsecs qname qtype (m_Rcode answer) then Some (None, s1)
             else if nsec3ProvesDenial (v_dns v) (v_sec v) nsec3s qname qtype (m_Rcode answer) then Some (None, s1)
             else do {
               (err, s2) \<leftarrow> checkInsecureDelegation v qname s1;
               case err of Some e \<Rightarrow> Some (Some e, s2) | None \<Rightarrow> Some (Some ErrDenialOfExistence, s2)
             }
           }))"

definition Validate :: "'w Validator \<Rightarrow> Msg \<Rightarrow> 'w vstate \<Rightarrow> (dnssec_error option \<times> 'w vstate) option" where
  "Validate v answer s =
     (if m_Answer answer = [] then validateDenial v answer s
      else let (rrsets, sigs) = groupRRsByTypeAndName (v_sec v) (m_Answer answer)
           in validate_loop v sigs (v_order v rrsets) s)"

section \<open>The validator returns\<close>

lemma cut_dot_split: "CHR ''.'' \<in> set s \<Longrightarrow> s = takeWhile (\<lambda>c. c \<noteq> CHR ''.'') s @ CHR ''.'' # cut_dot s"
  unfolding cut_dot_def by (induction s) auto

lemma takeWhile_stop: "\<not> P y \<Longrightarrow> takeWhile P (xs @ y # ys) = takeWhile P xs"
  by (induction xs) auto

lemma is_fqdn_cut_dot: "is_fqdn c \<Longrightarrow> cut_dot c \<noteq> [] \<Longrightarrow> is_fqdn (cut_dot c) \<and> length (cut_dot c) < length c"
proof -
  assume c: "is_fqdn c" and t: "cut_dot c \<noteq> []"
  then have "CHR ''.'' \<in> set c" unfolding is_fqdn_def by (metis last_in_set)
  then have eq: "c = takeWhile (\<lambda>c. c \<noteq> CHR ''.'') c @ CHR ''.'' # cut_dot c" (is "_ = ?a @ _") by (rule cut_dot_split)
  have "is_fqdn (?a @ CHR ''.'' # cut_dot c)" using c eq by simp
  then have "is_fqdn (cut_dot c)" using t
    by (simp add: is_fqdn_def butlast_append takeWhile_stop)
  moreover have "length c = length ?a + Suc (length (cut_dot c))"
    by (subst eq) (simp only: length_append list.size)
  ultimately show ?thesis by simp
qed

lemma is_fqdn_length: "is_fqdn c \<Longrightarrow> c \<noteq> ''.'' \<Longrightarrow> 1 < length c"
  by (cases c rule: remdups_adj.cases) (auto simp: is_fqdn_def)

text \<open>The name of a zone after it was made canonical for a call and once more for the parent.\<close>

definition zone_key :: "dnsseclib \<Rightarrow> string \<Rightarrow> string" where
  "zone_key D z = CanonicalName D (CanonicalName D z)"

lemma parentZone_shorter:
  assumes "CanonicalName_law D" "CanonicalName D z \<noteq> ''.''"
  shows "length (zone_key D (parentZone D (CanonicalName D z))) < length (zone_key D z)"
proof -
  have D: "CanonicalName D = ref_Canonical" using assms(1) by (simp add: CanonicalName_law_def)
  let ?c = "ref_Canonical (ref_Canonical z)"
  have f: "is_fqdn ?c" by (rule ref_Canonical_twice)
  have ne: "?c \<noteq> ''.''"
    using assms(2) by (auto simp: D ref_Canonical_def ToLower_def split: if_splits)
  have k: "length (zone_key D t) = length t" if "is_fqdn t" for t
    using that by (simp add: zone_key_def D ref_Canonical_def)
  have "length ?c > 1" using f ne by (rule is_fqdn_length)
  moreover have "is_fqdn ''.''" by (simp add: is_fqdn_def)
  ultimately show ?thesis
    using is_fqdn_cut_dot [OF f] ne
    by (auto simp: parentZone_def Let_def D k zone_key_def [of D z])
qed

lemma buildChainOfTrust_not_None:
  assumes "CanonicalName_law (v_sec v)"
  shows "buildChainOfTrust v zone s \<noteq> None"
proof (induction "length (zone_key (v_sec v) zone)" arbitrary: zone s rule: less_induct)
  case less
  have "buildChainOfTrust v (parentZone (v_sec v) (CanonicalName (v_sec v) zone)) s' \<noteq> None"
    if "CanonicalName (v_sec v) zone \<noteq> ''.''" for s'
    using less parentZone_shorter [OF assms that] by blast
  then show ?case
    by (subst buildChainOfTrust.simps)
      (auto simp: Let_def simp: bind_eq_None_conv iff del: not_None_eq split: prod.splits sum.splits option.splits)
qed

lemma insecure_loop_not_None: "CanonicalName_law (v_sec v) \<Longrightarrow> insecure_loop v zones s \<noteq> None"
proof (induction zones arbitrary: s)
  case (Cons zone zones)
  have "proveNoDS v zone s \<noteq> None"
    using buildChainOfTrust_not_None [OF Cons.prems]
    by (auto simp: proveNoDS_def simp: bind_eq_None_conv iff del: not_None_eq split: prod.splits sum.splits option.splits)
  with Cons show ?case by (auto simp: bind_eq_None_conv iff del: not_None_eq split: prod.splits sum.splits)
qed simp

lemma checkInsecureDelegation_not_None: "CanonicalName_law (v_sec v) \<Longrightarrow> checkInsecureDelegation v name s \<noteq> None"
  using insecure_loop_not_None by (auto simp: checkInsecureDelegation_def Let_def iff del: not_None_eq)

lemma rrset_loop_not_None: "CanonicalName_law (v_sec v) \<Longrightarrow> rrset_loop v rrset owner sigs e s \<noteq> None"
proof (induction sigs arbitrary: e s)
  case (Cons sig sigs)
  with buildChainOfTrust_not_None [OF Cons.prems] show ?case
    by (auto simp: Let_def simp: bind_eq_None_conv iff del: not_None_eq split: prod.splits sum.splits option.splits)
qed simp

lemma validate_loop_not_None: "CanonicalName_law (v_sec v) \<Longrightarrow> validate_loop v sigs xs s \<noteq> None"
proof (induction xs arbitrary: s)
  case (Cons x xs)
  with rrset_loop_not_None [OF Cons.prems] checkInsecureDelegation_not_None [OF Cons.prems] show ?case
    by (cases x) (auto simp: Let_def validateRRset_def simp: bind_eq_None_conv iff del: not_None_eq split: prod.splits option.splits)
qed simp

lemma rrsetSignedFromAncestor_not_None: "CanonicalName_law (v_sec v) \<Longrightarrow> rrsetSignedFromAncestor v rrset sigs qname s \<noteq> None"
proof (induction sigs arbitrary: s)
  case (Cons sig sigs)
  with buildChainOfTrust_not_None [OF Cons.prems] show ?case
    by (auto simp: Let_def simp: bind_eq_None_conv iff del: not_None_eq split: prod.splits sum.splits)
qed simp

lemma collect_loop_not_None: "CanonicalName_law (v_sec v) \<Longrightarrow> collect_loop v sigs qname xs acc s \<noteq> None"
proof (induction xs arbitrary: acc s)
  case (Cons x xs)
  with rrsetSignedFromAncestor_not_None [OF Cons.prems] show ?case
    by (cases x) (auto simp: bind_eq_None_conv iff del: not_None_eq split: prod.splits)
qed simp

lemma Validate_not_None: "CanonicalName_law (v_sec v) \<Longrightarrow> Validate v answer s \<noteq> None"
  using validate_loop_not_None [of v] collect_loop_not_None [of v] checkInsecureDelegation_not_None [of v]
  by (auto simp: Validate_def validateDenial_def collectVerifiedDenialRecords_def Let_def
        simp: bind_eq_None_conv iff del: not_None_eq split: list.splits prod.splits option.splits)

section \<open>Grouping\<close>

lemma map_of_append_at:
  "map_of (append_at k x m) k' =
     (if k' = k then Some ((case map_of m k of None \<Rightarrow> [] | Some vs \<Rightarrow> vs) @ [x]) else map_of m k')"
  by (simp add: append_at_def update_conv')

lemma keys_append_at [simp]: "distinct (map fst m) \<Longrightarrow> distinct (map fst (append_at k x m))"
  by (simp add: append_at_def distinct_update)

definition group_of :: "('a \<Rightarrow> bool) \<Rightarrow> 'a list \<Rightarrow> 'a list option" where
  "group_of P xs = (if filter P xs = [] then None else Some (filter P xs))"

lemma groupRRsByTypeAndName_groups:
  "groupRRsByTypeAndName D rrs = (rrsets, sigs) \<Longrightarrow>
     distinct (map fst rrsets) \<and>
     map_of rrsets = (\<lambda>k. group_of (\<lambda>r. \<not> is_RRSIG (rr_Data r) \<and> rrset_key D r = k) rrs) \<and>
     map_of sigs = (\<lambda>k. group_of (\<lambda>r. is_RRSIG (rr_Data r) \<and> rrset_key D r = k) rrs)"
proof (induction rrs arbitrary: rrsets sigs rule: rev_induct)
  case (snoc r rrs)
  obtain rs0 ss0 where 0: "groupRRsByTypeAndName D rrs = (rs0, ss0)" by (cases "groupRRsByTypeAndName D rrs")
  have "groupRRsByTypeAndName D (rrs @ [r]) =
    (if is_RRSIG (rr_Data r) then (rs0, append_at (rrset_key D r) r ss0) else (append_at (rrset_key D r) r rs0, ss0))"
    using 0 by (simp add: groupRRsByTypeAndName_def)
  then show ?case
    using snoc.IH [OF 0] snoc.prems
    by (auto simp: fun_eq_iff map_of_append_at group_of_def split: if_splits)
qed (simp add: groupRRsByTypeAndName_def group_of_def fun_eq_iff)

end
