(* ===== verification/DnssecTrust.thy ===== *)
theory DnssecTrust
  imports Dnssec
begin

text \<open>
  Correctness of the validator: what a chain of trust is, that the keystore only keeps trusted keys, and that
  the validator accepts only answers and denials whose records have signatures by trusted keys.
\<close>

section \<open>Chains of trust\<close>

text \<open>
  What it means that keys of a zone are trusted, without reference to how the validator finds them. The keys
  are signed, at a time the clock showed, by a key signing key that a trusted DS record names; the DS
  records of the root are the anchors; those of another zone are signed by a trusted key of its parent.
  Zones are named as the keystore names them.
\<close>

definition clock_time :: "'w Validator \<Rightarrow> int \<Rightarrow> bool" where
  "clock_time v t \<longleftrightarrow> t \<in> range (v_now v)"

definition self_signed :: "'w Validator \<Rightarrow> string \<Rightarrow> RR list \<Rightarrow> RR list \<Rightarrow> RR list \<Rightarrow> bool" where
  "self_signed v zone zsk ksk ds \<longleftrightarrow>
     (\<exists>sig t. clock_time v t \<and> CanonicalName (v_sec v) (sig_SignerName (rr_Data sig)) = zone \<and>
        sig_TypeCovered (rr_Data sig) = TypeDNSKEY \<and>
        verifyRRSIG (v_sec v) sig (filterKeysByDS (v_sec v) ksk ds) (zsk @ ksk) t = None)"

inductive chain_of_trust :: "'w Validator \<Rightarrow> RR list \<Rightarrow> string \<Rightarrow> RR list \<Rightarrow> RR list \<Rightarrow> bool" for v anchors where
  root: "anchors \<noteq> [] \<Longrightarrow> self_signed v ''.'' zsk ksk anchors \<Longrightarrow>
    chain_of_trust v anchors (CanonicalName (v_sec v) ''.'') zsk ksk"
| child: "zone \<noteq> ''.'' \<Longrightarrow> chain_of_trust v anchors (zone_key (v_sec v) (parentZone (v_sec v) zone)) pzsk pksk \<Longrightarrow>
    ds \<noteq> [] \<Longrightarrow> clock_time v t \<Longrightarrow> verifyAnyRRSIG (v_sec v) dsSigs pzsk ds t \<Longrightarrow> self_signed v zone zsk ksk ds \<Longrightarrow>
    chain_of_trust v anchors (CanonicalName (v_sec v) zone) zsk ksk"

text \<open>The invariant of the keystore: its keys are trusted, and the DS records of the root are the anchors.\<close>

definition ks_trusted :: "'w Validator \<Rightarrow> RR list \<Rightarrow> keystore \<Rightarrow> bool" where
  "ks_trusted v anchors ks \<longleftrightarrow>
     (\<forall>zone item. map_of ks zone = Some item \<longrightarrow>
        (\<forall>keys. ke_keys item = Some keys \<longrightarrow> chain_of_trust v anchors zone (dk_zsk keys) (dk_ksk keys)) \<and>
        (\<forall>d. zone = CanonicalName (v_sec v) ''.'' \<longrightarrow> ke_ds item = Some d \<longrightarrow> dd_records d = anchors))"

lemma now_of_clock [simp]: "clock_time v (now_of v s)"
  by (simp add: clock_time_def now_of_def)

lemma with_flags_twice [simp]: "with_flags f (with_flags g keys) = (if f = g then with_flags g keys else [])"
  by (auto simp: with_flags_def filter_empty_conv intro!: filter_cong)

lemma with_flags_append [simp]: "with_flags f (xs @ ys) = with_flags f xs @ with_flags f ys"
  by (simp add: with_flags_def)

lemma lookup_keeps_ks:
  "lookupDNSKEY v z s = (r, s1) \<Longrightarrow> vs_ks s1 = vs_ks s" "lookupDS v z s = (r', s2) \<Longrightarrow> vs_ks s2 = vs_ks s"
  by (auto simp: lookupDNSKEY_def lookupDS_def split: prod.splits sum.splits if_splits)

lemma lookupDNSKEY_flags:
  "lookupDNSKEY v z s = (Inr (zsk, ksk, sigs), s1) \<Longrightarrow> with_flags 256 (zsk @ ksk) = zsk \<and> with_flags 257 (zsk @ ksk) = ksk"
  by (auto simp: lookupDNSKEY_def split: prod.splits sum.splits if_splits)

lemma ks_getDNSKEY_trusted:
  assumes "ks_trusted v anchors ks" "ks_getDNSKEY (v_sec v) t ks zone = (zsk, ksk)" "zsk \<noteq> [] \<or> ksk \<noteq> []"
  shows "chain_of_trust v anchors (CanonicalName (v_sec v) zone) zsk ksk"
  using assms by (auto simp: ks_getDNSKEY_def ks_trusted_def split: option.splits if_splits)

lemma ks_getDS_trusted:
  "ks_trusted v anchors ks \<Longrightarrow> ks_getDS (v_sec v) t ks ''.'' \<noteq> [] \<Longrightarrow> ks_getDS (v_sec v) t ks ''.'' = anchors"
  by (auto simp: ks_getDS_def ks_trusted_def split: option.splits if_splits)

lemma ks_addDNSKEY_trusted:
  assumes "ks_trusted v anchors ks" "chain_of_trust v anchors (CanonicalName (v_sec v) zone) (with_flags 256 keys) (with_flags 257 keys)"
  shows "ks_trusted v anchors (ks_addDNSKEY (v_sec v) t zone keys ks)"
  using assms
  by (auto simp: ks_trusted_def ks_addDNSKEY_def ks_getItem_def new_entry_def update_conv' split: option.splits)

lemma accept_keys_Inr:
  assumes "accept_keys v zone (zsk, ksk, sigs) ds s = (Inr keys, s')"
  shows "keys = (zsk, ksk) \<and> self_signed v zone zsk ksk ds \<and>
    s' = s\<lparr>vs_ks := ks_addDNSKEY (v_sec v) (now_of v s) zone (zsk @ ksk) (vs_ks s)\<rparr>"
proof -
  from assms obtain sig where "CanonicalName (v_sec v) (sig_SignerName (rr_Data sig)) = zone"
    "sig_TypeCovered (rr_Data sig) = TypeDNSKEY"
    "verifyRRSIG (v_sec v) sig (filterKeysByDS (v_sec v) ksk ds) (zsk @ ksk) (now_of v s) = None"
    by (auto simp: accept_keys_def Let_def verifyAnyRRSIG_def split: if_splits)
  then have "self_signed v zone zsk ksk ds" unfolding self_signed_def using now_of_clock by blast
  then show ?thesis using assms by (auto simp: accept_keys_def Let_def split: if_splits)
qed

definition trusted_result :: "'w Validator \<Rightarrow> RR list \<Rightarrow> string \<Rightarrow> (dnssec_error + (RR list \<times> RR list)) \<times> 'w vstate \<Rightarrow> bool" where
  "trusted_result v anchors zone rs \<longleftrightarrow>
     ks_trusted v anchors (vs_ks (snd rs)) \<and>
     (\<forall>zsk ksk. fst rs = Inr (zsk, ksk) \<longrightarrow> chain_of_trust v anchors (zone_key (v_sec v) zone) zsk ksk)"

lemma accept_keys_trusted:
  assumes "ks_trusted v anchors (vs_ks s)" "with_flags 256 (zsk @ ksk) = zsk \<and> with_flags 257 (zsk @ ksk) = ksk"
    "self_signed v (CanonicalName (v_sec v) zone) zsk ksk ds \<Longrightarrow> chain_of_trust v anchors (zone_key (v_sec v) zone) zsk ksk"
  shows "trusted_result v anchors zone (accept_keys v (CanonicalName (v_sec v) zone) (zsk, ksk, sigs) ds s)"
    (is "trusted_result _ _ _ ?rs")
proof (cases "fst ?rs")
  case (Inr keys)
  then have "?rs = (Inr keys, snd ?rs)" by (simp add: prod_eq_iff)
  note acc = accept_keys_Inr [OF this]
  then have "chain_of_trust v anchors (zone_key (v_sec v) zone) zsk ksk" using assms(3) by blast
  moreover have "vs_ks (snd ?rs) =
      ks_addDNSKEY (v_sec v) (now_of v s) (CanonicalName (v_sec v) zone) (zsk @ ksk) (vs_ks s)"
    using acc by simp
  ultimately show ?thesis
    using Inr acc ks_addDNSKEY_trusted [OF assms(1), of "CanonicalName (v_sec v) zone" "zsk @ ksk"] assms(2)
    by (simp add: trusted_result_def zone_key_def)
qed (use assms(1) in \<open>auto simp: trusted_result_def accept_keys_def Let_def split: if_splits\<close>)

lemma accept_root:
  assumes "CanonicalName (v_sec v) zone = ''.''" "ks_trusted v anchors (vs_ks s)" "anchors \<noteq> []"
    "with_flags 256 (zsk @ ksk) = zsk \<and> with_flags 257 (zsk @ ksk) = ksk"
  shows "trusted_result v anchors zone (accept_keys v ''.'' (zsk, ksk, sigs) anchors s)"
  using accept_keys_trusted [OF assms(2,4), of zone anchors sigs] chain_of_trust.root [OF assms(3), of v zsk ksk] assms(1)
  by (simp add: zone_key_def)

lemma check_DS_verified:
  "check_DS v zone (ds, dsSigs, resp) pzsk s = None \<Longrightarrow> ds \<noteq> [] \<and> verifyAnyRRSIG (v_sec v) dsSigs pzsk ds (now_of v s)"
  by (auto simp: check_DS_def Let_def split: if_splits option.splits)

lemma accept_child:
  assumes "CanonicalName (v_sec v) zone \<noteq> ''.''" "ks_trusted v anchors (vs_ks s)"
    "with_flags 256 (zsk @ ksk) = zsk \<and> with_flags 257 (zsk @ ksk) = ksk"
    "chain_of_trust v anchors (zone_key (v_sec v) (parentZone (v_sec v) (CanonicalName (v_sec v) zone))) pzsk pksk"
    "check_DS v (CanonicalName (v_sec v) zone) looked pzsk s = None"
  shows "trusted_result v anchors zone (accept_keys v (CanonicalName (v_sec v) zone) (zsk, ksk, sigs) (fst looked) s)"
proof (rule accept_keys_trusted [OF assms(2,3)])
  assume self: "self_signed v (CanonicalName (v_sec v) zone) zsk ksk (fst looked)"
  obtain ds dsSigs resp where looked: "looked = (ds, dsSigs, resp)" by (cases looked)
  show "chain_of_trust v anchors (zone_key (v_sec v) zone) zsk ksk"
    unfolding zone_key_def [of _ zone]
    using check_DS_verified [OF assms(5) [unfolded looked]] self looked
    by (auto intro!: chain_of_trust.child [OF assms(1,4) _ now_of_clock [of v s]])
qed

lemma child_trusted:
  assumes "CanonicalName (v_sec v) zone \<noteq> ''.''" "with_flags 256 (zsk @ ksk) = zsk \<and> with_flags 257 (zsk @ ksk) = ksk"
    "trusted_result v anchors (parentZone (v_sec v) (CanonicalName (v_sec v) zone)) (parent, s)"
    "(case parent of Inl err \<Rightarrow> Some (Inl err, s)
      | Inr keys \<Rightarrow> (case check_DS v (CanonicalName (v_sec v) zone) looked (fst keys) s of Some err \<Rightarrow> Some (Inl err, s)
          | None \<Rightarrow> Some (accept_keys v (CanonicalName (v_sec v) zone) (zsk, ksk, sigs) (fst looked) s))) = Some rs"
  shows "trusted_result v anchors zone rs"
  using assms
  by (auto simp: trusted_result_def [of _ _ _ "(_, _)"] intro: accept_child [OF _ _ assms(2)] split: sum.splits option.splits)

lemma buildChainOfTrust_trusted:
  "buildChainOfTrust v zone s = Some rs \<Longrightarrow> ks_trusted v anchors (vs_ks s) \<longrightarrow> trusted_result v anchors zone rs"
proof (induction rule: buildChainOfTrust.raw_induct [rotated, consumes 1, case_names step])
  case (step build v zone0 s rs)
  let ?z = "CanonicalName (v_sec v) zone0"
  obtain czsk cksk where cached: "ks_getDNSKEY (v_sec v) (now_of v s) (vs_ks s) ?z = (czsk, cksk)" by fastforce
  obtain r1 s1 where l1: "lookupDNSKEY v ?z s = (r1, s1)" by fastforce
  obtain r2 s2 where l2: "lookupDS v ?z s1 = (r2, s2)" by fastforce
  note ks = lookup_keeps_ks(1) [OF l1] lookup_keeps_ks(2) [OF l2]
    and run = step(2) [unfolded Let_def cached l1 l2 split fst_conv snd_conv]
  show ?case
  proof
    assume ok: "ks_trusted v anchors (vs_ks s)"
    then have ok1: "ks_trusted v anchors (vs_ks s1)" "ks_trusted v anchors (vs_ks s2)" using ks by simp_all
    consider (cached) "czsk \<noteq> [] \<or> cksk \<noteq> []" | (failed) err where "czsk = [] \<and> cksk = []" "r1 = Inl err"
      | (fetched) zsk ksk sigs where "czsk = [] \<and> cksk = []" "r1 = Inr (zsk, ksk, sigs)"
      by (cases r1) auto
    then show "trusted_result v anchors zone0 rs"
    proof cases
      case cached
      then show ?thesis
        using run ok ks_getDNSKEY_trusted [OF ok \<open>ks_getDNSKEY _ _ _ _ = _\<close>] by (auto simp: trusted_result_def zone_key_def)
    next
      case failed
      with run ok ks show ?thesis by (auto simp: trusted_result_def)
    next
      case fetched
      note flags = lookupDNSKEY_flags [OF l1 [unfolded fetched(2)]]
      consider (top) "ksk = [] \<or> ?z = ''.''" | (failed) err where "ksk \<noteq> []" "?z \<noteq> ''.''" "r2 = Inl err"
        | (parent) looked where "ksk \<noteq> []" "?z \<noteq> ''.''" "r2 = Inr looked"
        by (cases r2) auto
      then show ?thesis
      proof cases
        case top
        with run fetched ok1 accept_root [OF _ ok1(1) _ flags] ks_getDS_trusted [OF ok1(1)] show ?thesis
          by (auto simp: trusted_result_def [of _ _ _ "(Inl _, _)"] split: if_splits)
      next
        case failed
        with run fetched ok1 show ?thesis by (auto simp: trusted_result_def)
      next
        case parent
        with run fetched obtain p s3 where b: "build v (parentZone (v_sec v) ?z) s2 = Some (p, s3)" and
          rs: "(case p of Inl err \<Rightarrow> Some (Inl err, s3)
                | Inr keys \<Rightarrow> (case check_DS v ?z looked (fst keys) s3 of Some err \<Rightarrow> Some (Inl err, s3)
                    | None \<Rightarrow> Some (accept_keys v ?z (zsk, ksk, sigs) (fst looked) s3))) = Some rs"
          by (auto simp: bind_eq_Some_conv)
        from step(1) [OF b] ok1 show ?thesis using child_trusted [OF parent(2) flags _ rs] by blast
      qed
    qed
  qed
qed

section \<open>What the validator accepts\<close>

definition signed_by :: "'w Validator \<Rightarrow> RR list \<Rightarrow> string \<Rightarrow> RR list \<Rightarrow> RR \<Rightarrow> bool" where
  "signed_by v anchors name rrset sig \<longleftrightarrow>
     (let signer = CanonicalName (v_sec v) (sig_SignerName (rr_Data sig))
      in IsSubDomain (v_sec v) signer name \<and>
         (\<exists>zsk ksk t. chain_of_trust v anchors (zone_key (v_sec v) signer) zsk ksk \<and> clock_time v t \<and>
            verifyRRSIG (v_sec v) sig zsk rrset t = None))"

lemma signed_byI:
  assumes "buildChainOfTrust v (CanonicalName (v_sec v) (sig_SignerName (rr_Data sig))) s = Some (Inr keys, s1)"
    "ks_trusted v anchors (vs_ks s)" "IsSubDomain (v_sec v) (CanonicalName (v_sec v) (sig_SignerName (rr_Data sig))) name"
    "verifyRRSIG (v_sec v) sig (fst keys) rrset (now_of v s1) = None"
  shows "signed_by v anchors name rrset sig"
proof -
  have "chain_of_trust v anchors (zone_key (v_sec v) (CanonicalName (v_sec v) (sig_SignerName (rr_Data sig)))) (fst keys) (snd keys)"
    using buildChainOfTrust_trusted [OF assms(1)] assms(2) by (auto simp: trusted_result_def)
  then show ?thesis unfolding signed_by_def Let_def using assms(3,4) now_of_clock by blast
qed

lemma buildChainOfTrust_keeps:
  "buildChainOfTrust v zone s = Some (r, s1) \<Longrightarrow> ks_trusted v anchors (vs_ks s) \<Longrightarrow> ks_trusted v anchors (vs_ks s1)"
  using buildChainOfTrust_trusted [of v zone s "(r, s1)" anchors] by (simp add: trusted_result_def)

lemma proveNoDS_keeps:
  assumes "proveNoDS v zone s = Some (r, s')" "ks_trusted v anchors (vs_ks s)"
  shows "ks_trusted v anchors (vs_ks s')"
proof -
  obtain l s1 where l: "lookupDS v zone s = (l, s1)" by fastforce
  then have ok: "ks_trusted v anchors (vs_ks s1)" using assms(2) lookup_keeps_ks(2) [OF l] by simp
  from assms(1) l have "s' = s1 \<or> (\<exists>p. buildChainOfTrust v (parentZone (v_sec v) zone) s1 = Some (p, s'))"
    by (cases l; cases "buildChainOfTrust v (parentZone (v_sec v) zone) s1")
      (auto simp: proveNoDS_def split: if_splits sum.splits option.splits)
  with ok show ?thesis using buildChainOfTrust_keeps by blast
qed

lemma insecure_loop_keeps:
  "insecure_loop v zones s = Some (r, s') \<Longrightarrow> ks_trusted v anchors (vs_ks s) \<Longrightarrow> ks_trusted v anchors (vs_ks s')"
proof (induction zones arbitrary: s)
  case (Cons zone zones)
  then obtain x s1 where p: "proveNoDS v zone s = Some (x, s1)" by (auto simp: bind_eq_Some_conv)
  with Cons proveNoDS_keeps [OF p] show ?case by (cases x) (auto split: if_splits)
qed simp

lemma checkInsecureDelegation_keeps:
  "checkInsecureDelegation v name s = Some (r, s') \<Longrightarrow> ks_trusted v anchors (vs_ks s) \<Longrightarrow> ks_trusted v anchors (vs_ks s')"
  using insecure_loop_keeps by (fastforce simp: checkInsecureDelegation_def Let_def split: if_splits)

lemma rrset_loop_sound:
  "rrset_loop v rrset owner sigs e s = Some (r, s') \<Longrightarrow> ks_trusted v anchors (vs_ks s) \<Longrightarrow>
     ks_trusted v anchors (vs_ks s') \<and>
     (r = None \<longrightarrow> e = None \<and> sigs = [] \<or> (\<exists>sig \<in> set sigs. signed_by v anchors owner rrset sig))"
proof (induction sigs arbitrary: e s)
  case (Cons sig sigs)
  let ?signer = "CanonicalName (v_sec v) (sig_SignerName (rr_Data sig))"
  show ?case
  proof (cases "IsSubDomain (v_sec v) ?signer owner")
    case True
    with Cons.prems obtain chain s1 where b: "buildChainOfTrust v ?signer s = Some (chain, s1)" and
      run: "(case chain of Inl err \<Rightarrow> rrset_loop v rrset owner sigs (Some err) s1
             | Inr keys \<Rightarrow> (case verifyRRSIG (v_sec v) sig (fst keys) rrset (now_of v s1) of
                  Some err \<Rightarrow> rrset_loop v rrset owner sigs (Some err) s1 | None \<Rightarrow> Some (None, s1))) = Some (r, s')"
      by (auto simp: Let_def bind_eq_Some_conv)
    have ok: "ks_trusted v anchors (vs_ks s1)" using b Cons.prems(2) by (rule buildChainOfTrust_keeps)
    have "(chain = Inr keys \<and> verifyRRSIG (v_sec v) sig (fst keys) rrset (now_of v s1) = None) \<longrightarrow>
        signed_by v anchors owner rrset sig" for keys
      using signed_byI [of v sig s keys s1] b Cons.prems(2) True by blast
    with run ok Cons.IH [of _ s1] show ?thesis by (auto split: sum.splits option.splits)
  qed (use Cons in \<open>fastforce simp: Let_def\<close>)
qed simp

lemma validate_loop_sound:
  "validate_loop v sigs xs s = Some (r, s') \<Longrightarrow> ks_trusted v anchors (vs_ks s) \<Longrightarrow>
     ks_trusted v anchors (vs_ks s') \<and>
     (r = None \<longrightarrow> (\<forall>(key, rrset) \<in> set xs. \<exists>sig \<in> set (sigs_at sigs key).
        signed_by v anchors (CanonicalName (v_sec v) (rr_Name (hd rrset))) rrset sig))"
proof (induction xs arbitrary: s)
  case (Cons x xs)
  obtain key rrset where x: "x = (key, rrset)" by (cases x)
  show ?case
  proof (cases "sigs_at sigs key = []")
    case True
    with Cons.prems x show ?thesis
      by (auto simp: bind_eq_Some_conv dest: checkInsecureDelegation_keeps split: option.splits)
  next
    case False
    with Cons.prems x obtain e s1 where l: "validateRRset v rrset (sigs_at sigs key) s = Some (e, s1)" and
      run: "(case e of Some e \<Rightarrow> Some (Some e, s1) | None \<Rightarrow> validate_loop v sigs xs s1) = Some (r, s')"
      by (auto simp: bind_eq_Some_conv)
    note sound = rrset_loop_sound [OF l [unfolded validateRRset_def] Cons.prems(2)]
    with run False x Cons.IH [of s1] show ?thesis by (auto split: option.splits)
  qed
qed simp

lemma rrsetSignedFromAncestor_sound:
  "rrsetSignedFromAncestor v rrset sigs qname s = Some (r, s') \<Longrightarrow> ks_trusted v anchors (vs_ks s) \<Longrightarrow>
     ks_trusted v anchors (vs_ks s') \<and> (r \<longrightarrow> (\<exists>sig \<in> set sigs. signed_by v anchors qname rrset sig))"
proof (induction sigs arbitrary: s)
  case (Cons sig sigs)
  let ?signer = "CanonicalName (v_sec v) (sig_SignerName (rr_Data sig))"
  show ?case
  proof (cases "IsSubDomain (v_sec v) ?signer qname")
    case True
    with Cons.prems obtain chain s1 where b: "buildChainOfTrust v ?signer s = Some (chain, s1)" and
      run: "(case chain of Inl err \<Rightarrow> rrsetSignedFromAncestor v rrset sigs qname s1
             | Inr keys \<Rightarrow> if verifyRRSIG (v_sec v) sig (fst keys) rrset (now_of v s1) = None then Some (True, s1)
                 else rrsetSignedFromAncestor v rrset sigs qname s1) = Some (r, s')"
      by (auto simp: Let_def bind_eq_Some_conv)
    have ok: "ks_trusted v anchors (vs_ks s1)" using b Cons.prems(2) by (rule buildChainOfTrust_keeps)
    have "(chain = Inr keys \<and> verifyRRSIG (v_sec v) sig (fst keys) rrset (now_of v s1) = None) \<longrightarrow>
        signed_by v anchors qname rrset sig" for keys
      using signed_byI [of v sig s keys s1] b Cons.prems(2) True by blast
    with run ok Cons.IH [of s1] show ?thesis by (auto split: sum.splits if_splits)
  qed (use Cons in \<open>fastforce simp: Let_def\<close>)
qed simp

text \<open>A loop over a map visits its entries, each once, in some order.\<close>

definition iteration_order :: "'w Validator \<Rightarrow> bool" where
  "iteration_order v \<longleftrightarrow> (\<forall>xs. set (v_order v xs) = set xs \<and> length (v_order v xs) = length xs)"

text \<open>
  A record of a section is authentic for a name when its RRset in that section has a signature in that
  section by a trusted key of a zone at or above the name.
\<close>

definition rrset_of :: "dnsseclib \<Rightarrow> RR list \<Rightarrow> RR \<Rightarrow> RR list" where
  "rrset_of D section' r = filter (\<lambda>r'. \<not> is_RRSIG (rr_Data r') \<and> rrset_key D r' = rrset_key D r) section'"

definition authentic :: "'w Validator \<Rightarrow> RR list \<Rightarrow> RR list \<Rightarrow> string \<Rightarrow> RR \<Rightarrow> bool" where
  "authentic v anchors section' name r \<longleftrightarrow>
     r \<in> set section' \<and> \<not> is_RRSIG (rr_Data r) \<and>
     (\<exists>sig \<in> set section'. is_RRSIG (rr_Data sig) \<and> rrset_key (v_sec v) sig = rrset_key (v_sec v) r \<and>
        signed_by v anchors name (rrset_of (v_sec v) section' r) sig)"

definition authentic_answer :: "'w Validator \<Rightarrow> RR list \<Rightarrow> Msg \<Rightarrow> bool" where
  "authentic_answer v anchors m \<longleftrightarrow>
     (\<forall>r \<in> set (m_Answer m). \<not> is_RRSIG (rr_Data r) \<longrightarrow>
        authentic v anchors (m_Answer m) (CanonicalName (v_sec v) (rr_Name r)) r)"

definition authentic_denial :: "'w Validator \<Rightarrow> RR list \<Rightarrow> Msg \<Rightarrow> bool" where
  "authentic_denial v anchors m \<longleftrightarrow>
     (\<exists>q qs nsecs nsec3s. m_Question m = q # qs \<and>
        (\<forall>r \<in> set nsecs \<union> set nsec3s. authentic v anchors (m_Ns m) (CanonicalName (v_sec v) (q_Name q)) r) \<and>
        (nsecProvesDenial (v_dns v) (v_sec v) nsecs (CanonicalName (v_sec v) (q_Name q)) (q_Qtype q) (m_Rcode m) \<or>
         nsec3ProvesDenial (v_dns v) (v_sec v) nsec3s (CanonicalName (v_sec v) (q_Name q)) (q_Qtype q) (m_Rcode m)))"

lemma rrset_key_name [simp]: "rk_name (rrset_key D r) = CanonicalName D (rr_Name r)"
  by (simp add: rrset_key_def)

lemma group_entry:
  assumes "groupRRsByTypeAndName D rrs = (rrsets, sigs)" "r \<in> set rrs" "\<not> is_RRSIG (rr_Data r)"
  shows "(rrset_key D r, rrset_of D rrs r) \<in> set rrsets"
    "set (sigs_at sigs (rrset_key D r)) = {sig \<in> set rrs. is_RRSIG (rr_Data sig) \<and> rrset_key D sig = rrset_key D r}"
proof -
  note groups = groupRRsByTypeAndName_groups [OF assms(1)]
  have "map_of rrsets (rrset_key D r) = Some (rrset_of D rrs r)"
    using groups assms(2,3) by (auto simp: group_of_def rrset_of_def filter_empty_conv)
  then show "(rrset_key D r, rrset_of D rrs r) \<in> set rrsets" by (rule map_of_SomeD)
  show "set (sigs_at sigs (rrset_key D r)) = {sig \<in> set rrs. is_RRSIG (rr_Data sig) \<and> rrset_key D sig = rrset_key D r}"
    using groups by (auto simp: sigs_at_def group_of_def filter_empty_conv)
qed

lemma group_member:
  assumes "groupRRsByTypeAndName D rrs = (rrsets, sigs)" "(key, rrset) \<in> set rrsets" "r \<in> set rrset"
  shows "r \<in> set rrs \<and> \<not> is_RRSIG (rr_Data r) \<and> key = rrset_key D r \<and> rrset = rrset_of D rrs r"
  using groupRRsByTypeAndName_groups [OF assms(1)] assms(2,3) map_of_is_SomeI [of rrsets key rrset]
  by (auto simp: group_of_def rrset_of_def fun_eq_iff split: if_splits)

lemma hd_rrset_of_name: "r \<in> set rrs \<Longrightarrow> \<not> is_RRSIG (rr_Data r) \<Longrightarrow> CanonicalName D (rr_Name (hd (rrset_of D rrs r))) = CanonicalName D (rr_Name r)"
proof -
  assume "r \<in> set rrs" "\<not> is_RRSIG (rr_Data r)"
  then have "rrset_of D rrs r \<noteq> []" by (auto simp: rrset_of_def filter_empty_conv)
  then have "hd (rrset_of D rrs r) \<in> set (rrset_of D rrs r)" by (rule hd_in_set)
  then have "rrset_key D (hd (rrset_of D rrs r)) = rrset_key D r" by (simp add: rrset_of_def)
  then show ?thesis by (metis rrset_key_name)
qed

lemma collect_loop_sound:
  "collect_loop v sigs qname xs acc s = Some (acc', s') \<Longrightarrow> ks_trusted v anchors (vs_ks s) \<Longrightarrow>
     ks_trusted v anchors (vs_ks s') \<and>
     (\<forall>r \<in> set (fst acc') \<union> set (snd acc'). r \<in> set (fst acc) \<union> set (snd acc) \<or>
        (\<exists>(key, rrset) \<in> set xs. r \<in> set rrset \<and> (\<exists>sig \<in> set (sigs_at sigs key). signed_by v anchors qname rrset sig)))"
proof (induction xs arbitrary: acc s)
  case (Cons x xs)
  obtain key rrset where x: "x = (key, rrset)" by (cases x)
  show ?case
  proof (cases "rk_rrtype key \<noteq> TypeNSEC \<and> rk_rrtype key \<noteq> TypeNSEC3")
    case True
    with Cons.prems(1) x have run: "collect_loop v sigs qname xs acc s = Some (acc', s')" by simp
    from Cons.IH [OF run Cons.prems(2)] show ?thesis by auto
  next
    case False
    with Cons.prems(1) x obtain b s1 where l: "rrsetSignedFromAncestor v rrset (sigs_at sigs key) qname s = Some (b, s1)" and
      run: "collect_loop v sigs qname xs
        (if b then (fst acc @ filter (\<lambda>r. is_NSEC (rr_Data r)) rrset, snd acc @ filter (\<lambda>r. is_NSEC3 (rr_Data r)) rrset) else acc) s1 =
        Some (acc', s')"
      by (auto simp: bind_eq_Some_conv split: if_splits)
    note sound = rrsetSignedFromAncestor_sound [OF l Cons.prems(2)]
    with Cons.IH [OF run] x show ?thesis by (cases b) auto
  qed
qed simp

lemma validateDenial_sound:
  assumes "validateDenial v m s = Some (r, s')" "ks_trusted v anchors (vs_ks s)" "iteration_order v"
  shows "ks_trusted v anchors (vs_ks s') \<and> (r = None \<longrightarrow> authentic_denial v anchors m)"
proof (cases "m_Question m")
  case (Cons q qs)
  let ?name = "CanonicalName (v_sec v) (q_Name q)"
  obtain rrsets sigs where g: "groupRRsByTypeAndName (v_sec v) (m_Ns m) = (rrsets, sigs)" by fastforce
  from assms(1) Cons g obtain nsecs nsec3s s1 where
    c: "collect_loop v sigs ?name (v_order v rrsets) ([], []) s = Some ((nsecs, nsec3s), s1)" and
    run: "s' = s1 \<and> r = None \<and> (nsecProvesDenial (v_dns v) (v_sec v) nsecs ?name (q_Qtype q) (m_Rcode m) \<or>
            nsec3ProvesDenial (v_dns v) (v_sec v) nsec3s ?name (q_Qtype q) (m_Rcode m)) \<or>
          r \<noteq> None \<and> (\<exists>e. checkInsecureDelegation v ?name s1 = Some (e, s'))"
    by (auto simp: validateDenial_def collectVerifiedDenialRecords_def Let_def bind_eq_Some_conv split: if_splits option.splits)
  note sound = collect_loop_sound [OF c assms(2)]
  have "authentic v anchors (m_Ns m) ?name x" if "x \<in> set nsecs \<union> set nsec3s" for x
  proof -
    from sound that obtain key rrset sig where "(key, rrset) \<in> set (v_order v rrsets)" "x \<in> set rrset"
      "sig \<in> set (sigs_at sigs key)" "signed_by v anchors ?name rrset sig" by fastforce
    with assms(3) group_member [OF g] group_entry(2) [OF g, of x] show ?thesis
      by (auto simp: iteration_order_def authentic_def)
  qed
  with sound run Cons show ?thesis
    unfolding authentic_denial_def using checkInsecureDelegation_keeps [of v ?name s1] by blast
qed (use assms in \<open>auto simp: validateDenial_def\<close>)

text \<open>The invariant of the keystore is kept whatever the outcome, and an accepted answer is authentic.\<close>

lemma Validate_sound:
  assumes "Validate v m s = Some (r, s')" "ks_trusted v anchors (vs_ks s)" "iteration_order v"
  shows "ks_trusted v anchors (vs_ks s') \<and>
    (r = None \<longrightarrow> (if m_Answer m = [] then authentic_denial v anchors m else authentic_answer v anchors m))"
proof (cases "m_Answer m = []")
  case False
  obtain rrsets sigs where g: "groupRRsByTypeAndName (v_sec v) (m_Answer m) = (rrsets, sigs)" by fastforce
  with assms(1) False have l: "validate_loop v sigs (v_order v rrsets) s = Some (r, s')" by (simp add: Validate_def)
  note sound = validate_loop_sound [OF l assms(2)]
  have "authentic v anchors (m_Answer m) (CanonicalName (v_sec v) (rr_Name x)) x"
    if "r = None" "x \<in> set (m_Answer m)" "\<not> is_RRSIG (rr_Data x)" for x
  proof -
    have "(rrset_key (v_sec v) x, rrset_of (v_sec v) (m_Answer m) x) \<in> set (v_order v rrsets)"
      using group_entry(1) [OF g that(2,3)] assms(3) by (simp add: iteration_order_def)
    with sound that(1) obtain sig where "sig \<in> set (sigs_at sigs (rrset_key (v_sec v) x))"
      "signed_by v anchors (CanonicalName (v_sec v) (rr_Name (hd (rrset_of (v_sec v) (m_Answer m) x))))
         (rrset_of (v_sec v) (m_Answer m) x) sig"
      by blast
    then show ?thesis
      using that(2,3) group_entry(2) [OF g that(2,3)] hd_rrset_of_name [OF that(2,3)] by (auto simp: authentic_def)
  qed
  with sound False show ?thesis by (simp add: authentic_answer_def)
qed (use assms validateDenial_sound in \<open>simp add: Validate_def\<close>)

text \<open>A validator that only has its anchors satisfies the invariant.\<close>

definition root_anchors :: "'w Validator \<Rightarrow> keystore \<Rightarrow> RR list" where
  "root_anchors v ks = (case ke_ds (ks_getItem (v_sec v) ks ''.'') of None \<Rightarrow> [] | Some d \<Rightarrow> dd_records d)"

definition no_keys :: "keystore \<Rightarrow> bool" where
  "no_keys ks \<longleftrightarrow> (\<forall>zone item. map_of ks zone = Some item \<longrightarrow> ke_keys item = None)"

lemma no_keys_new [simp]: "no_keys newKeystore"
  by (simp add: no_keys_def newKeystore_def)

lemma no_keys_SetAnchor: "no_keys (vs_ks s) \<Longrightarrow> no_keys (vs_ks (SetAnchor v owner tag alg dt digest s))"
  by (auto simp: no_keys_def SetAnchor_def ks_addDS_def ks_getItem_def new_entry_def update_conv' Let_def split: option.splits)

lemma no_keys_trusted: "no_keys ks \<Longrightarrow> ks_trusted v (root_anchors v ks) ks"
  by (auto simp: no_keys_def ks_trusted_def root_anchors_def ks_getItem_def)

end
