(* ===== verification/DnssecResolver.thy ===== *)
theory DnssecResolver
  imports DnssecTrust ResolverGroups
begin

text \<open>
  The resolver that validates the answers of another: \<^verbatim>\<open>dnssec.go\<close>. The download of the anchors
  (\<^verbatim>\<open>dnssec-iana.go\<close>) is an argument of the constructor.
\<close>

section \<open>Construction\<close>

record TrustAnchor =
  ta_Owner :: string
  ta_Digest :: string
  ta_KeyTag :: u16
  ta_Algorithm :: u8
  ta_DigestType :: u8

record DNSSECValidatorOptions =
  do_TrustAnchors :: "TrustAnchor list"
  do_TrustAnchorURL :: string
  do_LogOnly :: bool

record 'w DNSSECValidator =
  dv_id :: string
  dv_resolver :: "'w resolver"
  dv_validator :: "'w Validator"
  dv_opt :: DNSSECValidatorOptions

text \<open>The state: that of the validator, and the two counters.\<close>

record 'w dnssec_state =
  dt_v :: "'w vstate"
  dt_success :: nat
  dt_failure :: nat

definition defaultTrustAnchors :: "TrustAnchor list" where
  "defaultTrustAnchors =
     [\<lparr>ta_Owner = ''.'', ta_Digest = ''E06D44B80B8F1D39A95C0B0D7C65D08458E880409BBC683457104237C7F8EC8D'',
       ta_KeyTag = 20326, ta_Algorithm = 8, ta_DigestType = 2\<rparr>,
      \<lparr>ta_Owner = ''.'', ta_Digest = ''683D2D0ACB8C9B712A1948B27F741219298D0A450D612C483AF444A4C0FB2B16'',
       ta_KeyTag = 38696, ta_Algorithm = 8, ta_DigestType = 2\<rparr>]"

definition no_client :: ClientInfo where
  "no_client = \<lparr>ci_SourceIP = [], ci_DoHPath = [], ci_TLSServerName = [], ci_Listener = [], ci_Protocol = [], ci_ListenerAddr = []\<rparr>"

text \<open>The function the validator looks keys up with.\<close>

definition lookup_with :: "'w resolver \<Rightarrow> Msg \<Rightarrow> 'w \<Rightarrow> (go_error + Msg) \<times> 'w" where
  "lookup_with resolver q w =
     (case r_Resolve resolver q no_client w of
        ((_, Some err), w') \<Rightarrow> (Inl err, w')
      | ((None, None), w') \<Rightarrow> (Inl (ErrOther ''lookup dropped by resolver''), w')
      | ((Some a, None), w') \<Rightarrow> (Inr a, w'))"

definition NewValidator ::
  "dnslib \<Rightarrow> dnsseclib \<Rightarrow> ('w \<Rightarrow> int) \<Rightarrow> ((rrsetKey \<times> RR list) list \<Rightarrow> (rrsetKey \<times> RR list) list) \<Rightarrow>
     (Msg \<Rightarrow> 'w \<Rightarrow> (go_error + Msg) \<times> 'w) \<Rightarrow> 'w Validator" where
  "NewValidator L D now order lookup =
     \<lparr>v_dns = L, v_sec = D, v_now = now, v_resolver = lookup, v_order = order\<rparr>"

definition NewDNSSECValidator ::
  "dnslib \<Rightarrow> dnsseclib \<Rightarrow> ('w \<Rightarrow> int) \<Rightarrow> ((rrsetKey \<times> RR list) list \<Rightarrow> (rrsetKey \<times> RR list) list) \<Rightarrow>
     (string \<Rightarrow> go_error + TrustAnchor list) \<Rightarrow> string \<Rightarrow> 'w resolver \<Rightarrow> DNSSECValidatorOptions \<Rightarrow> 'w \<Rightarrow>
     'w DNSSECValidator \<times> 'w dnssec_state" where
  "NewDNSSECValidator L D now order fetch ident resolver opt w =
     (let v = NewValidator L D now order (lookup_with resolver);
          anchors0 = do_TrustAnchors opt;
          anchors1 = (if anchors0 = [] \<and> do_TrustAnchorURL opt \<noteq> []
                      then (case fetch (do_TrustAnchorURL opt) of Inl err \<Rightarrow> [] | Inr as \<Rightarrow> as) else anchors0);
          anchors = (if anchors1 = [] then defaultTrustAnchors else anchors1);
          s = fold (\<lambda>ta. SetAnchor v (ta_Owner ta) (ta_KeyTag ta) (ta_Algorithm ta) (ta_DigestType ta) (ta_Digest ta)) anchors
                \<lparr>vs_ks = newKeystore, vs_w = w\<rparr>
      in (\<lparr>dv_id = ident, dv_resolver = resolver, dv_validator = v, dv_opt = opt\<rparr>,
          \<lparr>dt_v = s, dt_success = 0, dt_failure = 0\<rparr>))"

section \<open>Resolve\<close>

definition filterDNSSECRR :: "RR list \<Rightarrow> u16 \<Rightarrow> RR list" where
  "filterDNSSECRR rrs qtype =
     filter (\<lambda>rr. is_opt rr \<or> rr_Rrtype rr = qtype \<or>
       \<not> (rr_Rrtype rr = TypeRRSIG \<or> rr_Rrtype rr = TypeNSEC \<or> rr_Rrtype rr = TypeNSEC3)) rrs"

definition stripDNSSEC :: "dnslib \<Rightarrow> Msg \<Rightarrow> bool \<Rightarrow> bool \<Rightarrow> u16 \<Rightarrow> Msg" where
  "stripDNSSEC L answer clientSetDo clientHadEdns0 qtype =
     (if clientSetDo then answer
      else let a = answer\<lparr>m_Answer := filterDNSSECRR (m_Answer answer) qtype,
                          m_Ns := filterDNSSECRR (m_Ns answer) qtype,
                          m_Extra := filterDNSSECRR (m_Extra answer) qtype\<rparr>
           in if \<not> clientHadEdns0 then a\<lparr>m_Extra := filter (\<lambda>rr. \<not> is_opt rr) (m_Extra a)\<rparr>
              else case IsEdns0 L a of
                     None \<Rightarrow> a
                   | Some i \<Rightarrow> a\<lparr>m_Extra := (m_Extra a)[i := set_Ttl (rr_Ttl (m_Extra a ! i) AND NOT (push_bit 15 1)) (m_Extra a ! i)]\<rparr>)"

definition client_do :: "dnslib \<Rightarrow> Msg \<Rightarrow> bool" where
  "client_do L q = (case IsEdns0 L q of None \<Rightarrow> False | Some i \<Rightarrow> OPT_Do L (m_Extra q ! i))"

definition dnssec_query :: "dnslib \<Rightarrow> Msg \<Rightarrow> Msg" where
  "dnssec_query L q =
     (case IsEdns0 L q of
        None \<Rightarrow> SetEdns0 L q 4096 True
      | Some i \<Rightarrow> q\<lparr>m_Extra := (m_Extra q)[i := OPT_SetDo L (OPT_SetUDPSize L (m_Extra q ! i) 4096)]\<rparr>)"

text \<open>What is done with an answer of the upstream resolver.\<close>

definition validate_answer ::
  "'w DNSSECValidator \<Rightarrow> Msg \<Rightarrow> u16 \<Rightarrow> Msg \<Rightarrow> 'w dnssec_state \<Rightarrow> (reply \<times> 'w dnssec_state) option" where
  "validate_answer r q qtype answer s =
     (let L = v_dns (dv_validator r);
          strip = (\<lambda>a. stripDNSSEC L a (client_do L q) (IsEdns0 L q \<noteq> None) qtype)
      in if m_Rcode answer \<noteq> RcodeSuccess \<and> m_Rcode answer \<noteq> RcodeNameError then Some ((Some (strip answer), None), s)
         else do {
           (err, v') \<leftarrow> Validate (dv_validator r) answer (dt_v s);
           Some (case err of
               Some e \<Rightarrow>
                 if e = ErrInsecureDelegation then ((Some (strip answer), None), s\<lparr>dt_v := v'\<rparr>)
                 else ((Some (if \<not> do_LogOnly (dv_opt r) then servfail L q else strip answer), None),
                       s\<lparr>dt_v := v', dt_failure := Suc (dt_failure s)\<rparr>)
             | None \<Rightarrow> ((Some (strip (answer\<lparr>m_AuthenticatedData := True\<rparr>)), None),
                        s\<lparr>dt_v := v', dt_success := Suc (dt_success s)\<rparr>))
         })"

definition DNSSECValidator_Resolve ::
  "'w DNSSECValidator \<Rightarrow> Msg \<Rightarrow> ClientInfo \<Rightarrow> 'w dnssec_state \<Rightarrow> (reply \<times> 'w dnssec_state) option" where
  "DNSSECValidator_Resolve r q ci s =
     (case m_Question q of
        [] \<Rightarrow> Some (panic, s)
      | question # _ \<Rightarrow>
          (case r_Resolve (dv_resolver r) (dnssec_query (v_dns (dv_validator r)) q) ci (vs_w (dt_v s)) of
             ((answer, err), w') \<Rightarrow>
               (let s1 = s\<lparr>dt_v := (dt_v s)\<lparr>vs_w := w'\<rparr>\<rparr>
                in case (answer, err) of
                     (Some a, None) \<Rightarrow> validate_answer r q (q_Qtype question) a s1
                   | _ \<Rightarrow> Some ((answer, err), s1))))"

section \<open>A concrete tree of zones\<close>

text \<open>
  A root zone with the keys \<^verbatim>\<open>rz\<close> and \<^verbatim>\<open>rk\<close>. It signs the DS record of the zone \<^verbatim>\<open>a.\<close> and a denial of
  the DS record of \<^verbatim>\<open>b.\<close>. The answer to the query for the DS records of \<^verbatim>\<open>v.\<close> has the DS record of
  \<^verbatim>\<open>a.\<close> in place of them, and the keys served for \<^verbatim>\<open>v.\<close> are \<^verbatim>\<open>x\<close> and \<^verbatim>\<open>y\<close>.
\<close>

definition ref_sig :: "string \<Rightarrow> u16 \<Rightarrow> string \<Rightarrow> string \<Rightarrow> RR" where
  "ref_sig name covered signer key = ref_rr name TypeRRSIG 60 (RRSIG covered 8 7 signer 0 10 key)"

definition ref_dnskey :: "string \<Rightarrow> u16 \<Rightarrow> string \<Rightarrow> RR" where
  "ref_dnskey name flags key = ref_rr name TypeDNSKEY 60 (DNSKEY flags 8 key)"

definition ref_zone :: "string \<Rightarrow> u16 \<Rightarrow> RR list \<times> RR list" where
  "ref_zone name t =
     (if name = ''.'' \<and> t = TypeDNSKEY
      then ([ref_dnskey ''.'' 256 ''rz'', ref_dnskey ''.'' 257 ''rk'', ref_sig ''.'' TypeDNSKEY ''.'' ''rk''], [])
      else if name = ''v.'' \<and> t = TypeDNSKEY
      then ([ref_dnskey ''v.'' 256 ''x'', ref_dnskey ''v.'' 257 ''y'', ref_sig ''v.'' TypeDNSKEY ''v.'' ''y''], [])
      else if name = ''v.'' \<and> t = TypeDS
      then ([ref_rr ''a.'' TypeDS 60 (DS 7 8 2 ''v.y''), ref_sig ''a.'' TypeDS ''.'' ''rz''], [])
      else if name = ''b.'' \<and> t = TypeDS
      then ([], [ref_rr ''b.'' TypeNSEC 60 (NSEC ''c.'' [TypeNS]), ref_sig ''b.'' TypeNSEC ''.'' ''rz''])
      else ([], []))"

definition ref_serve :: "Msg \<Rightarrow> Msg" where
  "ref_serve q =
     (case ref_zone (q_Name (hd (m_Question q))) (q_Qtype (hd (m_Question q))) of
        (answer, ns) \<Rightarrow> (ref_SetReply new_Msg q)\<lparr>m_Answer := answer, m_Ns := ns\<rparr>)"

definition ref_validator :: "((rrsetKey \<times> RR list) list \<Rightarrow> (rrsetKey \<times> RR list) list) \<Rightarrow> unit Validator" where
  "ref_validator order = NewValidator ref_lib ref_seclib (\<lambda>w. 5000000000) order (\<lambda>q w. (Inr (ref_serve q), w))"

definition ref_vstate :: "unit vstate" where
  "ref_vstate = SetAnchor (ref_validator id) ''.'' 7 8 2 ''.rk'' \<lparr>vs_ks = newKeystore, vs_w = ()\<rparr>"

definition ref_dv :: "(Msg \<Rightarrow> Msg) \<Rightarrow> unit DNSSECValidator" where
  "ref_dv f =
     \<lparr>dv_id = ''dnssec'', dv_resolver = \<lparr>r_String = ''up'', r_Resolve = (\<lambda>q ci w. ((Some (f q), None), w))\<rparr>,
      dv_validator = ref_validator id, dv_opt = \<lparr>do_TrustAnchors = [], do_TrustAnchorURL = [], do_LogOnly = False\<rparr>\<rparr>"

definition ref_dstate :: "unit dnssec_state" where
  "ref_dstate = \<lparr>dt_v = ref_vstate, dt_success = 0, dt_failure = 0\<rparr>"

lemma ref_dv_simps [simp]:
  "dv_validator (ref_dv f) = ref_validator id" "do_LogOnly (dv_opt (ref_dv f)) = False"
  "r_Resolve (dv_resolver (ref_dv f)) q ci w = ((Some (f q), None), w)" "v_sec (ref_validator ord) = ref_seclib"
  "v_dns (ref_validator ord) = ref_lib" "dt_v ref_dstate = ref_vstate" "iteration_order (ref_validator id)"
  by (simp_all add: ref_dv_def ref_validator_def NewValidator_def ref_dstate_def iteration_order_def)

lemma ref_vstate_trusted:
  "ks_trusted (ref_validator id) (root_anchors (ref_validator id) (vs_ks ref_vstate)) (vs_ks ref_vstate)"
  by (auto simp: ref_vstate_def intro!: no_keys_trusted no_keys_SetAnchor)

section \<open>Answers\<close>

lemma stripDNSSEC_fields [simp]:
  "m_AuthenticatedData (stripDNSSEC L a d h t) = m_AuthenticatedData a" "m_Rcode (stripDNSSEC L a d h t) = m_Rcode a"
  "m_Answer (stripDNSSEC L a d h t) = (if d then m_Answer a else filterDNSSECRR (m_Answer a) t)"
  by (auto simp: stripDNSSEC_def Let_def split: option.splits)

lemma filterDNSSECRR_subset: "set (filterDNSSECRR rrs t) \<subseteq> set rrs"
  by (auto simp: filterDNSSECRR_def)

lemma fold_SetAnchor_no_keys:
  "no_keys (vs_ks s) \<Longrightarrow>
     no_keys (vs_ks (fold (\<lambda>ta. SetAnchor v (ta_Owner ta) (ta_KeyTag ta) (ta_Algorithm ta) (ta_DigestType ta) (ta_Digest ta)) tas s))"
  by (induction tas arbitrary: s) (auto intro: no_keys_SetAnchor)

lemma NewDNSSECValidator_trusted:
  "NewDNSSECValidator L D now order fetch ident resolver opt w = (r, s) \<Longrightarrow>
     ks_trusted (dv_validator r) (root_anchors (dv_validator r) (vs_ks (dt_v s))) (vs_ks (dt_v s))"
  by (auto simp: NewDNSSECValidator_def Let_def intro!: no_keys_trusted fold_SetAnchor_no_keys)

lemma validate_answer_authentic:
  assumes "validate_answer r q t a s = Some (reply, s')" "iteration_order (dv_validator r)"
    "ks_trusted (dv_validator r) anchors (vs_ks (dt_v s))" "m_Rcode a = RcodeSuccess \<or> m_Rcode a = RcodeNameError"
    "\<not> do_LogOnly (dv_opt r)"
  shows "ks_trusted (dv_validator r) anchors (vs_ks (dt_v s')) \<and>
    (\<exists>m. reply = (Some m, None) \<and>
      (m = servfail (v_dns (dv_validator r)) q \<or>
       (\<exists>v'. Validate (dv_validator r) a (dt_v s) = Some (Some ErrInsecureDelegation, v')) \<or>
       m_AuthenticatedData m \<and> m_Rcode m = m_Rcode a \<and> set (m_Answer m) \<subseteq> set (m_Answer a) \<and>
       (if m_Answer a = [] then authentic_denial (dv_validator r) anchors a else authentic_answer (dv_validator r) anchors a)))"
proof -
  from assms(1,4) obtain err v' where V: "Validate (dv_validator r) a (dt_v s) = Some (err, v')"
    by (auto simp: validate_answer_def Let_def bind_eq_Some_conv)
  note sound = Validate_sound [OF V assms(3,2)]
  show ?thesis
  proof (cases err)
    case None
    with assms(1,4) V sound filterDNSSECRR_subset [of "m_Answer a" t] show ?thesis
      by (auto simp: validate_answer_def Let_def)
  next
    case (Some e)
    with assms(1,4,5) V sound show ?thesis
      by (cases "e = ErrInsecureDelegation") (auto simp: validate_answer_def Let_def)
  qed
qed


lemma DNSSECValidator_Resolve_not_None:
  assumes "CanonicalName_law (v_sec (dv_validator r))"
  shows "\<exists>reply s'. DNSSECValidator_Resolve r q ci s = Some (reply, s')"
proof -
  have "validate_answer r q t a s1 \<noteq> None" for t a s1
    using Validate_not_None [OF assms]
    by (auto simp: validate_answer_def Let_def bind_eq_None_conv iff del: not_None_eq split: prod.splits)
  then have "DNSSECValidator_Resolve r q ci s \<noteq> None"
    by (auto simp: DNSSECValidator_Resolve_def Let_def iff del: not_None_eq split: list.splits prod.splits option.splits)
  then show ?thesis by auto
qed


text \<open>
  C4: Every query is answered: building a chain of trust asks for the keys of a zone and of the zones above it,
  each name shorter than the one before, and ends at the root, so the validating resolver always returns,
  whatever the upstream resolver answers.
\<close>

theorem DNSSECValidator_returns:
  assumes "CanonicalName_law (v_sec (dv_validator r))"
  shows "\<exists>reply s'. DNSSECValidator_Resolve r q ci s = Some (reply, s')"
  using assms by (rule DNSSECValidator_Resolve_not_None)

theorem DNSSECValidator_returns_witness:
  "\<exists>reply s'. DNSSECValidator_Resolve (ref_dv ref_serve) (ref_query ''v.'' TypeDS) ref_client ref_dstate = Some (reply, s')"
  using DNSSECValidator_returns [of "ref_dv ref_serve"] by simp

section \<open>Answers that are accepted without proof\<close>

lemma groupRRs_signatures:
  "\<forall>r \<in> set rrs. is_RRSIG (rr_Data r) \<Longrightarrow> fst (groupRRsByTypeAndName D rrs) = []"
  by (induction rrs rule: rev_induct) (auto simp: groupRRsByTypeAndName_def split: prod.splits)

lemma Validate_signatures_only:
  assumes "m_Answer a \<noteq> []" "\<forall>r \<in> set (m_Answer a). is_RRSIG (rr_Data r)" "iteration_order v"
  shows "Validate v a s = Some (None, s)"
proof -
  have "v_order v [] = []" using assms(3) unfolding iteration_order_def by (metis length_0_conv)
  with assms(1) groupRRs_signatures [OF assms(2), of "v_sec v"] show ?thesis
    by (cases "groupRRsByTypeAndName (v_sec v) (m_Answer a)") (simp add: Validate_def)
qed

text \<open>
  C37: An answer section that has only signatures is accepted with nothing verified: the loop over the RRsets has
  none to check, and the check of negative answers is only made for an empty section. A client that does not
  set the DO bit and does not ask for signatures gets the empty answer, NXDOMAIN or no data, marked as
  authentic.
\<close>

theorem DNSSECValidator_forged_denial:
  assumes "r_Resolve (dv_resolver r) (dnssec_query (v_dns (dv_validator r)) q) ci (vs_w (dt_v s)) = ((Some a, None), w')"
    "m_Question q = question # qs" "q_Qtype question \<noteq> TypeRRSIG" "\<not> client_do (v_dns (dv_validator r)) q"
    "m_Rcode a = RcodeSuccess \<or> m_Rcode a = RcodeNameError" "iteration_order (dv_validator r)" "m_Answer a \<noteq> []"
    "\<forall>x \<in> set (m_Answer a). is_RRSIG (rr_Data x) \<and> rr_Rrtype x = TypeRRSIG"
  shows "\<exists>m s'. DNSSECValidator_Resolve r q ci s = Some ((Some m, None), s') \<and>
    m_AuthenticatedData m \<and> m_Rcode m = m_Rcode a \<and> m_Answer m = []"
proof -
  have "Validate (dv_validator r) a ((dt_v s)\<lparr>vs_w := w'\<rparr>) = Some (None, (dt_v s)\<lparr>vs_w := w'\<rparr>)"
    using Validate_signatures_only assms(6-8) by blast
  moreover have "filterDNSSECRR (m_Answer a) (q_Qtype question) = []"
    using assms(3,8) by (auto simp: filterDNSSECRR_def filter_empty_conv is_opt_def)
  ultimately show ?thesis
    using assms(1,2,4,5) by (auto simp: DNSSECValidator_Resolve_def validate_answer_def Let_def)
qed

definition ref_signatures :: "Msg \<Rightarrow> Msg" where
  "ref_signatures q = (ref_reply q [ref_sig ''v.'' TypeA ''v.'' []])\<lparr>m_Rcode := RcodeNameError\<rparr>"

theorem DNSSECValidator_forged_denial_witness:
  "\<exists>m s'. DNSSECValidator_Resolve (ref_dv ref_signatures) (ref_query ''v.'' TypeA) ref_client ref_dstate = Some ((Some m, None), s') \<and>
     m_AuthenticatedData m \<and> m_Rcode m = RcodeNameError \<and> m_Answer m = []"
  using DNSSECValidator_forged_denial [of "ref_dv ref_signatures" "ref_query ''v.'' TypeA" ref_client ref_dstate
      "ref_signatures (dnssec_query ref_lib (ref_query ''v.'' TypeA))" "()"]
  by (simp add: ref_query_def ref_signatures_def ref_reply_def ref_sig_def ref_rr_def client_do_def ref_lib_def new_Msg_def)



end
