(* ===== verification/Endpoints.thy ===== *)
theory Endpoints
  imports NetParse Dns
begin

text \<open>
  \<^verbatim>\<open>validate.go\<close>: the check of endpoint addresses and host names in a configuration. A byte of a character
  outside ASCII is refused like the character is.
\<close>

definition host_char :: "char \<Rightarrow> bool" where
  "host_char c \<longleftrightarrow> is_digit c \<or> is_lower c \<or> is_upper c \<or> c = CHR ''-''"

text \<open>The loop over the characters of a label.\<close>

fun label_loop :: "string \<Rightarrow> string \<Rightarrow> go_error option" where
  "label_loop label [] = None"
| "label_loop label (c # cs) =
     (if label = [] then Some (ErrOther ''empty label'')
      else if HasPrefix label ''-'' \<or> HasSuffix label ''-'' then Some (ErrOther ''label can not start or end with -'')
      else if host_char c then label_loop label cs
      else Some (ErrOther ''invalid character''))"

fun labels_check :: "string list \<Rightarrow> go_error option" where
  "labels_check [] = None"
| "labels_check (label # labels) = (case label_loop label label of Some err \<Rightarrow> Some err | None \<Rightarrow> labels_check labels)"

definition validHostname :: "string \<Rightarrow> go_error option" where
  "validHostname name =
     (if name = [] then Some (ErrOther ''hostname empty'')
      else if 255 < length name then Some (ErrOther ''too long'')
      else let labels = Split CHR ''.'' (TrimSuffix name ''.'')
           in case labels_check labels of
                Some err \<Rightarrow> Some err
              | None \<Rightarrow> if \<exists>c \<in> set (last labels). \<not> is_digit c then None
                         else Some (ErrOther ''last label can not be all numeric''))"

definition validEndpoint :: "string \<Rightarrow> go_error option" where
  "validEndpoint addr =
     (case SplitHostPort addr of
        None \<Rightarrow> Some (ErrOther ''address'')
      | Some (host, port) \<Rightarrow>
          (case ParseUint 16 port of
             None \<Rightarrow> Some (ErrOther ''invalid port'')
           | Some _ \<Rightarrow> if ParseIP host \<noteq> [] then None else validHostname host))"

text \<open>What is accepted. A label may be empty: the test for that is inside the loop over its characters.\<close>

definition host_label :: "string \<Rightarrow> bool" where
  "host_label label \<longleftrightarrow>
     label = [] \<or> (\<forall>c \<in> set label. host_char c) \<and> \<not> HasPrefix label ''-'' \<and> \<not> HasSuffix label ''-''"

lemma label_loop_None:
  "label_loop label cs = None \<longleftrightarrow>
     cs = [] \<or> label \<noteq> [] \<and> \<not> HasPrefix label ''-'' \<and> \<not> HasSuffix label ''-'' \<and> (\<forall>c \<in> set cs. host_char c)"
  by (induction cs) auto

lemma labels_check_None: "labels_check labels = None \<longleftrightarrow> (\<forall>label \<in> set labels. host_label label)"
proof (induction labels)
  case (Cons label labels)
  have "label_loop label label = None \<longleftrightarrow> host_label label" by (auto simp: label_loop_None host_label_def)
  with Cons show ?case by (cases "label_loop label label") auto
qed simp

theorem validHostname_iff:
  "validHostname name = None \<longleftrightarrow>
     name \<noteq> [] \<and> length name \<le> 255 \<and> (\<forall>label \<in> set (Split CHR ''.'' (TrimSuffix name ''.'')). host_label label) \<and>
     (\<exists>c \<in> set (last (Split CHR ''.'' (TrimSuffix name ''.''))). \<not> is_digit c)"
  by (auto simp: validHostname_def Let_def labels_check_None [symmetric] split: option.splits)

lemma validHostname_empty_label: "validHostname ''a..b'' = None"
  by code_simp

end
