(* ===== verification/Listeners.thy ===== *)
theory Listeners
  imports Edns
begin

text \<open>
  The handler of the DNS listeners of \<^verbatim>\<open>dnslistener.go\<close>, which serves plain DNS, DoT and DTLS. The truncation
  of a message is a method of the DNS library and an argument.
\<close>

section \<open>Handler\<close>

record listenerMetrics =
  lm_query :: nat
  lm_response :: "string \<Rightarrow> nat"
  lm_drop :: nat
  lm_err :: "string \<Rightarrow> nat"
  lm_maxQueueLen :: nat

text \<open>The name of a response code in the table of the DNS library, or its number.\<close>

definition rCode :: "(int \<Rightarrow> string option) \<Rightarrow> Msg \<Rightarrow> string" where
  "rCode RcodeToString r =
     (case RcodeToString (m_Rcode r) of
        Some result \<Rightarrow> result
      | None \<Rightarrow> if m_Rcode r < 0 then ''-'' @ Itoa (nat (- m_Rcode r)) else Itoa (nat (m_Rcode r)))"

text \<open>The types of address a response writer can have that the handler tells apart.\<close>

datatype remote_addr = TCPAddr IP | UDPAddr IP | OtherAddr

fun SourceIP_of :: "remote_addr \<Rightarrow> IP" where
  "SourceIP_of (TCPAddr ip) = ip"
| "SourceIP_of (UDPAddr ip) = ip"
| "SourceIP_of OtherAddr = []"

definition isAllowed :: "IPNet list \<Rightarrow> IP \<Rightarrow> bool" where
  "isAllowed allowedNet ip \<longleftrightarrow> allowedNet = [] \<or> (\<exists>n \<in> set allowedNet. Contains n ip)"

text \<open>What the client sees: nothing, a closed connection, or a message. A panic is not recovered.\<close>

datatype handled = Ignored | Closed | Written Msg | Panicked

definition listener_err :: "string \<Rightarrow> listenerMetrics \<Rightarrow> listenerMetrics" where
  "listener_err e m = m\<lparr>lm_err := (lm_err m)(e := Suc (lm_err m e))\<rparr>"

abbreviation (input) MinMsgSize :: nat where "MinMsgSize \<equiv> 512"

definition max_size :: "dnslib \<Rightarrow> Msg \<Rightarrow> nat" where
  "max_size L req = (case edns0_of L req of None \<Rightarrow> MinMsgSize | Some edns0 \<Rightarrow> unat (OPT_UDPSize L edns0))"

text \<open>The end of the handler: padding, truncation and the write.\<close>

definition write_answer ::
  "dnslib \<Rightarrow> (Msg \<Rightarrow> nat \<Rightarrow> Msg) \<Rightarrow> (int \<Rightarrow> string option) \<Rightarrow> string \<Rightarrow> Msg \<Rightarrow> Msg option \<Rightarrow> listenerMetrics \<Rightarrow>
   handled \<times> listenerMetrics" where
  "write_answer L Truncate RcodeToString protocol req answer m =
     (case answer of
        None \<Rightarrow> (Closed, m\<lparr>lm_drop := Suc (lm_drop m)\<rparr>)
      | Some a \<Rightarrow>
          (case (if protocol = ''dot'' \<or> protocol = ''dtls'' then padAnswer L req a else Some (stripPadding L a)) of
             None \<Rightarrow> (Panicked, m)
           | Some a1 \<Rightarrow>
               (let a2 = (if protocol = ''udp'' \<or> protocol = ''dtls'' then Truncate a1 (max_size L req) else a1);
                    code = rCode RcodeToString a2
                in (Written a2, m\<lparr>lm_response := (lm_response m)(code := Suc (lm_response m code))\<rparr>))))"

text \<open>
  The resolver reads the query and does not write to it, which is the contract the resolvers that modify a
  query keep by modifying a copy.
\<close>

definition listenHandler ::
  "dnslib \<Rightarrow> (Msg \<Rightarrow> nat \<Rightarrow> Msg) \<Rightarrow> (int \<Rightarrow> string option) \<Rightarrow> string \<Rightarrow> string \<Rightarrow> string \<Rightarrow> 'w resolver \<Rightarrow> IPNet list \<Rightarrow>
   string option \<Rightarrow> remote_addr \<Rightarrow> Msg \<Rightarrow> listenerMetrics \<Rightarrow> 'w \<Rightarrow> handled \<times> listenerMetrics \<times> 'w" where
  "listenHandler L Truncate RcodeToString ident protocol addr r allowedNet connState remote req m w =
     (let ci = \<lparr>ci_SourceIP = SourceIP_of remote, ci_DoHPath = [],
                ci_TLSServerName = (case connState of None \<Rightarrow> [] | Some ServerName \<Rightarrow> ServerName),
                ci_Listener = ident, ci_Protocol = protocol, ci_ListenerAddr = addr\<rparr>
      in if m_Question req = [] then (Ignored, listener_err ''noquestion'' m, w)
         else
           let m1 = m\<lparr>lm_query := Suc (lm_query m)\<rparr>;
               finish = (\<lambda>answer m2 w'. case write_answer L Truncate RcodeToString protocol req answer m2 of (h, m3) \<Rightarrow> (h, m3, w'))
           in if isAllowed allowedNet (ci_SourceIP ci)
              then (case r_Resolve r req ci w of
                      ((a, err), w') \<Rightarrow>
                        (case err of
                           Some e \<Rightarrow> if e = Panic then (Panicked, m1, w')
                                     else finish (Some (servfail L req)) (listener_err ''resolve'' m1) w'
                         | None \<Rightarrow> finish a m1 w'))
              else finish (Some (SetRcode L new_Msg req RcodeRefused)) (listener_err ''acl'' m1) w)"

section \<open>Access control\<close>

text \<open>Documented: truncation removes records and sets the TC bit.\<close>

definition Truncate_law :: "(Msg \<Rightarrow> nat \<Rightarrow> Msg) \<Rightarrow> bool" where
  "Truncate_law Truncate \<longleftrightarrow>
     (\<forall>m n. m_Id (Truncate m n) = m_Id m \<and> m_Rcode (Truncate m n) = m_Rcode m \<and> m_Question (Truncate m n) = m_Question m \<and>
        set (m_Answer (Truncate m n)) \<subseteq> set (m_Answer m) \<and> set (m_Ns (Truncate m n)) \<subseteq> set (m_Ns m))"

text \<open>The parts of a message that padding leaves as they are.\<close>

definition same_reply :: "Msg \<Rightarrow> Msg \<Rightarrow> bool" where
  "same_reply a b \<longleftrightarrow>
     m_Id a = m_Id b \<and> m_Rcode a = m_Rcode b \<and> m_Question a = m_Question b \<and> m_Answer a = m_Answer b \<and> m_Ns a = m_Ns b"

lemma same_reply_options [simp]: "same_reply (with_options a i opts) b = same_reply a b"
  by (simp add: same_reply_def with_options_def)

lemma same_reply_stripPadding [simp]: "same_reply (stripPadding L a) b = same_reply a b"
  by (simp add: stripPadding_def map_options_def split: option.split)

lemma padAnswer_bare:
  assumes "SetEdns0_law L" "IsEdns0_law L" "m_Extra a = []"
  shows "\<exists>a'. padAnswer L q a = Some a' \<and> same_reply a' a"
proof (cases "edns0_of L q")
  case None
  then show ?thesis by (simp add: padAnswer_def same_reply_def)
next
  case (Some edns0)
  have none: "IsEdns0 L a = None"
    using assms(2,3) unfolding IsEdns0_law_def by (metis length_0_conv not_less_zero option.exhaust)
  obtain r where r: "SetEdns0 L a (OPT_UDPSize L edns0) (OPT_Do L edns0) = a\<lparr>m_Extra := m_Extra a @ [r]\<rparr>"
    "opt_Option (rr_Data r) = []"
    "IsEdns0 L (SetEdns0 L a (OPT_UDPSize L edns0) (OPT_Do L edns0)) = Some (length (m_Extra a))"
    using assms(1) unfolding SetEdns0_law_def by metis
  have "same_reply (a\<lparr>m_Extra := m_Extra a @ [r]\<rparr>) a" by (simp add: same_reply_def)
  with Some none r show ?thesis by (simp add: padAnswer_def Let_def)
qed

text \<open>A reply without records gets to the client with its identifier and code over every protocol.\<close>

lemma write_answer_bare:
  assumes "SetEdns0_law L" "IsEdns0_law L" "Truncate_law Truncate" "m_Answer a = []" "m_Ns a = []" "m_Extra a = []"
  shows "\<exists>a' m'. write_answer L Truncate RcodeToString protocol req (Some a) m = (Written a', m') \<and>
    m_Rcode a' = m_Rcode a \<and> m_Id a' = m_Id a \<and> m_Question a' = m_Question a \<and> m_Answer a' = [] \<and> m_Ns a' = [] \<and>
    lm_err m' = lm_err m \<and> lm_query m' = lm_query m \<and> lm_drop m' = lm_drop m"
proof -
  obtain padded where "padAnswer L req a = Some padded" "same_reply padded a"
    using padAnswer_bare [OF assms(1,2,6)] by blast
  then obtain a1 where a1: "(if protocol = ''dot'' \<or> protocol = ''dtls'' then padAnswer L req a else Some (stripPadding L a)) = Some a1"
    "same_reply a1 a"
    by (cases "protocol = ''dot'' \<or> protocol = ''dtls''") (auto simp: same_reply_def [of a a])
  have trunc: "m_Id (Truncate a1 n) = m_Id a1" "m_Rcode (Truncate a1 n) = m_Rcode a1" "m_Question (Truncate a1 n) = m_Question a1"
    "set (m_Answer (Truncate a1 n)) \<subseteq> set (m_Answer a1)" "set (m_Ns (Truncate a1 n)) \<subseteq> set (m_Ns a1)" for n
    using assms(3) by (simp_all add: Truncate_law_def)
  show ?thesis
    using a1 assms(4,5) trunc [of "max_size L req"] by (auto simp: write_answer_def Let_def same_reply_def)
qed

lemma SetRcode_new:
  assumes "SetReply_law L" "SetRcode_law L"
  shows "m_Rcode (SetRcode L new_Msg req rc) = rc" "m_Id (SetRcode L new_Msg req rc) = m_Id req"
    "m_Answer (SetRcode L new_Msg req rc) = []" "m_Ns (SetRcode L new_Msg req rc) = []" "m_Extra (SetRcode L new_Msg req rc) = []"
  using assms by (simp_all add: SetReply_law_def SetRcode_law_def new_Msg_def)


text \<open>A client outside the one allowed network.\<close>

definition ref_metrics :: listenerMetrics where
  "ref_metrics = \<lparr>lm_query = 0, lm_response = (\<lambda>_. 0), lm_drop = 0, lm_err = (\<lambda>_. 0), lm_maxQueueLen = 0\<rparr>"

abbreviation ref_net :: IPNet where
  "ref_net \<equiv> \<lparr>n_IP = [192, 0, 2, 0], n_Mask = [255, 255, 255, 0]\<rparr>"


end
