(* ===== verification/FastestTcp.thy ===== *)
theory FastestTcp
  imports RefLib "HOL-Library.Multiset"
begin

text \<open>
  The resolver of \<^verbatim>\<open>fastest-tcp.go\<close>, which orders the addresses of a response by how fast they accept TCP
  connections. Go compares and changes records through pointers: a record here is its position in the answer
  section, and the answer section is the store. The network is an argument: given the port and the addresses it
  says which connections were opened or refused, in the order of arrival, until the timeout.
\<close>

section \<open>Probing\<close>

abbreviation (input) fastestTCPMaxProbes :: nat where "fastestTCPMaxProbes \<equiv> 32"

text \<open>A port is a natural number.\<close>

record FastestTCPOptions =
  fo_Port :: nat
  fo_WaitAll :: bool
  fo_SuccessTTLMin :: u32

record 'w FastestTCP =
  ft_id :: string
  ft_resolver :: "'w resolver"
  ft_opt :: FastestTCPOptions
  ft_port :: string

definition NewFastestTCP :: "string \<Rightarrow> 'w resolver \<Rightarrow> FastestTCPOptions \<Rightarrow> 'w FastestTCP" where
  "NewFastestTCP ident resolver opt =
     (let port = Itoa (fo_Port opt)
      in \<lparr>ft_id = ident, ft_resolver = resolver, ft_opt = opt, ft_port = (if port = ''0'' then ''443'' else port)\<rparr>)"

text \<open>The network and the address of a probe; none for a record of another Go type.\<close>

fun probe_target :: "rdata \<Rightarrow> (string \<times> string) option" where
  "probe_target (A ip) = Some (''tcp4'', IP_String ip)"
| "probe_target (AAAA ip) = Some (''tcp6'', IP_String ip)"
| "probe_target _ = None"

type_synonym 'w dialer = "string \<Rightarrow> (string \<times> string) option list \<Rightarrow> 'w \<Rightarrow> (nat \<times> bool) list \<times> 'w"

text \<open>
  The results on the channel, in the order of arrival: a record whose address accepted the connection, or an
  error without a record. \<^verbatim>\<open>rrs\<close> holds the positions of the records.
\<close>

definition probe :: "'w dialer \<Rightarrow> string \<Rightarrow> RR list \<Rightarrow> nat list \<Rightarrow> 'w \<Rightarrow> nat option list \<times> 'w" where
  "probe dial port answer rrs w =
     (let targets = map (\<lambda>i. probe_target (rr_Data (answer ! i))) rrs
      in case dial port targets w of
           (arrivals, w') \<Rightarrow>
             (map (\<lambda>(j, ok). if targets ! j \<noteq> None \<and> ok then Some (rrs ! j) else None) arrivals, w'))"

text \<open>The loop that puts a record at the top of the list; the record in hand changes with every step.\<close>

fun reorder :: "'a \<Rightarrow> 'a list \<Rightarrow> 'a list" where
  "reorder rr [] = []"
| "reorder rr (x # xs) = (if x = rr then x # xs else rr # reorder x xs)"

definition probeFastest :: "nat list \<Rightarrow> nat option list \<Rightarrow> nat list option" where
  "probeFastest rrs results =
     (case results of
        [] \<Rightarrow> None
      | None # _ \<Rightarrow> None
      | Some rr # _ \<Rightarrow> Some (reorder rr rrs))"

fun probeAll_loop :: "nat list \<Rightarrow> nat option list \<Rightarrow> nat list \<Rightarrow> nat list option" where
  "probeAll_loop [] _ results = Some results"
| "probeAll_loop (_ # rrs) [] results = None"
| "probeAll_loop (_ # rrs) (None # ch) results = None"
| "probeAll_loop (_ # rrs) (Some rr # ch) results = probeAll_loop rrs ch (results @ [rr])"

definition probeAll :: "nat list \<Rightarrow> nat option list \<Rightarrow> nat list option" where
  "probeAll rrs ch = probeAll_loop rrs ch []"

section \<open>Resolver\<close>

fun ip_rrs :: "u16 \<Rightarrow> nat \<Rightarrow> RR list \<Rightarrow> nat list \<Rightarrow> nat list" where
  "ip_rrs qtype i [] ipRRs = ipRRs"
| "ip_rrs qtype i (rr # rrs) ipRRs =
     (if rr_Rrtype rr = qtype
      then if fastestTCPMaxProbes \<le> length (ipRRs @ [i]) then ipRRs @ [i] else ip_rrs qtype (Suc i) rrs (ipRRs @ [i])
      else ip_rrs qtype (Suc i) rrs ipRRs)"

fun setTTL :: "u32 \<Rightarrow> nat list \<Rightarrow> RR list \<Rightarrow> RR list" where
  "setTTL ttl [] answer = answer"
| "setTTL ttl (i # is) answer =
     setTTL ttl is (if rr_Ttl (answer ! i) < ttl then answer[i := set_Ttl ttl (answer ! i)] else answer)"

text \<open>The records at the positions of \<^verbatim>\<open>sorted\<close> take the places of the records of the queried type, in order.\<close>

fun merge_sorted :: "u16 \<Rightarrow> RR list \<Rightarrow> nat list \<Rightarrow> RR list \<Rightarrow> RR list" where
  "merge_sorted qtype store [] answer = answer"
| "merge_sorted qtype store (s # ss) [] = []"
| "merge_sorted qtype store (s # ss) (rr # rrs) =
     (if rr_Rrtype rr = qtype then (store ! s) # merge_sorted qtype store ss rrs
      else rr # merge_sorted qtype store (s # ss) rrs)"

definition FastestTCP_Resolve :: "'w dialer \<Rightarrow> 'w FastestTCP \<Rightarrow> Msg \<Rightarrow> ClientInfo \<Rightarrow> 'w \<Rightarrow> reply \<times> 'w" where
  "FastestTCP_Resolve dial r q ci w =
     (case r_Resolve (ft_resolver r) q ci w of
        ((Some a, None), w1) \<Rightarrow>
          (case m_Question q of
             [] \<Rightarrow> (panic, w1)
           | question # _ \<Rightarrow>
               (if q_Qtype question \<noteq> TypeA \<and> q_Qtype question \<noteq> TypeAAAA then ((Some a, None), w1)
                else
                  let ipRRs = ip_rrs (q_Qtype question) 0 (m_Answer a) []
                  in if length ipRRs < 2 then ((Some a, None), w1)
                     else
                       (case probe dial (ft_port r) (m_Answer a) ipRRs w1 of
                          (ch, w2) \<Rightarrow>
                            (case (if fo_WaitAll (ft_opt r) then probeAll ipRRs ch else probeFastest ipRRs ch) of
                               None \<Rightarrow> ((Some a, None), w2)
                             | Some sorted' \<Rightarrow>
                                 (let store = setTTL (fo_SuccessTTLMin (ft_opt r)) sorted' (m_Answer a)
                                  in ((Some (a\<lparr>m_Answer := merge_sorted (q_Qtype question) store sorted' store\<rparr>), None), w2))))))
      | ((a, err), w1) \<Rightarrow> ((a, err), w1))"

section \<open>Order of the addresses\<close>

lemma reorder_shift: "distinct (rr # xs) \<Longrightarrow> reorder rr xs = (if xs = [] then [] else rr # butlast xs)"
  by (induction xs arbitrary: rr) auto

lemma reorder_nth:
  assumes "distinct xs" "j < length xs"
  shows "reorder (xs ! j) xs = (if j = 0 then xs else xs ! j # butlast xs)"
proof (cases xs)
  case (Cons x ys)
  then show ?thesis
    using assms reorder_shift [of x ys] by (cases j) (auto simp: nth_eq_iff_index_eq)
qed (use assms in simp)

lemma reorder_loses:
  assumes "distinct xs" "0 < j" "Suc j < length xs"
  shows "hd (reorder (xs ! j) xs) = xs ! j" "\<not> distinct (reorder (xs ! j) xs)" "last xs \<notin> set (reorder (xs ! j) xs)"
proof -
  have out: "reorder (xs ! j) xs = xs ! j # butlast xs" using assms reorder_nth [of xs j] by simp
  have "xs ! j = butlast xs ! j" "j < length (butlast xs)" using assms by (simp_all add: nth_butlast)
  then have mem: "xs ! j \<in> set (butlast xs)" by simp
  have "xs \<noteq> []" using assms(3) by auto
  then have "distinct (butlast xs @ [last xs])" using assms(1) by simp
  then have "last xs \<notin> set (butlast xs)" by simp
  with mem show "hd (reorder (xs ! j) xs) = xs ! j" "\<not> distinct (reorder (xs ! j) xs)" "last xs \<notin> set (reorder (xs ! j) xs)"
    by (auto simp: out)
qed

text \<open>The positions of the records of a type.\<close>

definition positions :: "u16 \<Rightarrow> nat \<Rightarrow> RR list \<Rightarrow> nat list" where
  "positions qtype i rrs = map fst (filter (\<lambda>(_, rr). rr_Rrtype rr = qtype) (enumerate i rrs))"

lemma positions_simps [simp]:
  "positions qtype i [] = []"
  "positions qtype i (rr # rrs) = (if rr_Rrtype rr = qtype then i # positions qtype (Suc i) rrs else positions qtype (Suc i) rrs)"
  by (simp_all add: positions_def)

lemma ip_rrs_take: "length acc < 32 \<Longrightarrow> ip_rrs qtype i rrs acc = acc @ take (32 - length acc) (positions qtype i rrs)"
  by (induction qtype i rrs acc rule: ip_rrs.induct) (auto simp: take_Cons')

lemma positions_nth: "j \<in> set (positions qtype i rrs) \<Longrightarrow> i \<le> j \<and> j - i < length rrs \<and> rr_Rrtype (rrs ! (j - i)) = qtype"
  by (force simp: positions_def in_set_enumerate_eq)

lemma positions_distinct: "distinct (positions qtype i rrs)"
  unfolding positions_def by (intro distinct_map_filter) simp

lemma length_setTTL [simp]: "length (setTTL ttl is answer) = length answer"
  by (induction ttl "is" answer rule: setTTL.induct) auto

abbreviation raise_Ttl :: "u32 \<Rightarrow> RR \<Rightarrow> RR" where
  "raise_Ttl ttl r \<equiv> set_Ttl (max (rr_Ttl r) ttl) r"

lemma raise_Ttl_if: "raise_Ttl ttl r = (if rr_Ttl r < ttl then set_Ttl ttl r else r)"
  by (simp add: max.absorb1 max.absorb2 not_less less_imp_le)

lemma setTTL_nth:
  "j < length answer \<Longrightarrow> setTTL ttl is answer ! j = (if j \<in> set is then raise_Ttl ttl (answer ! j) else answer ! j)"
proof (induction ttl "is" answer rule: setTTL.induct)
  case (2 ttl i "is" answer)
  then show ?case
    by (cases "i = j"; cases "rr_Ttl (answer ! i) < ttl") (simp_all add: raise_Ttl_if)
qed simp

lemma setTTL_Rrtype: "j < length answer \<Longrightarrow> rr_Rrtype (setTTL ttl is answer ! j) = rr_Rrtype (answer ! j)"
  by (simp add: setTTL_nth)

lemma positions_setTTL: "positions qtype 0 (setTTL ttl is answer) = positions qtype 0 answer"
proof -
  have "map rr_Rrtype (setTTL ttl is answer) = map rr_Rrtype answer"
    by (rule nth_equalityI) (simp_all add: setTTL_Rrtype)
  moreover have "map rr_Rrtype xs = map rr_Rrtype ys \<Longrightarrow> positions qtype i xs = positions qtype i ys" for i xs ys
    by (induction xs ys arbitrary: i rule: list_induct2') auto
  ultimately show ?thesis by blast
qed

text \<open>The positions whose records the merged answer holds.\<close>

fun places :: "u16 \<Rightarrow> nat list \<Rightarrow> nat \<Rightarrow> RR list \<Rightarrow> nat list" where
  "places qtype [] i rrs = [i..<i + length rrs]"
| "places qtype (s # ss) i [] = []"
| "places qtype (s # ss) i (rr # rrs) =
     (if rr_Rrtype rr = qtype then s # places qtype ss (Suc i) rrs else i # places qtype (s # ss) (Suc i) rrs)"

lemma merge_sorted_places: "rrs = drop i store \<Longrightarrow> merge_sorted qtype store ss rrs = map ((!) store) (places qtype ss i rrs)"
proof (induction qtype ss i rrs rule: places.induct)
  case (1 qtype i rrs)
  then show ?case by (auto intro!: nth_equalityI)
next
  case (3 qtype s ss i rr rrs)
  then have "rr = store ! i" "rrs = drop (Suc i) store"
    by (metis nth_via_drop, metis drop_Suc list.sel(3) tl_drop)
  with 3(1,2) show ?case by simp
qed simp

lemma mset_places:
  "length ss \<le> length (positions qtype i rrs) \<Longrightarrow>
   mset (places qtype ss i rrs) + mset (take (length ss) (positions qtype i rrs)) = mset [i..<i + length rrs] + mset ss"
proof (induction qtype ss i rrs rule: places.induct)
  case (3 qtype s ss i rr rrs)
  have "[i..<i + length (rr # rrs)] = i # [Suc i..<Suc i + length rrs]" by (simp add: upt_rec [of i] del: upt_Suc)
  with 3 show ?case by (auto simp del: upt_Suc mset_upt)
qed (simp_all del: mset_upt)

lemma length_places [simp]: "length (places qtype ss i rrs) = length rrs"
  by (induction qtype ss i rrs rule: places.induct) auto

lemma places_other: "k < length rrs \<Longrightarrow> rr_Rrtype (rrs ! k) \<noteq> qtype \<Longrightarrow> places qtype ss i rrs ! k = i + k"
  by (induction qtype ss i rrs arbitrary: k rule: places.induct) (auto simp: nth_Cons' simp del: upt_Suc)

section \<open>Waiting for all probes\<close>

text \<open>The channel: every goroutine sends at most one result.\<close>

definition dial_law :: "'w dialer \<Rightarrow> bool" where
  "dial_law dial \<longleftrightarrow>
     (\<forall>port targets w. distinct (map fst (fst (dial port targets w))) \<and>
        (\<forall>j \<in> fst ` set (fst (dial port targets w)). j < length targets))"

lemma probeAll_loop_Some:
  "probeAll_loop rrs ch acc = Some out \<Longrightarrow> \<exists>xs. out = acc @ xs \<and> length xs = length rrs \<and> map Some xs = take (length rrs) ch"
proof (induction rrs ch acc rule: probeAll_loop.induct)
  case (4 x rrs rr ch results)
  then obtain xs where "out = (results @ [rr]) @ xs" "length xs = length rrs" "map Some xs = take (length rrs) ch" by auto
  then show ?case by (intro exI [of _ "rr # xs"]) simp
qed auto

text \<open>All records arrived, each once.\<close>

lemma probeAll_permutes:
  assumes "dial_law dial" "distinct rrs" "probe dial port answer rrs w = (ch, w')" "probeAll rrs ch = Some out"
  shows "mset out = mset rrs"
proof -
  let ?targets = "map (\<lambda>i. probe_target (rr_Data (answer ! i))) rrs"
  obtain arrivals where arr: "dial port ?targets w = (arrivals, w')"
    "ch = map (\<lambda>(j, ok). if ?targets ! j \<noteq> None \<and> ok then Some (rrs ! j) else None) arrivals"
    using assms(3) by (auto simp: probe_def Let_def split: prod.splits)
  have law: "distinct (map fst arrivals)" "\<forall>j \<in> fst ` set arrivals. j < length rrs"
    using assms(1) arr(1) unfolding dial_law_def by (metis fst_conv length_map)+
  obtain xs where xs: "out = xs" "length xs = length rrs" "map Some xs = take (length rrs) ch"
    using probeAll_loop_Some assms(4) unfolding probeAll_def by fastforce
  let ?js = "take (length rrs) (map fst arrivals)"
  have len: "length ?js = length rrs" using arg_cong [OF xs(3), of length] xs(2) by (simp add: arr(2))
  have "xs ! k = rrs ! (?js ! k)" if k: "k < length rrs" for k
  proof -
    have "Some (xs ! k) = map Some xs ! k" using xs(2) k by simp
    then have "Some (xs ! k) = ch ! k" using xs(3) k by simp
    moreover have "k < length arrivals" using len k by simp
    ultimately show ?thesis using k by (auto simp: arr(2) split: prod.splits if_splits)
  qed
  then have out: "out = map ((!) rrs) ?js" using xs(1,2) len by (intro nth_equalityI) auto
  have js: "distinct ?js" "set ?js \<subseteq> {..<length rrs}"
    using law set_take_subset [of "length rrs" "map fst arrivals"] by auto
  then have "set ?js = {..<length rrs}"
    using len distinct_card [OF js(1)] by (intro card_subset_eq) simp_all
  then have "mset ?js = mset [0..<length rrs]"
    using js(1) by (intro iffD1 [OF set_eq_iff_mset_eq_distinct]) (auto simp: atLeast0LessThan)
  then have "mset out = mset (map ((!) rrs) [0..<length rrs])" unfolding out by (simp only: mset_map)
  then show ?thesis by (simp add: map_nth)
qed

text \<open>Records of an answer in another order, with TTLs raised to a minimum or as they were.\<close>

definition reordered :: "u32 \<Rightarrow> RR list \<Rightarrow> RR list \<Rightarrow> bool" where
  "reordered ttl ans out \<longleftrightarrow>
     (\<exists>js. mset js = mset [0..<length ans] \<and> length out = length js \<and>
        (\<forall>k < length js. out ! k \<in> {ans ! (js ! k), raise_Ttl ttl (ans ! (js ! k))}))"

lemma reordered_refl: "reordered ttl ans ans"
  unfolding reordered_def by (intro exI [of _ "[0..<length ans]"]) simp

lemma reordered_length: "reordered ttl ans out \<Longrightarrow> length out = length ans"
  unfolding reordered_def by (metis diff_zero length_upt size_mset)

text \<open>Merging a permutation of the probed records reorders the answer.\<close>

lemma merge_reorders:
  fixes ttl :: u32
  assumes perm: "mset out = mset (ip_rrs qt 0 ans [])"
  defines "merged \<equiv> merge_sorted qt (setTTL ttl out ans) out (setTTL ttl out ans)"
  shows "reordered ttl ans merged" "\<And>k. k < length ans \<Longrightarrow> rr_Rrtype (ans ! k) \<noteq> qt \<Longrightarrow> merged ! k = ans ! k"
proof -
  let ?store = "setTTL ttl out ans" and ?ips = "take 32 (positions qt 0 ans)"
  define p where "p = places qt out 0 ?store"
  have p: "merged = map ((!) ?store) p" "length p = length ans"
    by (simp_all add: p_def merged_def merge_sorted_places)
  have ips: "mset out = mset ?ips" using perm by (simp add: ip_rrs_take)
  then have "length out = length ?ips" by (metis size_mset)
  then have first: "take (length out) (positions qt 0 ans) = ?ips" "length out \<le> length (positions qt 0 ans)"
    by (auto simp: min_def)
  have "mset p + mset ?ips = mset [0..<length ans] + mset out"
    using mset_places [of out qt 0 ?store] first by (simp add: p_def positions_setTTL del: mset_upt)
  with ips have mp: "mset p = mset [0..<length ans]" by simp
  have "p ! k < length ans" if "k < length p" for k
    using nth_mem [OF that] mp by (metis atLeastLessThan_iff set_mset_mset set_upt)
  then have "\<forall>k < length p. merged ! k \<in> {ans ! (p ! k), raise_Ttl ttl (ans ! (p ! k))}"
    by (simp add: p(1) setTTL_nth)
  then show "reordered ttl ans merged" unfolding reordered_def using mp p(1) by (metis length_map)
  show "merged ! k = ans ! k" if "k < length ans" "rr_Rrtype (ans ! k) \<noteq> qt" for k
  proof -
    have "k \<notin> set out" using that ips positions_nth [of k qt 0 ans]
      by (metis diff_zero in_set_takeD set_mset_mset)
    then show ?thesis using places_other [of k ?store qt out 0] p that by (simp add: p_def setTTL_nth)
  qed
qed

text \<open>
  C11: The TCP probe resolver that waits for all probes returns the answer it was given, reordered: the records
  are a permutation of the upstream records, with their TTLs kept or raised to the configured minimum, records
  of other types stay in place, and nothing else of the reply changes. This holds whatever the network does,
  when probes fail or time out included.
\<close>

theorem FastestTCP_permutes:
  assumes "dial_law dial" "fo_WaitAll (ft_opt r)" "r_Resolve (ft_resolver r) q ci w = ((Some a, None), w1)"
    "m_Question q = question # questions"
  shows "\<exists>p w2. FastestTCP_Resolve dial r q ci w = ((Some (a\<lparr>m_Answer := p\<rparr>), None), w2) \<and>
    reordered (fo_SuccessTTLMin (ft_opt r)) (m_Answer a) p \<and>
    (\<forall>k < length p. rr_Rrtype (m_Answer a ! k) \<noteq> q_Qtype question \<longrightarrow> p ! k = m_Answer a ! k)"
proof -
  let ?ans = "m_Answer a" and ?qt = "q_Qtype question" and ?ttl = "fo_SuccessTTLMin (ft_opt r)"
  let ?ips = "ip_rrs ?qt 0 ?ans []"
  obtain ch w2 where probe: "probe dial (ft_port r) ?ans ?ips w1 = (ch, w2)" by fastforce
  show ?thesis
  proof (cases "(?qt = TypeA \<or> ?qt = TypeAAAA) \<and> 2 \<le> length ?ips \<and> probeAll ?ips ch \<noteq> None")
    case False
    then show ?thesis using assms(2-4) probe
      by (intro exI [of _ ?ans]) (auto simp: FastestTCP_Resolve_def Let_def not_less not_le reordered_refl)
  next
    case True
    then obtain out where out: "probeAll ?ips ch = Some out" by blast
    let ?merged = "merge_sorted ?qt (setTTL ?ttl out ?ans) out (setTTL ?ttl out ?ans)"
    have "mset out = mset ?ips"
      by (rule probeAll_permutes [OF assms(1) _ probe out]) (simp add: ip_rrs_take positions_distinct)
    moreover have "FastestTCP_Resolve dial r q ci w = ((Some (a\<lparr>m_Answer := ?merged\<rparr>), None), w2)"
      using assms(2-4) probe True out by (auto simp: FastestTCP_Resolve_def Let_def)
    ultimately show ?thesis
      using merge_reorders [of out ?qt ?ans, where ttl = ?ttl] reordered_length [of ?ttl ?ans ?merged]
      by (intro exI [of _ ?merged] exI [of _ w2]) simp
  qed
qed

text \<open>Three addresses, all reachable, the second and then the third and the first.\<close>

definition ref_addrs :: "RR list" where
  "ref_addrs = map (\<lambda>n. ref_rr ''x.'' TypeA 60 (A [192, 0, 2, n])) [1, 2, 3]"

definition ref_dial :: "unit dialer" where
  "ref_dial port targets w = (filter (\<lambda>(j, _). j < length targets) [(1, True), (2, True), (0, True)], w)"

definition ref_tcp :: "bool \<Rightarrow> unit FastestTCP" where
  "ref_tcp all = NewFastestTCP ''tcp'' (ref_serving ref_addrs) \<lparr>fo_Port = 0, fo_WaitAll = all, fo_SuccessTTLMin = 0\<rparr>"

lemma ref_dial_law: "dial_law ref_dial"
  by (auto simp: dial_law_def ref_dial_def)

theorem FastestTCP_permutes_witness:
  "\<exists>p w2. FastestTCP_Resolve ref_dial (ref_tcp True) (ref_query ''x.'' TypeA) ref_client () =
      ((Some ((ref_reply (ref_query ''x.'' TypeA) ref_addrs)\<lparr>m_Answer := p\<rparr>), None), w2) \<and> reordered 0 ref_addrs p"
  using FastestTCP_permutes [OF ref_dial_law, of "ref_tcp True" "ref_query ''x.'' TypeA" ref_client "()"
      "ref_reply (ref_query ''x.'' TypeA) ref_addrs" "()"]
  by (fastforce simp: ref_tcp_def NewFastestTCP_def ref_query_def ref_addrs_def ref_reply_def Let_def)

section \<open>Waiting for the first probe\<close>

text \<open>
  C36: When the resolver waits for the first probe only, the fastest address gets to the top, and an address is
  lost. The loop compares each record with the one it has just moved, not with the fastest, so that where the
  fastest is neither the first nor the last of the records, the list has it twice and the last record not at
  all. Of three addresses the second of which answers first, the client gets the second, the first and the
  second.
\<close>

theorem FastestTCP_loses_address:
  assumes "distinct rrs" "0 < j" "Suc j < length rrs"
  shows "(\<exists>out. probeFastest rrs (Some (rrs ! j) # ch) = Some out \<and> hd out = rrs ! j \<and> \<not> distinct out \<and> last rrs \<notin> set out) \<and>
    map_option m_Answer (fst (fst (FastestTCP_Resolve ref_dial (ref_tcp False) (ref_query ''x.'' TypeA) ref_client ()))) =
      Some [ref_addrs ! 1, ref_addrs ! 0, ref_addrs ! 1]"
proof
  show "\<exists>out. probeFastest rrs (Some (rrs ! j) # ch) = Some out \<and> hd out = rrs ! j \<and> \<not> distinct out \<and> last rrs \<notin> set out"
    using reorder_loses [OF assms] by (simp add: probeFastest_def)
qed code_simp

theorem FastestTCP_loses_address_witness:
  "\<exists>out. probeFastest [0, 1, 2] [Some 1] = Some out \<and> hd out = 1 \<and> \<not> distinct out \<and> 2 \<notin> set out"
  using FastestTCP_loses_address [of "[0, 1, 2]" 1 "[]"] by simp

end
