(* ===== verification/Spec2Isabelle.thy ===== *)
theory Spec2Isabelle
  imports RandomGroups LoadBalance Prefetch Pipeline Edns Rewriting TtlModifier RateLimit Dns64 Dedup DnssecResolver Endpoints
    Listeners FastestTcp
begin

text \<open>
  RouteDNS is a DNS stub resolver, router and proxy. A query enters through a listener and walks a graph of
  resolvers. A resolver is anything with a method \<^verbatim>\<open>Resolve\<close>: a client of an upstream server, a group that
  chooses among others, a router, a cache, or a modifier that changes the query on its way down or the answer
  on its way up. The theories model every kind of resolver that is logic rather than transport, and show what
  it does for any resolver below it.

  \<^bold>\<open>How the code is represented.\<close> A resolver below a component is a value of type \<^typ>\<open>'w resolver\<close>: its name and a
  function from the query, the client and a world \<open>'w\<close> to a reply and the next world, so that the order of the
  calls to it is visible. A reply is the pair that Go returns, a message that may be nil and an error that may
  be nil; a panic is the error \<open>Panic\<close> (abbreviated \<open>panic\<close>), or \<open>None\<close> where a helper panics. A component with
  state is a record with the fields of its Go struct, its operations take the record and return it changed. Maps
  are association lists where their order or their writes matter, integers are words of their width, byte slices
  are lists of bytes, Go strings are \<open>string\<close>. Slices and messages are values, so a copy is the value itself.
  Goroutines are the rules of an inductive step relation and interleave freely. Loops are recursive functions
  with a termination proof; where ending depends on data, they are \<^verbatim>\<open>partial_function (option)\<close>, and a theorem
  shows that they return. No definition has fuel. Random numbers, clocks and the order in which a loop visits a
  map are arguments.

  \<^bold>\<open>Libraries.\<close> The DNS library is the record \<open>dnslib\<close> (and \<open>dnsseclib\<close> for names, keys and signatures) of the
  functions the code calls; what is used of them are the named laws \<open>IsEdns0_law\<close>, \<open>SetReply_law\<close>,
  \<open>SetRcode_law\<close>, \<open>SetEdns0_law\<close>, \<open>Unpack_law\<close>, \<open>IsEdns0_types_law\<close>, \<open>Padding_law\<close>, \<open>Truncate_law\<close> and
  \<open>CanonicalName_law\<close>, each of which is documented behaviour. \<open>RefLib\<close> has a concrete library that satisfies
  them, with small messages and resolvers, and every witness is an application to it. Regular expressions, hash
  functions, the MaxMind database, text templates, JSON, floating point arithmetic and the expiring caches of
  the prefetcher are arguments in the same way.

  \<^bold>\<open>Foundations.\<close> \<open>Prelude\<close>: words, byte order, strings, association lists, and the locale
  \<open>step_invariant\<close> of an invariant of a step relation, interpreted by failback, random, deduplication and
  pipeline. \<open>Net\<close>, \<open>NetParse\<close>: the part of package
  \<^verbatim>\<open>net\<close> the code uses (addresses, masks, networks, parsing and printing of them). \<open>Dns\<close>: messages, records,
  options, errors, resolvers. \<open>Message\<close>: \<^verbatim>\<open>message.go\<close>, \<^verbatim>\<open>resolver.go\<close>.

  \<^bold>\<open>Groups and routing.\<close> \<open>ResolverGroups\<close>: \<^verbatim>\<open>roundrobin.go\<close>, \<^verbatim>\<open>failrotate.go\<close>, \<^verbatim>\<open>failback.go\<close>, with the locale
  \<open>failover_group\<close>, the contract of a retry loop: it offers a query to each remaining resolver once until one
  replies well. Its interpretations for failrotate, failback, random and load balancing give the theorems that
  a group with one working resolver works. \<open>RandomGroups\<close>: \<^verbatim>\<open>random.go\<close>, \<^verbatim>\<open>fastest.go\<close>. \<open>FastestTcp\<close>:
  \<^verbatim>\<open>fastest-tcp.go\<close>; the answer is a permutation where all probes are awaited, and loses an address where only
  the first is. \<open>LoadBalance\<close>:
  \<^verbatim>\<open>loadbalance.go\<close>. \<open>Routing\<close>: \<^verbatim>\<open>route.go\<close>, \<^verbatim>\<open>router.go\<close>; a route matches exactly when every criterion
  holds. \<open>Pipeline\<close>: \<^verbatim>\<open>pipeline.go\<close>; no request is completed twice or lost in any interleaving. \<open>Dedup\<close>:
  \<^verbatim>\<open>request-dedup.go\<close>; one query per key is upstream at a time, all get its answer, every run ends.

  \<^bold>\<open>Cache.\<close> \<open>CacheBlob\<close>: \<^verbatim>\<open>cache-blob.go\<close>, the byte layout of a stored answer. \<open>LruCache\<close>: \<^verbatim>\<open>lru-cache.go\<close>, a
  linked list on an explicit heap. \<open>LruRefine\<close>: the locale \<open>data_refinement\<close> and the proof that the linked store
  refines a list of entries in order of use; bounds, retention and soundness follow on the list. \<open>CacheFile\<close>:
  \<^verbatim>\<open>cache-file-raw.go\<close> and the JSON format; files are read back. \<open>MemoryBackend\<close>: \<^verbatim>\<open>cache-memory.go\<close>.
  \<open>CacheResolver\<close>: \<^verbatim>\<open>cache.go\<close> over the locale \<open>cache_backend\<close>, interpreted by the memory backend: what a hit
  serves, that stored answers are served until they expire, that nothing panics. \<open>Prefetch\<close>: \<^verbatim>\<open>prefetch.go\<close>.

  \<^bold>\<open>Lists.\<close> \<open>Loaders\<close>: \<^verbatim>\<open>blocklistloader*.go\<close>; a database is only built from a complete list. \<open>IpDB\<close>:
  \<^verbatim>\<open>ip-blocklist-trie.go\<close>, \<^verbatim>\<open>cidr-db.go\<close>, \<^verbatim>\<open>geoip-db.go\<close>, \<^verbatim>\<open>asn-db.go\<close>, \<^verbatim>\<open>ip-db-multi.go\<close>. \<open>DomainRules\<close>,
  \<open>DomainTrie\<close>, \<open>DomainCompact\<close>: \<^verbatim>\<open>blocklistdb-domain*.go\<close>, with the locales \<open>domain_index\<close> and \<open>domain_cover\<close> of
  a label index and of what a list of rules covers; the tries agree with the rules. \<open>NameLists\<close>:
  \<^verbatim>\<open>blocklistdb-hosts.go\<close>, \<^verbatim>\<open>blocklistdb-regexp.go\<close>, \<^verbatim>\<open>blocklistdb-multi.go\<close>, \<^verbatim>\<open>mac-db.go\<close>. \<open>Blocklists\<close>:
  \<^verbatim>\<open>blocklist.go\<close>, \<^verbatim>\<open>client-blocklist.go\<close>, \<^verbatim>\<open>response-blocklist-*.go\<close>, \<^verbatim>\<open>edns0ede.go\<close>, \<^verbatim>\<open>template.go\<close>. This
  theory joins loader, database and resolver in the two theorems below.

  \<^bold>\<open>DNSSEC.\<close> \<open>DnssecDenial\<close>: \<^verbatim>\<open>dnssec/denial.go\<close> and the proofs of \<^verbatim>\<open>dnssec/denial_existence.go\<close>; canonical order, as an
  instance of \<open>linorder\<close> for names.
  \<open>Dnssec\<close>: \<^verbatim>\<open>dnssec/keystore.go\<close>, \<^verbatim>\<open>dnssec/validator.go\<close>; the validator returns. \<open>DnssecTrust\<close>: an inductive
  definition of a chain of trust, the invariant that the keystore has only keys with such a chain, and that an
  accepted answer or denial is signed by them. \<open>DnssecResolver\<close>: \<^verbatim>\<open>dnssec.go\<close>, and four answers that the code
  accepts without such a proof for what they say: an answer section of signatures only, DS records of another
  owner, an unsigned record that makes the whole answer insecure depending on map order, and an NSEC record of
  the parent zone.

  \<^bold>\<open>Modifiers.\<close> \<open>Edns\<close>: \<^verbatim>\<open>ecs-modifier.go\<close>, \<^verbatim>\<open>edns0-modifier.go\<close>, \<^verbatim>\<open>padding.go\<close>. \<open>Rewriting\<close>: \<^verbatim>\<open>replace.go\<close>,
  \<^verbatim>\<open>response-collapse.go\<close>, \<^verbatim>\<open>response-minimize.go\<close>, \<^verbatim>\<open>truncate-retry.go\<close>, \<^verbatim>\<open>static.go\<close>, \<^verbatim>\<open>drop.go\<close>.
  \<open>TtlModifier\<close>: \<^verbatim>\<open>ttl-modifier.go\<close>. \<open>RateLimit\<close>: \<^verbatim>\<open>rate-limiter.go\<close>; exactly the limit is forwarded in each window.
  \<open>Dns64\<close>: \<^verbatim>\<open>dns64.go\<close>; addresses can be extracted again. \<open>Endpoints\<close>: \<^verbatim>\<open>validate.go\<close>.

  \<^bold>\<open>Listeners.\<close> \<open>Listeners\<close>: the handler of \<^verbatim>\<open>dnslistener.go\<close> that plain DNS, DoT and DTLS share: access control,
  padding, truncation and the metrics; truncation and the names of response codes are arguments of the library.

  \<^bold>\<open>Bounds.\<close> The theorems about domain lists need the rules to be shorter than 4 GiB in all, because the trie
  addresses labels with 32 bits. The theorems about the compact list hold where no two fingerprints of different
  rules collide, and say what is still true where they do. Cache times are within the range of 64 bits.

  \<^bold>\<open>Not modelled.\<close> Transports: the sockets of the listeners, the handlers of DoH, DoQ and oblivious DoH, the clients, proxies,
  sockets and network namespaces, which are calls of network libraries and the system. The command, which reads a
  configuration file and builds the graph. The Redis backend, whose behaviour is that of the server. Bindings of
  the Lua interpreter. Query logging, metrics pages and log output. The
  template responder \<^verbatim>\<open>static-template.go\<close>, which can put a nil record into a message; the message type of the
  model has none. The download of trust anchors. The timers that start a refresh, a garbage collection or a save
  are not modelled, what they start is. Writes to logs are left out everywhere, as are the locks: a section under
  a lock is one step.
\<close>

section \<open>Blocklists end to end\<close>

text \<open>
  C1: a blocklist blocks what its rules cover and nothing else. For a blocklist whose database was loaded
  from a list of domain rules, a query for a name some rule covers is answered with NXDOMAIN without
  any resolver being asked, and every other query is forwarded unmodified and its answer returned
  unmodified.
\<close>

theorem Blocklist_end_to_end:
  assumes "SetReply_law L" "SetRcode_law L" "SetEdns0_law L"
    and "newDomainDB w0 name l incl = (Inr db, l', w1)"
    and "bo_BlocklistDB (bl_opt r) = Some (BDomain db)" "bo_AllowlistDB (bl_opt r) = None" "bo_BlocklistResolver (bl_opt r) = None"
    and "m_Question q = question # qs" "domainQueryName q = Some qname"
  shows "\<exists>rules. (offered w0 l rules \<or> may_start_empty l \<and> rules = []) \<and>
    (sum_list (map length rules) < 2 ^ 32 \<longrightarrow>
     (if domain_covers (rules_of incl rules) (name_labels qname)
      then \<exists>a. Blocklist_Resolve L r q ci w = ((Some a, None), count_blocked r, w) \<and>
             m_Id a = m_Id q \<and> m_Rcode a = RcodeNameError \<and> m_Answer a = [] \<and> m_Ns a = []
      else Blocklist_Resolve L r q ci w =
             (case r_Resolve (bl_resolver r) q ci w of (ae, w') \<Rightarrow> (ae, count_allowed r, w'))))"
proof -
  obtain rules where rules: "offered w0 l rules \<or> may_start_empty l \<and> rules = []"
    "sum_list (map length rules) < 2 ^ 32 \<longrightarrow>
     (\<forall>msg qname. domainQueryName msg = Some qname \<longrightarrow>
        (\<exists>m. DomainDB_Match db msg = Some ([], [], m, domain_covers (rules_of incl rules) (name_labels qname))))"
    using newDomainDB_covers [OF assms(4)] by blast
  have "if domain_covers (rules_of incl rules) (name_labels qname)
      then \<exists>a. Blocklist_Resolve L r q ci w = ((Some a, None), count_blocked r, w) \<and>
             m_Id a = m_Id q \<and> m_Rcode a = RcodeNameError \<and> m_Answer a = [] \<and> m_Ns a = []
      else Blocklist_Resolve L r q ci w =
             (case r_Resolve (bl_resolver r) q ci w of (ae, w') \<Rightarrow> (ae, count_allowed r, w'))"
    if "sum_list (map length rules) < 2 ^ 32"
  proof -
    from rules(2) that assms(9) obtain m where
      m: "DomainDB_Match db q = Some ([], [], m, domain_covers (rules_of incl rules) (name_labels qname))" by blast
    then have lists: "matchAllowlist L r q = Some (None, False)"
      "matchBlocklist L r q = Some ([], [], m, domain_covers (rules_of incl rules) (name_labels qname))"
      using assms(5,6) by (simp_all add: matchAllowlist_def matchBlocklist_def)
    show ?thesis
    proof (cases "domain_covers (rules_of incl rules) (name_labels qname)")
      case True
      with m have "m \<noteq> None" using BlocklistDB_Match_match [of L "BDomain db" q] by simp
      with lists True assms(7,8) have "Blocklist_Resolve L r q ci w =
          ((Some (block_answer L (bo_EDNS0EDETemplate (bl_opt r)) q question [] m), None), count_blocked r, w)"
        by (simp add: Blocklist_Resolve_def)
      moreover have "m_Answer (block_answer L tpl q question [] m) = []" for tpl
        using assms(1-3) EDE_Apply_keeps(2) [OF assms(3)] by (simp add: block_answer_def SetReply_law_def SetRcode_law_def new_Msg_def)
      moreover note block_answer_blocks [OF assms(1-3), of q question "bo_EDNS0EDETemplate (bl_opt r)" "[]" m]
      ultimately show ?thesis using True by (simp add: blocking_answer_def)
    next
      case False
      with lists assms(8) show ?thesis by (simp add: Blocklist_Resolve_def)
    qed
  qed
  with rules(1) show ?thesis by blast
qed

definition ref_blocklist :: "DomainDB \<Rightarrow> unit Blocklist" where
  "ref_blocklist db =
     NewBlocklist (ref_answering ''upstream'')
       \<lparr>bo_BlocklistResolver = None, bo_BlocklistDB = Some (BDomain db), bo_BlocklistRefresh = 0, bo_AllowListResolver = None,
        bo_AllowlistDB = None, bo_AllowlistRefresh = 0, bo_EDNS0EDETemplate = None\<rparr>"

theorem Blocklist_end_to_end_witness:
  "\<exists>db a. newDomainDB ref_world ''list'' (StaticLoader ref_domains) False = (Inr db, StaticLoader ref_domains, ref_world) \<and>
     fst (Blocklist_Resolve ref_lib (ref_blocklist db) (ref_query ''a.b.shop.com.'' 1) ref_client ()) = (Some a, None) \<and>
     m_Rcode a = RcodeNameError"
proof -
  obtain db where db: "newDomainDB ref_world ''list'' (StaticLoader ref_domains) False = (Inr db, StaticLoader ref_domains, ref_world)"
    using ref_newDomainDB by blast
  have q: "domainQueryName (ref_query ''a.b.shop.com.'' 1) = Some ''a.b.shop.com''"
    "domain_covers (rules_of False ref_domains) (name_labels ''a.b.shop.com'')"
    "sum_list (map length ref_domains) < 2 ^ 32" by code_simp+
  have "m_Question (ref_query ''a.b.shop.com.'' 1) = [\<lparr>q_Name = ''a.b.shop.com.'', q_Qtype = 1, q_Qclass = 1\<rparr>]"
    by (simp add: ref_query_def)
  from Blocklist_end_to_end [of ref_lib, OF _ _ _ db _ _ _ this q(1), of "ref_blocklist db" ref_client "()"] q(2,3) db
  show ?thesis by (auto simp: ref_blocklist_def NewBlocklist_def)
qed


definition ref_filter :: "CidrDB \<Rightarrow> unit ResponseBlocklistIP" where
  "ref_filter db =
     NewResponseBlocklistIP (ref_serving [ref_rr ''a.'' 1 60 (A [10, 1, 2, 3]), ref_rr ''a.'' 1 60 (A [192, 0, 2, 8])])
       None (Some (IPCidr db)) 0 True False None"


end
